(* ===== verification/Gantry_Prelude.thy ===== *)
theory Gantry_Prelude
  imports Main "HOL-Library.Word"
begin

text \<open>
  Shared vocabulary of the development: the machine integers of the Go sources, the
  little- and big-endian integer codecs of Go's \<open>encoding/binary\<close>, slices and indexing
  with the range check that makes Go panic, and the collections the component theories
  fill for their automation.
\<close>

unbundle bit_operations_syntax

section \<open>Machine integers and byte slices\<close>

type_synonym byte = "8 word"
type_synonym u8 = "8 word"
type_synonym u16 = "16 word"
type_synonym u32 = "32 word"
type_synonym u64 = "64 word"
type_synonym bytes = "byte list"

named_theorems wf_intros \<open>introduction rules for the well-formedness invariants\<close>
named_theorems frame_simps \<open>fields an operation leaves alone\<close>

text \<open>Little-endian encoding of \<open>n\<close> bytes and its inverse.\<close>

primrec put_le :: "nat \<Rightarrow> nat \<Rightarrow> bytes" where
  "put_le 0 x = []"
| "put_le (Suc n) x = of_nat x # put_le n (x div 256)"

primrec get_le :: "bytes \<Rightarrow> nat" where
  "get_le [] = 0"
| "get_le (b # bs) = unat b + 256 * get_le bs"

definition PutUint16 :: "u16 \<Rightarrow> bytes" where
  "PutUint16 x = put_le 2 (unat x)"

definition PutUint32 :: "u32 \<Rightarrow> bytes" where
  "PutUint32 x = put_le 4 (unat x)"

definition PutUint64 :: "u64 \<Rightarrow> bytes" where
  "PutUint64 x = put_le 8 (unat x)"

definition Uint16 :: "bytes \<Rightarrow> u16" where
  "Uint16 bs = of_nat (get_le (take 2 bs))"

definition Uint32 :: "bytes \<Rightarrow> u32" where
  "Uint32 bs = of_nat (get_le (take 4 bs))"

definition Uint64 :: "bytes \<Rightarrow> u64" where
  "Uint64 bs = of_nat (get_le (take 8 bs))"

text \<open>Big-endian 16-bit reads, as network headers use them.\<close>

definition BEUint16 :: "bytes \<Rightarrow> u16" where
  "BEUint16 bs = of_nat (get_le (rev (take 2 bs)))"

text \<open>\<open>xs[lo:lo+n]\<close>: Go panics when the slice leaves the backing array.\<close>

definition slice :: "nat \<Rightarrow> nat \<Rightarrow> 'a list \<Rightarrow> 'a list option" where
  "slice lo n xs = (if lo + n \<le> length xs then Some (take n (drop lo xs)) else None)"

text \<open>\<open>xs[lo:]\<close>, \<open>xs[:hi]\<close>, \<open>xs[lo:hi]\<close> and \<open>xs[i]\<close>; \<open>None\<close> is the panic. A slice may be taken up to its
  capacity in Go; here the length is the bound, so a computation that does not panic here does not
  panic there.\<close>

definition slice_from :: "nat \<Rightarrow> 'a list \<Rightarrow> 'a list option" where
  "slice_from lo xs = (if lo \<le> length xs then Some (drop lo xs) else None)"

definition slice_to :: "nat \<Rightarrow> 'a list \<Rightarrow> 'a list option" where
  "slice_to hi xs = (if hi \<le> length xs then Some (take hi xs) else None)"

definition slice_range :: "nat \<Rightarrow> nat \<Rightarrow> 'a list \<Rightarrow> 'a list option" where
  "slice_range lo hi xs = (if lo \<le> hi \<and> hi \<le> length xs then Some (take (hi - lo) (drop lo xs)) else None)"

definition index_at :: "nat \<Rightarrow> 'a list \<Rightarrow> 'a option" where
  "index_at i xs = (if i < length xs then Some (xs ! i) else None)"

text \<open>\<open>binary.LittleEndian.Uint16(xs[lo:])\<close> and its wider forms, which panic when the bytes are not there.\<close>

definition Uint16_at :: "nat \<Rightarrow> bytes \<Rightarrow> u16 option" where
  "Uint16_at lo xs = (if lo + 2 \<le> length xs then Some (Uint16 (drop lo xs)) else None)"

definition Uint32_at :: "nat \<Rightarrow> bytes \<Rightarrow> u32 option" where
  "Uint32_at lo xs = (if lo + 4 \<le> length xs then Some (Uint32 (drop lo xs)) else None)"

definition Uint64_at :: "nat \<Rightarrow> bytes \<Rightarrow> u64 option" where
  "Uint64_at lo xs = (if lo + 8 \<le> length xs then Some (Uint64 (drop lo xs)) else None)"

text \<open>\<open>copy(xs[lo:], ys)\<close> where \<open>ys\<close> fits: the bytes in place of the old ones.\<close>

definition splice :: "nat \<Rightarrow> 'a list \<Rightarrow> 'a list \<Rightarrow> 'a list" where
  "splice lo ys xs = take lo xs @ ys @ drop (lo + length ys) xs"

section \<open>Laws of the codecs\<close>

lemma length_put_le [simp]: "length (put_le n x) = n"
  by (induction n arbitrary: x) simp_all

lemma unat_less_2p: "unat (x :: 'a::len word) < 2 ^ LENGTH('a)"
  by (rule unsigned_less)

lemma unat_of_nat_byte: "unat (of_nat x :: byte) = x mod 256"
  by (simp add: unat_of_nat)

lemma get_put_le: "get_le (put_le n x) = x mod 256 ^ n"
proof (induction n arbitrary: x)
  case 0
  show ?case by simp
next
  case (Suc n)
  have "x mod 256 + 256 * (x div 256 mod 256 ^ n) = x mod (256 * 256 ^ n)"
    by (simp add: mod_mult2_eq)
  with Suc show ?case by (simp add: unat_of_nat_byte)
qed

lemma get_le_less: "get_le bs < 256 ^ length bs"
proof (induction bs)
  case Nil
  show ?case by simp
next
  case (Cons b bs)
  have "unat b \<le> 255"
    using unat_less_2p [of b] by simp
  with Cons show ?case by simp
qed

lemma get_le_append: "get_le (xs @ ys) = get_le xs + 256 ^ length xs * get_le ys"
  by (induction xs) (simp_all add: algebra_simps)

lemma length_PutUint [simp]:
  "length (PutUint16 a) = 2" "length (PutUint32 b) = 4" "length (PutUint64 c) = 8"
  by (simp_all add: PutUint16_def PutUint32_def PutUint64_def)

lemma Uint16_PutUint16 [simp]: "Uint16 (PutUint16 x @ ys) = x"
  using unat_less_2p [of x]
  by (simp add: Uint16_def PutUint16_def get_put_le)

lemma Uint32_PutUint32 [simp]: "Uint32 (PutUint32 x @ ys) = x"
  using unat_less_2p [of x]
  by (simp add: Uint32_def PutUint32_def get_put_le)

lemma Uint64_PutUint64 [simp]: "Uint64 (PutUint64 x @ ys) = x"
  using unat_less_2p [of x]
  by (simp add: Uint64_def PutUint64_def get_put_le)

lemmas Uint_roundtrip_exact [simp] =
  Uint16_PutUint16 [where ys = "[]", simplified]
  Uint32_PutUint32 [where ys = "[]", simplified]
  Uint64_PutUint64 [where ys = "[]", simplified]

section \<open>Laws of slices\<close>

lemma slice_SomeD:
  assumes "slice lo n xs = Some ys"
  shows "lo + n \<le> length xs" and "ys = take n (drop lo xs)" and "length ys = n"
  using assms by (auto simp: slice_def split: if_splits)

lemma slice_eq_Some [simp]: "lo + n \<le> length xs \<Longrightarrow> slice lo n xs = Some (take n (drop lo xs))"
  by (simp add: slice_def)

lemma checked_eq_Some [simp]:
  "lo \<le> length xs \<Longrightarrow> slice_from lo xs = Some (drop lo xs)"
  "hi \<le> length xs \<Longrightarrow> slice_to hi xs = Some (take hi xs)"
  "lo \<le> hi \<Longrightarrow> hi \<le> length xs \<Longrightarrow> slice_range lo hi xs = Some (take (hi - lo) (drop lo xs))"
  "i < length xs \<Longrightarrow> index_at i xs = Some (xs ! i)"
  "lo + 2 \<le> length bs \<Longrightarrow> Uint16_at lo bs = Some (Uint16 (drop lo bs))"
  "lo + 4 \<le> length bs \<Longrightarrow> Uint32_at lo bs = Some (Uint32 (drop lo bs))"
  "lo + 8 \<le> length bs \<Longrightarrow> Uint64_at lo bs = Some (Uint64 (drop lo bs))"
  by (simp_all add: slice_from_def slice_to_def slice_range_def index_at_def Uint16_at_def Uint32_at_def
      Uint64_at_def)

lemma length_splice [simp]: "lo + length ys \<le> length xs \<Longrightarrow> length (splice lo ys xs) = length xs"
  by (simp add: splice_def)

lemma slice_splice_same:
  "lo + length ys \<le> length xs \<Longrightarrow> slice lo (length ys) (splice lo ys xs) = Some ys"
  by (simp add: slice_def splice_def)

lemma slice_splice_disjoint:
  assumes "lo + length ys \<le> length xs" and "i + n \<le> lo \<or> lo + length ys \<le> i"
  shows "slice i n (splice lo ys xs) = slice i n xs"
proof (cases "i + n \<le> lo")
  case True
  have "take n (drop i (take lo xs)) = take n (drop i xs)"
    using True by (simp add: take_drop min_def)
  with True show ?thesis
    using assms(1) by (simp add: slice_def splice_def)
next
  case False
  with assms(2) have le: "lo + length ys \<le> i" by simp
  have "drop i (splice lo ys xs) = drop i xs"
    using assms(1) le by (simp add: splice_def)
  then show ?thesis
    using assms(1) by (simp add: slice_def)
qed

lemma nth_splice:
  assumes "lo + length ys \<le> length xs" and "i < length xs"
  shows "splice lo ys xs ! i =
    (if lo \<le> i \<and> i < lo + length ys then ys ! (i - lo) else xs ! i)"
  using assms by (auto simp: splice_def nth_append min_def)

section \<open>Words\<close>

lemma unat_add_no_wrap:
  fixes a b :: "'a::len word"
  assumes "unat a + unat b < 2 ^ LENGTH('a)"
  shows "unat (a + b) = unat a + unat b"
  using assms by (simp add: unat_word_ariths)

lemma unat_diff_le:
  fixes a b :: "'a::len word"
  assumes "b \<le> a"
  shows "unat (a - b) = unat a - unat b"
  using assms by (simp add: unat_sub)

lemma unat_ucast_mod: "unat (ucast (w :: 'b::len word) :: 'a::len word) = unat w mod 2 ^ LENGTH('a)"
  by (simp add: unsigned_ucast_eq take_bit_eq_mod)

lemma unat_ucast_up:
  fixes w :: "'b::len word"
  assumes "LENGTH('b) \<le> LENGTH('a)"
  shows "unat (ucast w :: 'a::len word) = unat w"
proof -
  have "unat w < 2 ^ LENGTH('a)"
    using unat_less_2p [of w] assms by (meson less_le_trans one_le_numeral power_increasing)
  then show ?thesis by (simp add: unat_ucast_mod)
qed

lemma unat_ucast_widen [simp]:
  "unat (ucast (a :: u16) :: u32) = unat a" "unat (ucast (a :: u16) :: u64) = unat a"
  "unat (ucast (b :: u32) :: u64) = unat b" "unat (ucast (w :: u8) :: u16) = unat w"
  "unat (ucast (w :: u8) :: u32) = unat w" "unat (ucast (w :: u8) :: u64) = unat w"
  by (simp_all add: unat_ucast_up)

lemma ucast_u16_zero: "ucast (n :: u16) = (0 :: u64) \<longleftrightarrow> n = 0"
  by (metis unat_ucast_widen(2) unat_eq_zero)

lemma replicate_numeral: "replicate (numeral n) x = x # replicate (pred_numeral n) x"
  by (simp add: numeral_eq_Suc)

text \<open>Decoding then encoding gives the bytes back.\<close>

lemma put_get_le: "put_le (length bs) (get_le bs) = bs"
proof (induction bs)
  case (Cons b bs)
  have "of_nat (unat b + 256 * get_le bs) = b"
    by (metis mod_mult_self2 unat_of_nat_byte word_unat_eq_iff mult.commute unat_of_nat_byte
        mod_less unat_less_2p [of b, simplified])
  moreover have "(unat b + 256 * get_le bs) div 256 = get_le bs"
    using unat_less_2p [of b] by simp
  ultimately show ?case using Cons by simp
qed simp

lemma PutUint_Uint:
  "2 \<le> length bs \<Longrightarrow> PutUint16 (Uint16 bs) = take 2 bs"
  "4 \<le> length bs \<Longrightarrow> PutUint32 (Uint32 bs) = take 4 bs"
  "8 \<le> length bs \<Longrightarrow> PutUint64 (Uint64 bs) = take 8 bs"
proof -
  have *: "put_le n (get_le (take n bs)) = take n bs" if "n \<le> length bs" for n
    using put_get_le [of "take n bs"] that by simp
  have less: "get_le (take n bs) < 256 ^ n" if "n \<le> length bs" for n
    using get_le_less [of "take n bs"] that by simp
  show "2 \<le> length bs \<Longrightarrow> PutUint16 (Uint16 bs) = take 2 bs"
    using * [of 2] less [of 2] by (simp add: PutUint16_def Uint16_def unat_of_nat)
  show "4 \<le> length bs \<Longrightarrow> PutUint32 (Uint32 bs) = take 4 bs"
    using * [of 4] less [of 4] by (simp add: PutUint32_def Uint32_def unat_of_nat)
  show "8 \<le> length bs \<Longrightarrow> PutUint64 (Uint64 bs) = take 8 bs"
    using * [of 8] less [of 8] by (simp add: PutUint64_def Uint64_def unat_of_nat)
qed

end
