(* ===== verification/Guest_RAM.thy ===== *)
theory Guest_RAM
  imports Gantry_Prelude
begin

text \<open>
  Guest physical memory as the virtio devices see it: \<open>RAM\<close> of
  \<open>internal/virtio/virtio.go\<close>. One host allocation appears to the guest as one region or,
  on x86 guests above the platform hole, as two. \<open>rangeOff\<close> translates a guest range into
  an offset of the allocation; \<open>readAt\<close> and \<open>writeAt\<close> are the only accesses devices make.
\<close>

record ramRegion =
  guestBase :: u64
  hostBase :: u64
  region_size :: u64

record RAM =
  ram :: bytes
  regions :: "ramRegion list"
  highDeferred :: bool
  highEnabled :: bool

datatype mem_error = OutsideRAM | SlicePanic

definition NewRAM :: "bytes \<Rightarrow> u64 \<Rightarrow> RAM" where
  "NewRAM mem base = \<lparr>ram = mem,
     regions = [\<lparr>guestBase = base, hostBase = 0, region_size = of_nat (length mem)\<rparr>],
     highDeferred = False, highEnabled = False\<rparr>"

definition NewSplitRAM :: "bytes \<Rightarrow> u64 \<Rightarrow> u64 \<Rightarrow> RAM" where
  "NewSplitRAM mem lowSize highBase =
     (if of_nat (length mem) \<le> lowSize then NewRAM mem 0
      else \<lparr>ram = mem,
        regions = [\<lparr>guestBase = 0, hostBase = 0, region_size = lowSize\<rparr>,
                   \<lparr>guestBase = highBase, hostBase = lowSize,
                    region_size = of_nat (length mem) - lowSize\<rparr>],
        highDeferred = False, highEnabled = False\<rparr>)"

definition DeferHighRegion :: "RAM \<Rightarrow> RAM" where
  "DeferHighRegion m =
     (if length (regions m) > 1 then m\<lparr>highDeferred := True, highEnabled := False\<rparr> else m)"

definition EnableHighRegion :: "RAM \<Rightarrow> RAM" where
  "EnableHighRegion m = m\<lparr>highEnabled := True\<rparr>"

definition ram_size :: "RAM \<Rightarrow> u64" where
  "ram_size m = of_nat (length (ram m))"

text \<open>The loop of \<open>rangeOff\<close> over the regions from position \<open>index\<close> on.\<close>

fun rangeOff_loop :: "RAM \<Rightarrow> nat \<Rightarrow> ramRegion list \<Rightarrow> u64 \<Rightarrow> u64 \<Rightarrow> u64 option" where
  "rangeOff_loop m index [] addr n = None"
| "rangeOff_loop m index (region # rest) addr n =
     (if index > 0 \<and> highDeferred m \<and> \<not> highEnabled m then rangeOff_loop m (Suc index) rest addr n
      else if addr < guestBase region then rangeOff_loop m (Suc index) rest addr n
      else let regionOffset = addr - guestBase region in
        if regionOffset \<le> region_size region \<and> n \<le> region_size region - regionOffset
        then Some (hostBase region + regionOffset)
        else rangeOff_loop m (Suc index) rest addr n)"

definition rangeOff :: "RAM \<Rightarrow> u64 \<Rightarrow> u64 \<Rightarrow> u64 option" where
  "rangeOff m addr n = rangeOff_loop m 0 (regions m) addr n"

definition contains :: "RAM \<Rightarrow> u64 \<Rightarrow> u64 \<Rightarrow> bool" where
  "contains m addr n = (rangeOff m addr n \<noteq> None)"

text \<open>
  \<open>readAt m addr len\<close> returns the bytes copied into a buffer of length \<open>len\<close>. Slicing the
  allocation out of range would panic, which is the branch \<open>SlicePanic\<close>.
\<close>

definition readAt :: "RAM \<Rightarrow> u64 \<Rightarrow> nat \<Rightarrow> mem_error + bytes" where
  "readAt m addr len =
     (case rangeOff m addr (of_nat len) of
        None \<Rightarrow> Inl OutsideRAM
      | Some off \<Rightarrow> (case slice (unat off) len (ram m) of
            None \<Rightarrow> Inl SlicePanic | Some p \<Rightarrow> Inr p))"

definition writeAt :: "RAM \<Rightarrow> u64 \<Rightarrow> bytes \<Rightarrow> mem_error + RAM" where
  "writeAt m addr p =
     (case rangeOff m addr (of_nat (length p)) of
        None \<Rightarrow> Inl OutsideRAM
      | Some off \<Rightarrow>
          (if unat off + length p \<le> length (ram m)
           then Inr (m\<lparr>ram := splice (unat off) p (ram m)\<rparr>) else Inl SlicePanic))"

section \<open>Well-formed memories\<close>

text \<open>
  Every region lies inside the allocation, whose length is a Go slice length and so
  fits 63 bits.
\<close>

definition region_ok :: "nat \<Rightarrow> ramRegion \<Rightarrow> bool" where
  "region_ok len r \<longleftrightarrow> unat (hostBase r) + unat (region_size r) \<le> len"

definition ram_ok :: "RAM \<Rightarrow> bool" where
  "ram_ok m \<longleftrightarrow> length (ram m) < 2 ^ 63 \<and> list_all (region_ok (length (ram m))) (regions m)"

lemma ram_ok_NewRAM [wf_intros]: "length mem < 2 ^ 63 \<Longrightarrow> ram_ok (NewRAM mem base)"
  by (simp add: ram_ok_def NewRAM_def region_ok_def unat_of_nat)

lemma ram_ok_NewSplitRAM [wf_intros]:
  assumes "length mem < 2 ^ 63"
  shows "ram_ok (NewSplitRAM mem lowSize highBase)"
proof (cases "of_nat (length mem) \<le> lowSize")
  case True
  with assms show ?thesis by (simp add: NewSplitRAM_def ram_ok_NewRAM)
next
  case False
  have len: "unat (of_nat (length mem) :: u64) = length mem"
    using assms by (simp add: unat_of_nat)
  from False have "lowSize \<le> of_nat (length mem)" by simp
  then have "unat (of_nat (length mem) - lowSize) = length mem - unat lowSize"
    and "unat lowSize \<le> length mem"
    using len by (simp_all add: unat_diff_le word_le_nat_alt)
  with False assms show ?thesis
    by (simp add: NewSplitRAM_def ram_ok_def region_ok_def)
qed

lemma ram_ok_Defer [wf_intros]: "ram_ok m \<Longrightarrow> ram_ok (DeferHighRegion m)"
  by (simp add: ram_ok_def DeferHighRegion_def)

lemma ram_ok_Enable [wf_intros]: "ram_ok m \<Longrightarrow> ram_ok (EnableHighRegion m)"
  by (simp add: ram_ok_def EnableHighRegion_def)

lemma rangeOff_loop_bound:
  assumes "rangeOff_loop m index rs addr n = Some off"
    and "list_all (region_ok len) rs" and "len < 2 ^ 63"
  shows "unat off + unat n \<le> len"
  using assms
proof (induction m index rs addr n rule: rangeOff_loop.induct)
  case (1 m index addr n)
  then show ?case by simp
next
  case (2 m index region rest addr n)
  show ?case
  proof (cases "index > 0 \<and> highDeferred m \<and> \<not> highEnabled m \<or> addr < guestBase region \<or>
      \<not> (addr - guestBase region \<le> region_size region \<and>
         n \<le> region_size region - (addr - guestBase region))")
    case True
    with 2 show ?thesis by (auto simp: Let_def split: if_splits)
  next
    case False
    let ?d = "addr - guestBase region"
    from False 2 have off: "off = hostBase region + ?d"
      and d: "?d \<le> region_size region" and n: "n \<le> region_size region - ?d"
      and ok: "unat (hostBase region) + unat (region_size region) \<le> len"
      by (auto simp: Let_def region_ok_def)
    from d n have dn: "unat ?d + unat n \<le> unat (region_size region)"
      by (simp add: word_le_nat_alt unat_diff_le)
    then have "unat (hostBase region) + unat ?d < 2 ^ LENGTH(64)"
      using ok 2(6) by simp
    then have "unat off = unat (hostBase region) + unat ?d"
      unfolding off by (rule unat_add_no_wrap)
    with dn ok show ?thesis by simp
  qed
qed

lemma rangeOff_bound:
  assumes "ram_ok m" and "rangeOff m addr n = Some off"
  shows "unat off + unat n \<le> length (ram m)"
  using assms rangeOff_loop_bound [of m 0 "regions m" addr n off "length (ram m)"]
  by (simp add: ram_ok_def rangeOff_def)

section \<open>The contract of guest memory\<close>

text \<open>
  What the devices rely on: reads have the length asked for, a write is read back, a write
  leaves every range with disjoint backing bytes alone, and no access panics. The locale
  fixes the accesses and the translation \<open>off\<close> to backing bytes.
\<close>

definition disjoint_ranges :: "nat \<Rightarrow> nat \<Rightarrow> nat \<Rightarrow> nat \<Rightarrow> bool" where
  "disjoint_ranges a n b k \<longleftrightarrow> a + n \<le> b \<or> b + k \<le> a"

locale guest_memory =
  fixes rd :: "'m \<Rightarrow> u64 \<Rightarrow> nat \<Rightarrow> mem_error + bytes"
    and wr :: "'m \<Rightarrow> u64 \<Rightarrow> bytes \<Rightarrow> mem_error + 'm"
    and off :: "'m \<Rightarrow> u64 \<Rightarrow> nat \<Rightarrow> nat option"
    and invar :: "'m \<Rightarrow> bool"
  assumes rd_Inr: "invar m \<Longrightarrow> rd m a n = Inr p \<Longrightarrow> length p = n \<and> (n < 2 ^ 63 \<longrightarrow> off m a n \<noteq> None)"
    and rd_Inl: "invar m \<Longrightarrow> n < 2 ^ 63 \<Longrightarrow> rd m a n = Inl e \<Longrightarrow> e = OutsideRAM \<and> off m a n = None"
    and wr_Inr: "invar m \<Longrightarrow> length p < 2 ^ 63 \<Longrightarrow> wr m a p = Inr m' \<Longrightarrow>
      invar m' \<and> off m' = off m \<and> off m a (length p) \<noteq> None"
    and wr_Inl: "invar m \<Longrightarrow> length p < 2 ^ 63 \<Longrightarrow> wr m a p = Inl e \<Longrightarrow>
      e = OutsideRAM \<and> off m a (length p) = None"
    and rd_own_wr: "invar m \<Longrightarrow> length p < 2 ^ 63 \<Longrightarrow> wr m a p = Inr m' \<Longrightarrow>
      rd m' a (length p) = Inr p"
    and rd_frame: "invar m \<Longrightarrow> length p < 2 ^ 63 \<Longrightarrow> n < 2 ^ 63 \<Longrightarrow> wr m a p = Inr m' \<Longrightarrow>
      off m a (length p) = Some i \<Longrightarrow> off m b n = Some j \<Longrightarrow>
      disjoint_ranges i (length p) j n \<Longrightarrow> rd m' b n = rd m b n"
begin

text \<open>A list of writes, as the devices scatter a response over descriptors.\<close>

primrec wr_all :: "'m \<Rightarrow> (u64 \<times> bytes) list \<Rightarrow> mem_error + 'm" where
  "wr_all m [] = Inr m"
| "wr_all m (ap # aps) =
     (case wr m (fst ap) (snd ap) of Inl e \<Rightarrow> Inl e | Inr m' \<Rightarrow> wr_all m' aps)"

lemma wr_all_invar:
  "invar m \<Longrightarrow> \<forall>(a, p) \<in> set aps. length p < 2 ^ 63 \<Longrightarrow> wr_all m aps = Inr m' \<Longrightarrow>
    invar m' \<and> off m' = off m"
proof (induction aps arbitrary: m)
  case Nil
  then show ?case by simp
next
  case (Cons ap aps)
  then obtain m1 where m1: "wr m (fst ap) (snd ap) = Inr m1" "wr_all m1 aps = Inr m'"
    by (auto split: sum.splits)
  moreover have "length (snd ap) < 2 ^ 63"
    using Cons.prems(2) by (cases ap) auto
  ultimately have "invar m1 \<and> off m1 = off m"
    using Cons.prems(1) wr_Inr by blast
  with Cons.IH [of m1] Cons.prems m1 show ?case by simp
qed

lemma wr_all_frame:
  assumes "invar m" and "wr_all m aps = Inr m'" and "off m b n = Some j" and "n < 2 ^ 63"
    and "\<forall>(a, p) \<in> set aps. length p < 2 ^ 63 \<and>
      (\<forall>i. off m a (length p) = Some i \<longrightarrow> disjoint_ranges i (length p) j n)"
  shows "rd m' b n = rd m b n"
  using assms
proof (induction aps arbitrary: m)
  case Nil
  then show ?case by simp
next
  case (Cons ap aps)
  obtain a p where ap: "ap = (a, p)" by (cases ap)
  from Cons.prems(2) ap obtain m1 where m1: "wr m a p = Inr m1"
    and rest: "wr_all m1 aps = Inr m'"
    by (auto split: sum.splits)
  have len: "length p < 2 ^ 63" using Cons.prems(5) ap by auto
  have inv1: "invar m1 \<and> off m1 = off m \<and> off m a (length p) \<noteq> None"
    using wr_Inr [OF Cons.prems(1) len m1] .
  then obtain i where i: "off m a (length p) = Some i" by blast
  have "disjoint_ranges i (length p) j n"
    using Cons.prems(5) i ap by auto
  then have "rd m1 b n = rd m b n"
    using rd_frame [OF Cons.prems(1) len Cons.prems(4) m1 i Cons.prems(3)] by simp
  moreover have "rd m' b n = rd m1 b n"
    using Cons.IH [of m1] rest inv1 Cons.prems(3-5) by auto
  ultimately show ?case by simp
qed

end

text \<open>The translation of the model, on lengths a Go slice can have.\<close>

definition host_off :: "RAM \<Rightarrow> u64 \<Rightarrow> nat \<Rightarrow> nat option" where
  "host_off m a n = map_option unat (rangeOff m a (of_nat n))"

lemma host_off_bound:
  "ram_ok m \<Longrightarrow> n < 2 ^ 63 \<Longrightarrow> host_off m a n = Some i \<Longrightarrow> i + n \<le> length (ram m)"
  using rangeOff_bound [of m a "of_nat n"] by (auto simp: host_off_def unat_of_nat)

lemma rangeOff_ram_update [simp]: "rangeOff (m\<lparr>ram := x\<rparr>) a n = rangeOff m a n"
proof -
  have "rangeOff_loop (m\<lparr>ram := x\<rparr>) i rs a n = rangeOff_loop m i rs a n" for i rs
    by (induction rs arbitrary: i) (auto simp: Let_def)
  then show ?thesis by (simp add: rangeOff_def)
qed

lemma rangeOff_shorter:
  assumes "rangeOff m a n \<noteq> None" and "k \<le> n"
  shows "rangeOff m a k \<noteq> None"
proof -
  have "rangeOff_loop m i rs a n \<noteq> None \<Longrightarrow> rangeOff_loop m i rs a k \<noteq> None" for i rs
    using assms(2) by (induction rs arbitrary: i) (auto simp: Let_def split: if_splits)
  with assms(1) show ?thesis by (simp add: rangeOff_def)
qed

lemma contains_shorter: "contains m a n \<Longrightarrow> k \<le> n \<Longrightarrow> contains m a k"
  using rangeOff_shorter [of m a n k] by (simp add: contains_def)

lemma writeAt_regions [frame_simps]:
  "writeAt m a p = Inr m' \<Longrightarrow> rangeOff m' = rangeOff m \<and> contains m' = contains m \<and>
    length (ram m') = length (ram m)"
  by (auto simp: writeAt_def contains_def fun_eq_iff split: option.splits if_splits)

lemma readAt_host_off:
  assumes "ram_ok m" and "n < 2 ^ 63"
  shows "readAt m a n = (case host_off m a n of
    None \<Rightarrow> Inl OutsideRAM | Some i \<Rightarrow> Inr (take n (drop i (ram m))))"
  using host_off_bound [OF assms, of a]
  by (auto simp: readAt_def host_off_def split: option.splits)

lemma writeAt_host_off:
  assumes "ram_ok m" and "length p < 2 ^ 63"
  shows "writeAt m a p = (case host_off m a (length p) of
    None \<Rightarrow> Inl OutsideRAM | Some i \<Rightarrow> Inr (m\<lparr>ram := splice i p (ram m)\<rparr>))"
  using host_off_bound [OF assms, of a]
  by (auto simp: writeAt_def host_off_def split: option.splits)

lemma writeAt_contains:
  assumes "ram_ok m" and "length p < 2 ^ 63" and "contains m a (of_nat (length p))"
  shows "\<exists>m'. writeAt m a p = Inr m'"
  using assms by (auto simp: writeAt_host_off host_off_def contains_def)

lemma readAt_contains:
  assumes "ram_ok m" and "n < 2 ^ 63" and "contains m a (of_nat n)"
  shows "\<exists>p. readAt m a n = Inr p"
  using assms by (auto simp: readAt_host_off host_off_def contains_def)

lemma ram_ok_splice [wf_intros]:
  "ram_ok m \<Longrightarrow> i + length p \<le> length (ram m) \<Longrightarrow> ram_ok (m\<lparr>ram := splice i p (ram m)\<rparr>)"
  by (simp add: ram_ok_def)

lemma host_off_ram_update [simp]: "host_off (m\<lparr>ram := x\<rparr>) a n = host_off m a n"
  by (simp add: host_off_def)

interpretation gmem: guest_memory readAt writeAt host_off ram_ok
proof (unfold_locales, goal_cases)
  case (1 m a n p)
  then have "length p = n"
    by (auto simp: readAt_def slice_def split: option.splits if_splits)
  moreover have "n < 2 ^ 63 \<Longrightarrow> host_off m a n \<noteq> None"
    using 1 by (auto simp: readAt_host_off split: option.splits)
  ultimately show ?case by blast
next
  case (2 m n a e)
  then show ?case by (auto simp: readAt_host_off split: option.splits)
next
  case (3 m p a m')
  then obtain i where i: "host_off m a (length p) = Some i"
    and m': "m' = m\<lparr>ram := splice i p (ram m)\<rparr>"
    by (auto simp: writeAt_host_off split: option.splits)
  have "ram_ok m'"
    unfolding m' using 3(1) host_off_bound [OF 3(1,2) i] by (rule ram_ok_splice)
  then show ?case using i m' by (auto simp: fun_eq_iff)
next
  case (4 m p a e)
  then show ?case by (auto simp: writeAt_host_off split: option.splits)
next
  case (5 m p a m')
  then obtain i where i: "host_off m a (length p) = Some i"
    and m': "m' = m\<lparr>ram := splice i p (ram m)\<rparr>"
    by (auto simp: writeAt_host_off split: option.splits)
  have bound: "i + length p \<le> length (ram m)" by (rule host_off_bound [OF 5(1,2) i])
  have "ram_ok m'" unfolding m' using 5(1) bound by (rule ram_ok_splice)
  with 5(2) i m' bound slice_splice_same [OF bound] show ?case
    by (simp add: readAt_host_off slice_def)
next
  case (6 m p n a m' i b j)
  then have m': "m' = m\<lparr>ram := splice i p (ram m)\<rparr>"
    by (auto simp: writeAt_host_off)
  have bound: "i + length p \<le> length (ram m)" by (rule host_off_bound [OF 6(1,2,5)])
  have bj: "j + n \<le> length (ram m)" by (rule host_off_bound [OF 6(1,3,6)])
  have "slice j n (splice i p (ram m)) = slice j n (ram m)"
    using 6(7) by (intro slice_splice_disjoint bound) (auto simp: disjoint_ranges_def)
  moreover have "ram_ok m'" unfolding m' using 6(1) bound by (rule ram_ok_splice)
  ultimately show ?case
    using 6 m' bj bound by (simp add: readAt_host_off slice_def)
qed

section \<open>Properties of guest memory\<close>

text \<open>C6. No guest access panics: on a well-formed memory, whatever the address and however long
  the buffer (up to the largest slice length), \<open>readAt\<close> and \<open>writeAt\<close> either succeed or answer
  ``outside RAM'', exactly when \<open>contains\<close> says so, and a write keeps the memory well-formed.\<close>

theorem ram_access_total:
  assumes "ram_ok m" and "n < 2 ^ 63" and "length p < 2 ^ 63"
  shows "(if contains m a (of_nat n) then \<exists>q. readAt m a n = Inr q \<and> length q = n
      else readAt m a n = Inl OutsideRAM) \<and>
    (if contains m a (of_nat (length p)) then \<exists>m'. writeAt m a p = Inr m' \<and> ram_ok m'
      else writeAt m a p = Inl OutsideRAM)"
proof (intro conjI)
  show "if contains m a (of_nat n) then \<exists>q. readAt m a n = Inr q \<and> length q = n
      else readAt m a n = Inl OutsideRAM"
    using readAt_contains [OF assms(1,2), of a] gmem.rd_Inr [OF assms(1)]
    by (auto simp: readAt_def contains_def)
  show "if contains m a (of_nat (length p)) then \<exists>m'. writeAt m a p = Inr m' \<and> ram_ok m'
      else writeAt m a p = Inl OutsideRAM"
    using writeAt_contains [OF assms(1,3), of a] gmem.wr_Inr [OF assms(1,3)]
    by (auto simp: writeAt_def contains_def)
qed

theorem ram_access_total_witness:
  "contains (NewRAM [1, 2, 3, 4] 0x1000) 0x1001 2 \<and>
   (\<exists>q. readAt (NewRAM [1, 2, 3, 4] 0x1000) 0x1001 2 = Inr q \<and> length q = 2) \<and>
   (\<exists>m'. writeAt (NewRAM [1, 2, 3, 4] 0x1000) 0x1001 [9, 9] = Inr m' \<and> ram_ok m')"
proof -
  have "contains (NewRAM [1, 2, 3, 4] 0x1000) 0x1001 2"
    by (simp add: contains_def rangeOff_def NewRAM_def)
  then show ?thesis
    using ram_access_total [of "NewRAM [1, 2, 3, 4] 0x1000" 2 "[9, 9]" "0x1001"]
    by (simp add: ram_ok_NewRAM)
qed

text \<open>C30. Guest memory is a store: after \<open>writeAt\<close> the range reads back what was written, and
  every range whose backing bytes are disjoint from it reads what it read before.\<close>

theorem ram_write_read_frame:
  assumes "ram_ok m" and "length p < 2 ^ 63" and "n < 2 ^ 63" and "writeAt m a p = Inr m'"
  shows "readAt m' a (length p) = Inr p \<and>
    (\<forall>i j. host_off m a (length p) = Some i \<longrightarrow> host_off m b n = Some j \<longrightarrow>
      disjoint_ranges i (length p) j n \<longrightarrow> readAt m' b n = readAt m b n)"
  using gmem.rd_own_wr [OF assms(1,2,4)] gmem.rd_frame [OF assms(1,2,3,4)] by blast

theorem ram_write_read_frame_witness:
  "readAt (NewRAM [1, 9, 9, 4] 0x1000) 0x1001 (length [9, 9 :: byte]) = Inr [9, 9] \<and>
   readAt (NewRAM [1, 9, 9, 4] 0x1000) 0x1003 1 = readAt (NewRAM [1, 2, 3, 4] 0x1000) 0x1003 1"
proof -
  have w: "writeAt (NewRAM [1, 2, 3, 4] 0x1000) 0x1001 [9, 9] = Inr (NewRAM [1, 9, 9, 4] 0x1000)"
    by (simp add: writeAt_def rangeOff_def NewRAM_def splice_def)
  have "host_off (NewRAM [1, 2, 3, 4] 0x1000) 0x1001 (Suc (Suc 0)) = Some 1"
      "host_off (NewRAM [1, 2, 3, 4] 0x1000) 0x1003 1 = Some 3"
    by (simp_all add: host_off_def rangeOff_def NewRAM_def)
  then show ?thesis
    using ram_write_read_frame [OF _ _ _ w, of 1 "0x1003"]
    by (simp add: ram_ok_NewRAM disjoint_ranges_def)
qed

text \<open>A range inside a region, without wrap-around.\<close>

lemma region_range:
  fixes a b n s :: u64
  shows "(b \<le> a \<and> a - b \<le> s \<and> n \<le> s - (a - b)) \<longleftrightarrow>
    unat b \<le> unat a \<and> unat a - unat b + unat n \<le> unat s"
proof (cases "b \<le> a")
  case True
  then have d: "unat (a - b) = unat a - unat b" by (rule unat_diff_le)
  show ?thesis
  proof (cases "a - b \<le> s")
    case le: True
    then have "unat (s - (a - b)) = unat s - (unat a - unat b)" using d by (simp add: unat_diff_le)
    with True le d show ?thesis by (auto simp: word_le_nat_alt)
  qed (use True d in \<open>auto simp: word_le_nat_alt\<close>)
qed (simp add: word_le_nat_alt)

text \<open>The guest address map of a split memory: \<open>[0, lowSize)\<close> is backed by the start of the
  allocation and \<open>[highBase, ...)\<close> by the rest; no range crosses between them. Until
  \<open>EnableHighRegion\<close>, a deferred high region is not addressable at all.\<close>

theorem split_ram_address_map:
  assumes "length mem < 2 ^ 63" and "unat lowSize < length mem"
  shows "rangeOff (NewSplitRAM mem lowSize highBase) a n =
      (if unat a + unat n \<le> unat lowSize then Some a
       else if unat highBase \<le> unat a \<and> unat a - unat highBase + unat n \<le> length mem - unat lowSize
       then Some (lowSize + (a - highBase)) else None) \<and>
    rangeOff (DeferHighRegion (NewSplitRAM mem lowSize highBase)) a n =
      (if unat a + unat n \<le> unat lowSize then Some a else None) \<and>
    rangeOff (EnableHighRegion (DeferHighRegion (NewSplitRAM mem lowSize highBase))) a n =
      rangeOff (NewSplitRAM mem lowSize highBase) a n"
proof -
  have len: "unat (of_nat (length mem) :: u64) = length mem"
    using assms(1) by (simp add: unat_of_nat)
  then have split: "\<not> (of_nat (length mem) \<le> lowSize)" using assms(2) by (simp add: word_le_nat_alt)
  have sz: "unat (of_nat (length mem) - lowSize) = length mem - unat lowSize"
    using len split by (simp add: unat_diff_le)
  let ?low = "a \<le> lowSize \<and> n \<le> lowSize - a"
  let ?high = "highBase \<le> a \<and> a - highBase \<le> of_nat (length mem) - lowSize \<and>
      n \<le> of_nat (length mem) - lowSize - (a - highBase)"
  have "?low = (unat a + unat n \<le> unat lowSize)"
    using region_range [of 0 a lowSize n] by simp
  moreover have "?high = (unat highBase \<le> unat a \<and> unat a - unat highBase + unat n \<le> length mem - unat lowSize)"
    using region_range [of highBase a "of_nat (length mem) - lowSize" n] sz by simp
  moreover have "rangeOff (NewSplitRAM mem lowSize highBase) a n =
      (if ?low then Some a else if ?high then Some (lowSize + (a - highBase)) else None)"
    using split by (auto simp: NewSplitRAM_def rangeOff_def Let_def not_less)
  moreover have "rangeOff (DeferHighRegion (NewSplitRAM mem lowSize highBase)) a n =
      (if ?low then Some a else None)"
    using split by (simp add: NewSplitRAM_def DeferHighRegion_def rangeOff_def Let_def)
  moreover have "rangeOff (EnableHighRegion (DeferHighRegion (NewSplitRAM mem lowSize highBase))) a n =
      rangeOff (NewSplitRAM mem lowSize highBase) a n"
    using split by (simp add: NewSplitRAM_def DeferHighRegion_def EnableHighRegion_def rangeOff_def Let_def)
  ultimately show ?thesis by (simp only: simp_thms)
qed

theorem split_ram_address_map_witness:
  "rangeOff (NewSplitRAM [1, 2, 3, 4] 2 0x1000) 0x1001 1 = Some 3 \<and>
   rangeOff (DeferHighRegion (NewSplitRAM [1, 2, 3, 4] 2 0x1000)) 0x1001 1 = None"
  using split_ram_address_map [of "[1, 2, 3, 4]" 2 "0x1000" "0x1001" 1] by simp

end
