(* ===== verification/Virtqueue.thy ===== *)
theory Virtqueue
  imports Guest_RAM
begin

text \<open>
  The virtio-mmio transport core and its split virtqueues, \<open>Core\<close>, \<open>virtq\<close> and \<open>desc\<close>
  of \<open>internal/virtio/virtio.go\<close>. The calls of the interrupt callback \<open>irqLine\<close> are
  recorded in \<open>irqTrace\<close>; the scratch arrays \<open>chain\<close> and \<open>readStorage\<close> are allocation
  caches and are not part of the state. A queue pointer \<open>&c.queues[qn]\<close> is the index
  \<open>qn\<close>.
\<close>

section \<open>State\<close>

record virtq =
  ready :: bool
  num :: u32
  descAddr :: u64
  availAddr :: u64
  usedAddr :: u64
  lastAvail :: u16

record desc =
  d_addr :: u64
  d_len :: u32
  d_flags :: u16
  d_next :: u16

record Core =
  mem :: RAM
  irq :: int
  base :: u64
  featureSel :: u32
  driverFeat :: u64
  driverSel :: u32
  queueSel :: nat
  queues :: "virtq list"
  status :: u32
  isr :: u32
  gen :: u32
  irqTrace :: "(int \<times> bool) list"

definition vringDescFNext :: u16 where "vringDescFNext = 1"
definition vringDescFWrite :: u16 where "vringDescFWrite = 2"
definition vringDescFIndirect :: u16 where "vringDescFIndirect = 4"
definition virtqSize :: u32 where "virtqSize = 128"
definition virtqMaxChainDescriptors :: nat where "virtqMaxChainDescriptors = 65"
definition virtioIntUsedBuffer :: u32 where "virtioIntUsedBuffer = 1"
definition virtioIntConfig :: u32 where "virtioIntConfig = 2"
definition vringAvailFNoInterrupt :: byte where "vringAvailFNoInterrupt = 1"

lemmas vring_consts = vringDescFNext_def vringDescFWrite_def vringDescFIndirect_def
  virtqSize_def virtqMaxChainDescriptors_def virtioIntUsedBuffer_def virtioIntConfig_def
  vringAvailFNoInterrupt_def

definition zero_virtq :: virtq where
  "zero_virtq = \<lparr>ready = False, num = 0, descAddr = 0, availAddr = 0, usedAddr = 0, lastAvail = 0\<rparr>"

definition numValid :: "virtq \<Rightarrow> bool" where
  "numValid q \<longleftrightarrow> num q \<ge> 1 \<and> num q \<le> virtqSize \<and> num q AND (num q - 1) = 0"

section \<open>Descriptor chains\<close>

datatype vq_error = DescIndex | DescMem mem_error | DescOutsideRAM | ChainOverflow

definition descAt :: "RAM \<Rightarrow> virtq \<Rightarrow> u16 \<Rightarrow> vq_error + desc" where
  "descAt m q i =
     (if ucast i \<ge> num q then Inl DescIndex
      else case readAt m (descAddr q + ucast i * 16) 16 of
        Inl e \<Rightarrow> Inl (DescMem e)
      | Inr buf \<Rightarrow>
          (let d = \<lparr>d_addr = Uint64 buf, d_len = Uint32 (drop 8 buf),
                    d_flags = Uint16 (drop 12 buf), d_next = Uint16 (drop 14 buf)\<rparr> in
           if \<not> contains m (d_addr d) (ucast (d_len d)) then Inl DescOutsideRAM else Inr d))"

text \<open>
  The byte cap of one chain: the device's protocol limit, else all of guest RAM. A device
  that does not implement \<open>chainLimiter\<close> has \<open>None\<close>.
\<close>

definition chainLimit :: "(nat \<Rightarrow> u64) option \<Rightarrow> RAM \<Rightarrow> nat \<Rightarrow> u64" where
  "chainLimit limiter m qn =
     (case limiter of Some cl \<Rightarrow> if cl qn > 0 then cl qn else ram_size m
      | None \<Rightarrow> ram_size m)"

text \<open>The loop of \<open>availChain\<close>: \<open>chain\<close> and \<open>acc\<close> so far, \<open>d\<close> the current descriptor.\<close>

function chain_walk ::
  "RAM \<Rightarrow> virtq \<Rightarrow> u64 \<Rightarrow> desc list \<Rightarrow> u64 \<Rightarrow> desc \<Rightarrow> desc list option" where
  "chain_walk m q limit chain acc d =
     (if length chain \<ge> unat (num q) \<or> length chain \<ge> virtqMaxChainDescriptors then None
      else if d_flags d AND vringDescFIndirect \<noteq> 0 then None
      else let chain' = chain @ [d]; acc' = acc + ucast (d_len d) in
        if acc' > limit then None
        else if d_flags d AND vringDescFNext = 0 then Some chain'
        else case descAt m q (d_next d) of
            Inl e \<Rightarrow> None
          | Inr d' \<Rightarrow> chain_walk m q limit chain' acc' d')"
  by pat_completeness auto
termination
  by (relation "measure (\<lambda>(m, q, limit, chain, acc, d). virtqMaxChainDescriptors - length chain)") auto

declare chain_walk.simps [simp del]

definition availChain :: "u64 \<Rightarrow> nat \<Rightarrow> Core \<Rightarrow> Core \<times> (u16 \<times> desc list) option" where
  "availChain limit qn c =
     (if qn \<ge> length (queues c) then (c, None)
      else let q = queues c ! qn in
      if \<not> numValid q then (c, None)
      else case readAt (mem c) (availAddr q) 2 of Inl _ \<Rightarrow> (c, None) | Inr _ \<Rightarrow>
      (case readAt (mem c) (availAddr q + 2) 2 of Inl _ \<Rightarrow> (c, None) | Inr buf \<Rightarrow>
      (let availIdx = Uint16 buf in
       if availIdx = lastAvail q then (c, None)
       else if availIdx - lastAvail q > ucast (num q) then (c, None)
       else case readAt (mem c)
              (availAddr q + 4 + ucast (lastAvail q mod ucast (num q)) * 2) 2 of
         Inl _ \<Rightarrow> (c, None)
       | Inr headBuf \<Rightarrow>
           (let head = Uint16 headBuf;
                q' = q\<lparr>lastAvail := lastAvail q + 1\<rparr>;
                c' = c\<lparr>queues := (queues c)[qn := q']\<rparr> in
            case descAt (mem c') q' head of
              Inl _ \<Rightarrow> (c', None)
            | Inr d \<Rightarrow> (case chain_walk (mem c') q' limit [] 0 d of
                  None \<Rightarrow> (c', None)
                | Some chain \<Rightarrow> (c', Some (head, chain)))))))"

fun splitChain_at :: "desc list \<Rightarrow> desc list \<Rightarrow> desc list \<times> desc list" where
  "splitChain_at out [] = (out, [])"
| "splitChain_at out (d # ds) =
     (if d_flags d AND vringDescFWrite \<noteq> 0 then (out, d # ds) else splitChain_at (out @ [d]) ds)"

definition splitChain :: "desc list \<Rightarrow> desc list \<times> desc list" where
  "splitChain chain = splitChain_at [] chain"

text \<open>\<open>readChains\<close> first sums the lengths as \<open>uint64\<close>, refusing what overflows an \<open>int\<close>.\<close>

fun chain_total :: "u64 \<Rightarrow> desc list \<Rightarrow> u64 option" where
  "chain_total acc [] = Some acc"
| "chain_total acc (d # ds) =
     (let acc' = acc + ucast (d_len d) in
      if acc' > 0x7fffffffffffffff then None else chain_total acc' ds)"

fun read_descs :: "RAM \<Rightarrow> desc list \<Rightarrow> mem_error + bytes" where
  "read_descs m [] = Inr []"
| "read_descs m (d # ds) =
     (case readAt m (d_addr d) (unat (d_len d)) of
        Inl e \<Rightarrow> Inl e
      | Inr p \<Rightarrow> (case read_descs m ds of Inl e \<Rightarrow> Inl e | Inr ps \<Rightarrow> Inr (p @ ps)))"

definition readChains :: "RAM \<Rightarrow> desc list \<Rightarrow> vq_error + bytes" where
  "readChains m ds =
     (case chain_total 0 ds of
        None \<Rightarrow> Inl ChainOverflow
      | Some _ \<Rightarrow> (case read_descs m ds of Inl e \<Rightarrow> Inl (DescMem e) | Inr p \<Rightarrow> Inr p))"

text \<open>
  \<open>writeChains\<close> from \<open>n\<close> bytes on: the memory and count it ends with, and the error of a
  failed write if there was one. Earlier writes stay.
\<close>

fun writeChains_from :: "RAM \<Rightarrow> desc list \<Rightarrow> bytes \<Rightarrow> u32 \<Rightarrow> RAM \<times> u32 \<times> mem_error option" where
  "writeChains_from m [] data n = (m, n, None)"
| "writeChains_from m (d # ds) data n =
     (if n \<ge> of_nat (length data) then (m, n, None)
      else let rest = drop (unat n) data;
               chunk = (if of_nat (length rest) > d_len d then take (unat (d_len d)) rest else rest) in
        case writeAt m (d_addr d) chunk of
          Inl e \<Rightarrow> (m, n, Some e)
        | Inr m' \<Rightarrow> writeChains_from m' ds data (n + of_nat (length chunk)))"

definition writeChains :: "desc list \<Rightarrow> bytes \<Rightarrow> Core \<Rightarrow> Core \<times> u32 \<times> mem_error option" where
  "writeChains ds data c =
     (let (m, n, e) = writeChains_from (mem c) ds data 0 in (c\<lparr>mem := m\<rparr>, n, e))"

section \<open>Completions and interrupts\<close>

definition raiseIRQ :: "u32 \<Rightarrow> Core \<Rightarrow> Core" where
  "raiseIRQ b c = c\<lparr>isr := isr c OR b, irqTrace := irqTrace c @ [(irq c, True)]\<rparr>"

definition interruptSuppressed :: "Core \<Rightarrow> virtq \<Rightarrow> bool" where
  "interruptSuppressed c q =
     (case readAt (mem c) (availAddr q) 2 of
        Inl _ \<Rightarrow> False
      | Inr flags \<Rightarrow> flags ! 0 AND vringAvailFNoInterrupt \<noteq> 0)"

definition pushUsed :: "nat \<Rightarrow> u16 \<Rightarrow> u32 \<Rightarrow> Core \<Rightarrow> Core" where
  "pushUsed qn head written c =
     (let q = queues c ! qn in
      if \<not> numValid q then c
      else case readAt (mem c) (usedAddr q + 2) 2 of Inl _ \<Rightarrow> c | Inr usedIdxBuf \<Rightarrow>
      (let usedIdx = Uint16 usedIdxBuf;
           elem = PutUint32 (ucast head) @ PutUint32 written in
       case writeAt (mem c) (usedAddr q + 4 + ucast (usedIdx mod ucast (num q)) * 8) elem of
         Inl _ \<Rightarrow> c
       | Inr m1 \<Rightarrow>
           (case writeAt m1 (usedAddr q + 2) (PutUint16 (usedIdx + 1)) of
              Inl _ \<Rightarrow> c\<lparr>mem := m1\<rparr>
            | Inr m2 \<Rightarrow>
                (let c2 = c\<lparr>mem := m2\<rparr> in
                 if interruptSuppressed c2 q then c2 else raiseIRQ virtioIntUsedBuffer c2))))"

definition RaiseExternalUsedInterrupt :: "Core \<Rightarrow> Core" where
  "RaiseExternalUsedInterrupt c = raiseIRQ virtioIntUsedBuffer c"

section \<open>Queue sizes\<close>

lemma numValid_bounds:
  assumes "numValid q"
  shows "1 \<le> unat (num q)" and "unat (num q) \<le> 128"
  using assms by (simp_all add: numValid_def virtqSize_def word_le_nat_alt)

lemma numValid_u16:
  assumes "numValid q"
  shows "unat (ucast (num q) :: u16) = unat (num q)"
  using numValid_bounds [OF assms] by (simp add: unat_ucast_mod)

lemma numValid_u16_nonzero: "numValid q \<Longrightarrow> (ucast (num q) :: u16) \<noteq> 0"
  using numValid_u16 [of q] numValid_bounds [of q] by (metis One_nat_def not_one_le_zero unsigned_0)

section \<open>Descriptor chains\<close>

text \<open>The bytes a chain declares, without the wrap-around of the machine's sum.\<close>

definition desc_bytes :: "desc list \<Rightarrow> nat" where
  "desc_bytes ds = (\<Sum>d\<leftarrow>ds. unat (d_len d))"

lemma desc_bytes_simps [simp]:
  "desc_bytes [] = 0" "desc_bytes (d # ds) = unat (d_len d) + desc_bytes ds"
  "desc_bytes (xs @ ys) = desc_bytes xs + desc_bytes ys"
  by (simp_all add: desc_bytes_def)

lemma desc_bytes_le: "desc_bytes ds \<le> length ds * (2 ^ 32 - 1)"
proof (induction ds)
  case Nil
  show ?case by simp
next
  case (Cons d ds)
  have "unat (d_len d) \<le> 2 ^ 32 - 1"
    using unat_less_2p [of "d_len d"] by simp
  with Cons show ?case by simp
qed

text \<open>A descriptor the device may use: inside guest RAM and not an indirect table.\<close>

definition desc_ok :: "RAM \<Rightarrow> desc \<Rightarrow> bool" where
  "desc_ok m d \<longleftrightarrow> contains m (d_addr d) (ucast (d_len d)) \<and> d_flags d AND vringDescFIndirect = 0"

definition has_next :: "desc \<Rightarrow> bool" where
  "has_next d \<longleftrightarrow> d_flags d AND vringDescFNext \<noteq> 0"

lemma descAt_Inr:
  "descAt m q i = Inr d \<Longrightarrow> contains m (d_addr d) (ucast (d_len d)) \<and> unat i < unat (num q)"
  by (auto simp: descAt_def Let_def word_le_nat_alt
      split: sum.splits if_splits)

text \<open>
  What the walk guarantees of the chain it returns, given the same of what it starts from.
\<close>

lemma chain_walk_Some:
  assumes "chain_walk m q limit chain acc d = Some r"
    and "length chain \<le> virtqMaxChainDescriptors" and "unat acc = desc_bytes chain"
    and "contains m (d_addr d) (ucast (d_len d))"
  shows "\<exists>ds e. r = chain @ ds @ [e] \<and> \<not> has_next e \<and> (\<forall>x \<in> set ds. has_next x) \<and>
    (\<forall>x \<in> set (ds @ [e]). desc_ok m x) \<and> length r \<le> unat (num q) \<and>
    length r \<le> virtqMaxChainDescriptors \<and> desc_bytes r \<le> unat limit"
  using assms
proof (induction m q limit chain acc d rule: chain_walk.induct)
  case (1 m q limit chain acc d)
  define acc' where "acc' = acc + ucast (d_len d)"
  note unf = chain_walk.simps [of m q limit chain acc d]
  from "1.prems"(1) have short: "length chain < unat (num q)" "length chain < virtqMaxChainDescriptors"
    and flag: "d_flags d AND vringDescFIndirect = 0" and le: "acc' \<le> limit"
    by (auto simp: unf Let_def acc'_def split: if_splits)
  have ok: "desc_ok m d" using flag "1.prems"(4) by (simp add: desc_ok_def)
  have "unat acc + unat (d_len d) < 2 ^ LENGTH(64)"
  proof -
    have "desc_bytes chain \<le> 65 * (2 ^ 32 - 1)"
      using desc_bytes_le [of chain] short(2) by (simp add: virtqMaxChainDescriptors_def)
    then show ?thesis using "1.prems"(3) unat_less_2p [of "d_len d"] by simp
  qed
  then have "unat acc + unat (ucast (d_len d) :: u64) < 2 ^ LENGTH(64)"
    by simp
  then have sum: "unat acc' = desc_bytes (chain @ [d])"
    unfolding acc'_def using "1.prems"(3)
    by (simp add: unat_add_no_wrap)
  show ?case
  proof (cases "has_next d")
    case False
    with "1.prems"(1) short flag le have r: "r = chain @ [d]"
      by (auto simp: unf Let_def acc'_def has_next_def split: if_splits)
    have "desc_bytes r \<le> unat limit"
      using le sum r by (simp add: word_le_nat_alt)
    with r False ok short show ?thesis
      by (intro exI [of _ "[]"] exI [of _ d]) auto
  next
    case True
    with "1.prems"(1) short flag le obtain d' where d': "descAt m q (d_next d) = Inr d'"
      and rec: "chain_walk m q limit (chain @ [d]) acc' d' = Some r"
      by (auto simp: unf Let_def acc'_def has_next_def split: sum.splits if_splits)
    have "contains m (d_addr d') (ucast (d_len d'))" using descAt_Inr [OF d'] by simp
    moreover have "\<not> (unat (num q) \<le> length chain \<or> virtqMaxChainDescriptors \<le> length chain)"
      using short by simp
    moreover have "\<not> limit < acc'" using le by simp
    ultimately have "\<exists>ds e. r = (chain @ [d]) @ ds @ [e] \<and> \<not> has_next e \<and> (\<forall>x \<in> set ds. has_next x) \<and>
        (\<forall>x \<in> set (ds @ [e]). desc_ok m x) \<and> length r \<le> unat (num q) \<and>
        length r \<le> virtqMaxChainDescriptors \<and> desc_bytes r \<le> unat limit"
      using flag True d' rec sum short
      by (intro "1.IH" [of "chain @ [d]" acc' d']) (simp_all add: acc'_def has_next_def)
    then obtain ds e where "r = (chain @ [d]) @ ds @ [e]" "\<not> has_next e"
        "\<forall>x \<in> set ds. has_next x" "\<forall>x \<in> set (ds @ [e]). desc_ok m x" "length r \<le> unat (num q)"
        "length r \<le> virtqMaxChainDescriptors" "desc_bytes r \<le> unat limit"
      by blast
    with ok True show ?thesis
      by (intro exI [of _ "d # ds"] exI [of _ e]) auto
  qed
qed

text \<open>\<open>availChain\<close> changes one field: the consumer index of its queue.\<close>

definition bump_avail :: "nat \<Rightarrow> Core \<Rightarrow> Core" where
  "bump_avail qn c = c\<lparr>queues := (queues c)[qn := (queues c ! qn)\<lparr>lastAvail := lastAvail (queues c ! qn) + 1\<rparr>]\<rparr>"

lemma availChain_core:
  "fst (availChain limit qn c) = c \<or> (qn < length (queues c) \<and> fst (availChain limit qn c) = bump_avail qn c)"
  by (auto simp: availChain_def bump_avail_def Let_def split: sum.splits option.splits)

lemma availChain_Some:
  assumes "availChain limit qn c = (c', Some (head, chain))"
  shows "qn < length (queues c)" and "numValid (queues c ! qn)" and "c' = bump_avail qn c"
    and "\<exists>d q'. num q' = num (queues c ! qn) \<and> contains (mem c) (d_addr d) (ucast (d_len d)) \<and>
      chain_walk (mem c) q' limit [] 0 d = Some chain"
proof -
  let ?q = "queues c ! qn"
  let ?q' = "?q\<lparr>lastAvail := lastAvail ?q + 1\<rparr>"
  from assms show "qn < length (queues c)" and "numValid ?q" and "c' = bump_avail qn c"
    by (auto simp: availChain_def bump_avail_def Let_def split: if_splits sum.splits option.splits)
  from assms obtain d i where "descAt (mem c) ?q' i = Inr d"
      and "chain_walk (mem c) ?q' limit [] 0 d = Some chain"
    by (auto simp: availChain_def Let_def split: if_splits sum.splits option.splits)
  then show "\<exists>d q'. num q' = num ?q \<and> contains (mem c) (d_addr d) (ucast (d_len d)) \<and>
      chain_walk (mem c) q' limit [] 0 d = Some chain"
    by (intro exI [of _ d] exI [of _ ?q']) (auto dest: descAt_Inr)
qed

lemma splitChain_at_eq:
  "splitChain_at out ds = (out @ takeWhile (\<lambda>d. d_flags d AND vringDescFWrite = 0) ds,
     dropWhile (\<lambda>d. d_flags d AND vringDescFWrite = 0) ds)"
  by (induction out ds rule: splitChain_at.induct) auto

lemma splitChain_eq:
  "splitChain chain = (takeWhile (\<lambda>d. d_flags d AND vringDescFWrite = 0) chain,
     dropWhile (\<lambda>d. d_flags d AND vringDescFWrite = 0) chain)"
  by (simp add: splitChain_def splitChain_at_eq)

lemma splitChain_append: "splitChain chain = (out, inn) \<Longrightarrow> chain = out @ inn"
  by (auto simp: splitChain_eq)

text \<open>Scattering data over descriptors that lie in RAM fills them in order and never fails.\<close>

lemma writeChains_from_ok:
  assumes "ram_ok m" and "\<forall>d \<in> set ds. contains m (d_addr d) (ucast (d_len d))"
    and "length data < 2 ^ 32" and "unat n \<le> length data"
  shows "\<exists>m'. writeChains_from m ds data n =
      (m', of_nat (min (length data) (unat n + desc_bytes ds)), None) \<and> ram_ok m' \<and>
      rangeOff m' = rangeOff m"
  using assms
proof (induction ds arbitrary: m n)
  case Nil
  then show ?case by (simp add: min_absorb2)
next
  case (Cons d ds)
  have len: "unat (of_nat (length data) :: u32) = length data"
    using Cons.prems(3) by (simp add: unat_of_nat)
  show ?case
  proof (cases "n \<ge> of_nat (length data)")
    case True
    with Cons.prems(4) len have "unat n = length data" by (simp add: word_le_nat_alt)
    moreover from this have "n = of_nat (length data)" by (simp add: word_unat_eq_iff len)
    ultimately show ?thesis using True Cons.prems(1) by simp
  next
    case False
    define rest where "rest = drop (unat n) data"
    define chunk where "chunk = take (unat (d_len d)) rest"
    have unf: "writeChains_from m (d # ds) data n =
        (case writeAt m (d_addr d)
          (if of_nat (length rest) > d_len d then take (unat (d_len d)) rest else rest) of
           Inl e \<Rightarrow> (m, n, Some e)
         | Inr m' \<Rightarrow> writeChains_from m' ds data (n + of_nat (length
             (if of_nat (length rest) > d_len d then take (unat (d_len d)) rest else rest))))"
      using False by (simp only: writeChains_from.simps Let_def rest_def if_False)
    have rest: "length rest = length data - unat n" by (simp add: rest_def)
    have "unat (of_nat (length rest) :: u32) = length rest"
      using rest Cons.prems(3) by (simp add: unat_of_nat)
    then have chunk: "(if of_nat (length rest) > d_len d then take (unat (d_len d)) rest else rest) = chunk"
      by (simp add: chunk_def word_less_nat_alt not_less)
    have clen: "length chunk = min (length data - unat n) (unat (d_len d))"
      by (simp add: chunk_def rest)
    have small: "length chunk < 2 ^ 32" using clen Cons.prems(3) by simp
    have "(of_nat (length chunk) :: u64) \<le> ucast (d_len d)"
      using clen small by (simp add: word_le_nat_alt unat_of_nat)
    then have "contains m (d_addr d) (of_nat (length chunk))"
      using Cons.prems(2) contains_shorter [of m "d_addr d" "ucast (d_len d)"] by simp
    then obtain m1 where m1: "writeAt m (d_addr d) chunk = Inr m1"
      using writeAt_contains [OF Cons.prems(1), of chunk "d_addr d"] small by auto
    have ok1: "ram_ok m1" using gmem.wr_Inr [OF Cons.prems(1) _ m1] small by simp
    have n1: "unat (n + of_nat (length chunk)) = unat n + length chunk"
    proof -
      have "unat n + unat (of_nat (length chunk) :: u32) < 2 ^ LENGTH(32)"
        using clen small Cons.prems(3,4) by (simp add: unat_of_nat)
      then show ?thesis using small by (simp add: unat_add_no_wrap unat_of_nat)
    qed
    have regs: "rangeOff m1 = rangeOff m" "contains m1 = contains m"
      using writeAt_regions [OF m1] by simp_all
    have "unat (n + of_nat (length chunk)) \<le> length data"
      using n1 clen Cons.prems(4) by simp
    from Cons.IH [OF ok1 _ Cons.prems(3) this] Cons.prems(2)
    obtain m' where m': "writeChains_from m1 ds data (n + of_nat (length chunk)) =
        (m', of_nat (min (length data) (unat n + length chunk + desc_bytes ds)), None)"
      and ok': "ram_ok m'" and reg': "rangeOff m' = rangeOff m1"
      unfolding n1 by (auto simp: regs)
    have "min (length data) (unat n + length chunk + desc_bytes ds) =
        min (length data) (unat n + desc_bytes (d # ds))"
      using clen Cons.prems(4) by (auto simp: min_def split: if_splits)
    then have "writeChains_from m (d # ds) data n =
        (m', of_nat (min (length data) (unat n + desc_bytes (d # ds))), None)"
      unfolding unf chunk using m1 m' by simp
    then show ?thesis using ok' reg' regs by simp
  qed
qed

lemma writeAt_ram_ok:
  assumes "ram_ok m" and "writeAt m a p = Inr m'"
  shows "ram_ok m'"
proof -
  obtain i where "i + length p \<le> length (ram m)" and "m' = m\<lparr>ram := splice i p (ram m)\<rparr>"
    using assms(2) by (auto simp: writeAt_def split: option.splits if_splits)
  with assms(1) show ?thesis by (simp add: ram_ok_splice)
qed

lemma writeChains_mem:
  assumes "ram_ok m"
  shows "ram_ok (fst (writeChains_from m ds data n)) \<and>
    rangeOff (fst (writeChains_from m ds data n)) = rangeOff m"
  using assms
proof (induction ds arbitrary: m n)
  case Nil
  then show ?case by simp
next
  case (Cons d ds)
  define rest where "rest = drop (unat n) data"
  define chunk where
    "chunk = (if of_nat (length rest) > d_len d then take (unat (d_len d)) rest else rest)"
  have unf: "writeChains_from m (d # ds) data n =
      (if n \<ge> of_nat (length data) then (m, n, None)
       else case writeAt m (d_addr d) chunk of Inl e \<Rightarrow> (m, n, Some e)
         | Inr m' \<Rightarrow> writeChains_from m' ds data (n + of_nat (length chunk)))"
    by (simp only: writeChains_from.simps Let_def rest_def chunk_def)
  show ?case
  proof (cases "writeAt m (d_addr d) chunk")
    case (Inl e)
    with Cons.prems show ?thesis by (simp add: unf del: writeChains_from.simps)
  next
    case (Inr m1)
    have "ram_ok m1" using Cons.prems Inr by (rule writeAt_ram_ok)
    from Cons.IH [OF this] writeAt_regions [OF Inr] Inr Cons.prems show ?thesis
      by (simp add: unf del: writeChains_from.simps)
  qed
qed

section \<open>The transport invariant\<close>

text \<open>
  An armed queue has a usable size, the selected queue exists, and guest memory is
  well-formed. The interrupt bits and the guest-programmed addresses are unconstrained.
\<close>

definition queue_ok :: "virtq \<Rightarrow> bool" where
  "queue_ok q \<longleftrightarrow> (num q = 0 \<or> numValid q) \<and> (ready q \<longrightarrow> numValid q)"

definition core_ok :: "Core \<Rightarrow> bool" where
  "core_ok c \<longleftrightarrow> ram_ok (mem c) \<and> queueSel c < length (queues c) \<and> list_all queue_ok (queues c)"

lemma queue_ok_lastAvail [simp]: "queue_ok (q\<lparr>lastAvail := x\<rparr>) = queue_ok q"
  by (simp add: queue_ok_def numValid_def)

lemma list_all_update:
  "list_all P xs \<Longrightarrow> (i < length xs \<Longrightarrow> P x) \<Longrightarrow> list_all P (xs[i := x])"
  by (cases "i < length xs") (auto simp: list_all_length nth_list_update list_update_beyond)

lemma core_ok_bump [wf_intros]:
  assumes "core_ok c"
  shows "core_ok (bump_avail qn c)"
proof -
  let ?q = "queues c ! qn"
  have "list_all queue_ok ((queues c)[qn := ?q\<lparr>lastAvail := lastAvail ?q + 1\<rparr>])"
    using assms by (intro list_all_update) (auto simp: core_ok_def list_all_length)
  then show ?thesis using assms by (simp add: core_ok_def bump_avail_def)
qed

lemma core_ok_availChain [wf_intros]: "core_ok c \<Longrightarrow> core_ok (fst (availChain limit qn c))"
  using availChain_core [of limit qn c] core_ok_bump [of c qn] by auto

lemma core_ok_raiseIRQ [wf_intros]: "core_ok c \<Longrightarrow> core_ok (raiseIRQ b c)"
  by (simp add: core_ok_def raiseIRQ_def)

lemma core_ok_mem_update: "core_ok c \<Longrightarrow> ram_ok m \<Longrightarrow> core_ok (c\<lparr>mem := m\<rparr>)"
  by (simp add: core_ok_def)

lemma core_ok_writeChains [wf_intros]: "core_ok c \<Longrightarrow> core_ok (fst (writeChains ds data c))"
  using writeChains_mem [of "mem c" ds data 0]
  by (cases "writeChains_from (mem c) ds data 0") (simp add: writeChains_def core_ok_def)

text \<open>
  The shapes a completion can take: nothing happened, the element alone was written, or
  element and index were written, with or without the interrupt.
\<close>

lemma pushUsed_cases:
  obtains m where "pushUsed qn head written c = c\<lparr>mem := m\<rparr> \<or>
      pushUsed qn head written c = raiseIRQ virtioIntUsedBuffer (c\<lparr>mem := m\<rparr>)"
    and "rangeOff m = rangeOff (mem c)" and "ram_ok (mem c) \<Longrightarrow> ram_ok m"
proof -
  let ?q = "queues c ! qn"
  have self: "c = c\<lparr>mem := mem c\<rparr>" by simp
  show thesis
  proof (cases "numValid ?q")
    case False
    then show ?thesis using that [of "mem c"] by (simp add: pushUsed_def)
  next
    case True
    show ?thesis
    proof (cases "readAt (mem c) (usedAddr ?q + 2) 2")
      case (Inl e)
      with True show ?thesis using that [of "mem c"] by (simp add: pushUsed_def)
    next
      case (Inr buf)
      let ?idx = "Uint16 buf"
      let ?elem = "PutUint32 (ucast head) @ PutUint32 written"
      let ?slot = "usedAddr ?q + 4 + ucast (?idx mod ucast (num ?q)) * 8"
      show ?thesis
      proof (cases "writeAt (mem c) ?slot ?elem")
        case (Inl e)
        with True Inr show ?thesis using that [of "mem c"] by (simp add: pushUsed_def Let_def)
      next
        case m1: (Inr m1)
        have r1: "rangeOff m1 = rangeOff (mem c)" using writeAt_regions [OF m1] by simp
        have ok1: "ram_ok (mem c) \<Longrightarrow> ram_ok m1" using writeAt_ram_ok [OF _ m1] by simp
        show ?thesis
        proof (cases "writeAt m1 (usedAddr ?q + 2) (PutUint16 (?idx + 1))")
          case (Inl e)
          with True Inr m1 show ?thesis
            using that [of m1] r1 ok1 by (simp add: pushUsed_def Let_def)
        next
          case m2: (Inr m2)
          have "rangeOff m2 = rangeOff (mem c)" using writeAt_regions [OF m2] r1 by simp
          moreover have "ram_ok (mem c) \<Longrightarrow> ram_ok m2" using ok1 writeAt_ram_ok [OF _ m2] by simp
          ultimately show ?thesis
            using that [of m2] True Inr m1 m2 by (simp add: pushUsed_def Let_def)
        qed
      qed
    qed
  qed
qed

lemma core_ok_pushUsed [wf_intros]:
  assumes "core_ok c"
  shows "core_ok (pushUsed qn head written c)"
proof (rule pushUsed_cases [of qn head written c])
  fix m
  assume "pushUsed qn head written c = c\<lparr>mem := m\<rparr> \<or>
      pushUsed qn head written c = raiseIRQ virtioIntUsedBuffer (c\<lparr>mem := m\<rparr>)"
    and "ram_ok (mem c) \<Longrightarrow> ram_ok m"
  moreover from this(2) assms have "core_ok (c\<lparr>mem := m\<rparr>)"
    by (simp add: core_ok_def)
  ultimately show ?thesis using core_ok_raiseIRQ by auto
qed

text \<open>The programmed part of the queues and the registers: all but the consumer indices.\<close>

definition queue_config :: "virtq list \<Rightarrow> virtq list" where
  "queue_config qs = map (\<lambda>q. q\<lparr>lastAvail := 0\<rparr>) qs"

definition same_config :: "Core \<Rightarrow> Core \<Rightarrow> bool" where
  "same_config c c' \<longleftrightarrow> queue_config (queues c') = queue_config (queues c) \<and>
     rangeOff (mem c') = rangeOff (mem c) \<and> irq c' = irq c \<and> base c' = base c \<and>
     queueSel c' = queueSel c \<and> status c' = status c"

lemma same_config_refl [simp]: "same_config c c"
  by (simp add: same_config_def)

lemma same_config_trans [trans]: "same_config a b \<Longrightarrow> same_config b c \<Longrightarrow> same_config a c"
  by (simp add: same_config_def)

lemma same_config_length: "same_config c c' \<Longrightarrow> length (queues c') = length (queues c)"
  by (auto simp: same_config_def queue_config_def dest: map_eq_imp_length_eq)

lemma same_config_nth:
  assumes "same_config c c'" and "i < length (queues c)"
  shows "(queues c' ! i)\<lparr>lastAvail := 0\<rparr> = (queues c ! i)\<lparr>lastAvail := 0\<rparr>"
proof -
  have "queue_config (queues c') ! i = queue_config (queues c) ! i"
    using assms(1) by (simp add: same_config_def)
  then show ?thesis
    using assms same_config_length [OF assms(1)] by (simp add: queue_config_def)
qed

lemma same_config_bump: "same_config c (bump_avail qn c)"
proof -
  have "queue_config (queues (bump_avail qn c)) = queue_config (queues c)"
    by (cases "qn < length (queues c)")
      (auto simp: bump_avail_def queue_config_def list_update_beyond map_update
        intro!: nth_equalityI simp: nth_list_update)
  then show ?thesis by (simp add: same_config_def bump_avail_def)
qed

lemma same_config_availChain: "same_config c (fst (availChain limit qn c))"
  using availChain_core [of limit qn c] same_config_bump [of c qn] by auto

lemma same_config_mem: "rangeOff m = rangeOff (mem c) \<Longrightarrow> same_config c (c\<lparr>mem := m\<rparr>)"
  by (simp add: same_config_def)

lemma same_config_raiseIRQ: "same_config c (raiseIRQ b c)"
  by (simp add: same_config_def raiseIRQ_def)

lemma same_config_writeChains:
  "ram_ok (mem c) \<Longrightarrow> same_config c (fst (writeChains ds data c))"
  using writeChains_mem [of "mem c" ds data 0]
  by (cases "writeChains_from (mem c) ds data 0") (simp add: writeChains_def same_config_mem)

lemma same_config_pushUsed: "same_config c (pushUsed qn head written c)"
proof (rule pushUsed_cases [of qn head written c])
  fix m
  assume p: "pushUsed qn head written c = c\<lparr>mem := m\<rparr> \<or>
      pushUsed qn head written c = raiseIRQ virtioIntUsedBuffer (c\<lparr>mem := m\<rparr>)"
    and "rangeOff m = rangeOff (mem c)"
  from this(2) have "same_config c (c\<lparr>mem := m\<rparr>)" by (rule same_config_mem)
  with p show ?thesis
    using same_config_trans [OF _ same_config_raiseIRQ] by auto
qed

end
