(* ===== verification/Virtio_Transport.thy ===== *)
theory Virtio_Transport
  imports Virtqueue
begin

text \<open>
  The register interface of a virtio-mmio device: \<open>MMIORead\<close> and \<open>MMIOWrite\<close> of
  \<open>internal/virtio/virtio.go\<close> over the Go interface \<open>Device\<close>, which is a record of the
  operations a device supplies. A run-time panic of Go (an index or slice out of range, a
  division by zero, closing a closed channel) is \<open>Panics\<close>, in the transport as in the handler
  of a device; a queue handler that does not return is \<open>Diverges\<close>.
\<close>

datatype 'a outcome = Done 'a | Panics | Diverges

text \<open>A computation that does not panic and, if it returns, returns a value with a property.\<close>

definition safely :: "('a \<Rightarrow> bool) \<Rightarrow> 'a outcome \<Rightarrow> bool" where
  "safely P r = (case r of Done x \<Rightarrow> P x | Panics \<Rightarrow> False | Diverges \<Rightarrow> True)"

lemma safely_simps [simp]:
  "safely P (Done x) = P x" "\<not> safely P Panics" "safely P Diverges"
  by (simp_all add: safely_def)

lemma safely_iff: "safely P r \<longleftrightarrow> r \<noteq> Panics \<and> (\<forall>x. r = Done x \<longrightarrow> P x)"
  by (cases r) simp_all

lemma safely_mono: "safely P r \<Longrightarrow> (\<And>x. P x \<Longrightarrow> Q x) \<Longrightarrow> safely Q r"
  by (cases r) simp_all

record 'd Device =
  deviceID :: u32
  features :: "'d \<Rightarrow> u64"
  numQueues :: nat
  configRead :: "'d \<Rightarrow> u64 \<Rightarrow> bytes \<Rightarrow> bytes"
  configWrite :: "'d \<Rightarrow> u64 \<Rightarrow> bytes \<Rightarrow> 'd"
  dev_reset :: "'d \<Rightarrow> 'd"
  handleQueue :: "nat \<Rightarrow> Core \<times> 'd \<Rightarrow> (Core \<times> 'd) outcome"

definition virtioMagic :: u32 where "virtioMagic = 0x74726976"
definition virtioFVersion1 :: nat where "virtioFVersion1 = 32"

definition NewCoreAt :: "'d Device \<Rightarrow> RAM \<Rightarrow> u64 \<Rightarrow> int \<Rightarrow> Core" where
  "NewCoreAt dev m mmio_base irq_line =
     \<lparr>mem = m, irq = irq_line, base = mmio_base, featureSel = 0, driverFeat = 0, driverSel = 0,
      queueSel = 0, queues = replicate (numQueues dev) zero_virtq, status = 0, isr = 0, gen = 0,
      irqTrace = []\<rparr>"

text \<open>A register read; \<open>len\<close> is the access width the config space honours.\<close>

definition MMIORead :: "'d Device \<Rightarrow> u64 \<Rightarrow> u32 \<Rightarrow> Core \<times> 'd \<Rightarrow> u32" where
  "MMIORead dev offs len cd =
     (let c = fst cd; d = snd cd in
      if offs \<ge> 0x100 then
        (let n = min (unat len) 4 in of_nat (get_le (configRead dev d (offs - 0x100) (replicate n 0))))
      else if offs = 0x000 then virtioMagic
      else if offs = 0x004 then 2
      else if offs = 0x008 then deviceID dev
      else if offs = 0x00c then 0x4d564e
      else if offs = 0x010 then
        (let f = features dev d OR push_bit virtioFVersion1 1 in
         if featureSel c = 1 then ucast (drop_bit 32 f) else ucast f)
      else if offs = 0x034 then virtqSize
      else if offs = 0x044 then
        (if queueSel c < length (queues c) \<and> ready (queues c ! queueSel c) then 1 else 0)
      else if offs = 0x060 then isr c
      else if offs = 0x070 then status c
      else if offs = 0x0fc then gen c
      else if offs = 0x0b0 \<or> offs = 0x0b4 then 0xffffffff
      else 0)"

text \<open>\<open>c.queues[c.queueSel]\<close> updated in place.\<close>

definition at_selected :: "(virtq \<Rightarrow> virtq) \<Rightarrow> Core \<times> 'd \<Rightarrow> (Core \<times> 'd) outcome" where
  "at_selected f cd =
     (let c = fst cd in
      if queueSel c < length (queues c)
      then Done (c\<lparr>queues := (queues c)[queueSel c := f (queues c ! queueSel c)]\<rparr>, snd cd)
      else Panics)"

definition set_low :: "u64 \<Rightarrow> u32 \<Rightarrow> u64" where
  "set_low a v = (a AND 0xffffffff00000000) OR ucast v"

definition set_high :: "u64 \<Rightarrow> u32 \<Rightarrow> u64" where
  "set_high a v = (a AND 0xffffffff) OR push_bit 32 (ucast v)"

definition transport_reset :: "Core \<Rightarrow> Core" where
  "transport_reset c = c\<lparr>featureSel := 0, driverFeat := 0, driverSel := 0, status := 0, isr := 0,
     queueSel := 0, queues := map (\<lambda>_. zero_virtq) (queues c)\<rparr>"

definition MMIOWrite :: "'d Device \<Rightarrow> u64 \<Rightarrow> u32 \<Rightarrow> Core \<times> 'd \<Rightarrow> (Core \<times> 'd) outcome" where
  "MMIOWrite dev offs val cd =
     (let c = fst cd; d = snd cd in
      if offs \<ge> 0x100 then Done (c, configWrite dev d (offs - 0x100) (PutUint32 val))
      else if offs = 0x014 then Done (c\<lparr>featureSel := val\<rparr>, d)
      else if offs = 0x020 then
        (if driverSel c = 1 then Done (c\<lparr>driverFeat := set_high (driverFeat c) val\<rparr>, d)
         else Done (c\<lparr>driverFeat := set_low (driverFeat c) val\<rparr>, d))
      else if offs = 0x024 then Done (c\<lparr>driverSel := val\<rparr>, d)
      else if offs = 0x030 then
        (if unat val < length (queues c) then Done (c\<lparr>queueSel := unat val\<rparr>, d) else Done (c, d))
      else if offs = 0x038 then
        (if val \<ge> 1 \<and> val \<le> virtqSize \<and> val AND (val - 1) = 0
         then at_selected (\<lambda>q. q\<lparr>num := val\<rparr>) (c, d) else Done (c, d))
      else if offs = 0x044 then at_selected (\<lambda>q. q\<lparr>ready := (val = 1 \<and> numValid q)\<rparr>) (c, d)
      else if offs = 0x050 then
        (if unat val < length (queues c) \<and> ready (queues c ! unat val)
         then handleQueue dev (unat val) (c, d)
         else Done (c, d))
      else if offs = 0x064 then
        (let c' = c\<lparr>isr := isr c AND NOT val\<rparr> in
         if isr c' = 0 then Done (c'\<lparr>irqTrace := irqTrace c' @ [(irq c', False)]\<rparr>, d) else Done (c', d))
      else if offs = 0x070 then
        (if val = 0 then Done (transport_reset c, dev_reset dev d)
         else Done (c\<lparr>status := status c OR val\<rparr>, d))
      else if offs = 0x080 then at_selected (\<lambda>q. q\<lparr>descAddr := set_low (descAddr q) val\<rparr>) (c, d)
      else if offs = 0x084 then at_selected (\<lambda>q. q\<lparr>descAddr := set_high (descAddr q) val\<rparr>) (c, d)
      else if offs = 0x090 then at_selected (\<lambda>q. q\<lparr>availAddr := set_low (availAddr q) val\<rparr>) (c, d)
      else if offs = 0x094 then at_selected (\<lambda>q. q\<lparr>availAddr := set_high (availAddr q) val\<rparr>) (c, d)
      else if offs = 0x0a0 then at_selected (\<lambda>q. q\<lparr>usedAddr := set_low (usedAddr q) val\<rparr>) (c, d)
      else if offs = 0x0a4 then at_selected (\<lambda>q. q\<lparr>usedAddr := set_high (usedAddr q) val\<rparr>) (c, d)
      else Done (c, d))"

section \<open>The Device contract\<close>

text \<open>
  What the transport relies on of a device: its handlers do not panic and keep the transport
  invariant and the programmed queue configuration, and every operation keeps the device's own
  invariant.
\<close>

locale virtio_device =
  fixes dev :: "'d Device" and dinv :: "'d \<Rightarrow> bool"
  assumes handle_ok: "core_ok c \<Longrightarrow> dinv d \<Longrightarrow> qn < length (queues c) \<Longrightarrow>
      length (queues c) = numQueues dev \<Longrightarrow>
      safely (\<lambda>(c', d'). core_ok c' \<and> same_config c c' \<and> dinv d') (handleQueue dev qn (c, d))"
    and reset_ok: "dinv d \<Longrightarrow> dinv (dev_reset dev d)"
    and config_ok: "dinv d \<Longrightarrow> dinv (configWrite dev d offs p)"
    and queues_pos: "numQueues dev > 0"
begin

definition machine_ok :: "Core \<times> 'd \<Rightarrow> bool" where
  "machine_ok cd \<longleftrightarrow> core_ok (fst cd) \<and> dinv (snd cd) \<and> length (queues (fst cd)) = numQueues dev"

lemma machine_ok_new: "ram_ok m \<Longrightarrow> dinv d \<Longrightarrow> machine_ok (NewCoreAt dev m b i, d)"
  using queues_pos
  by (simp add: machine_ok_def core_ok_def NewCoreAt_def zero_virtq_def queue_ok_def list_all_length)

lemma at_selected_ok:
  assumes "machine_ok (c, d)" and "\<And>q. queue_ok q \<Longrightarrow> queue_ok (f q)"
  shows "\<exists>cd'. at_selected f (c, d) = Done cd' \<and> machine_ok cd'"
proof -
  from assms(1) have sel: "queueSel c < length (queues c)" and all: "list_all queue_ok (queues c)"
    by (simp_all add: machine_ok_def core_ok_def)
  have "list_all queue_ok ((queues c)[queueSel c := f (queues c ! queueSel c)])"
    using all sel assms(2) by (intro list_all_update) (auto simp: list_all_length)
  with assms(1) sel show ?thesis
    by (simp add: at_selected_def machine_ok_def core_ok_def)
qed

text \<open>No register write panics, and every one that returns keeps the invariant.\<close>

abbreviation kept :: "(Core \<times> 'd) outcome \<Rightarrow> bool" where
  "kept \<equiv> safely machine_ok"

lemma kept_if: "(b \<Longrightarrow> kept x) \<Longrightarrow> (\<not> b \<Longrightarrow> kept y) \<Longrightarrow> kept (if b then x else y)"
  by simp

lemma kept_notify:
  assumes "machine_ok (c, d)" and "qn < length (queues c)"
  shows "kept (handleQueue dev qn (c, d))"
proof (rule safely_mono)
  show "safely (\<lambda>(c', d'). core_ok c' \<and> same_config c c' \<and> dinv d') (handleQueue dev qn (c, d))"
    using assms by (intro handle_ok) (simp_all add: machine_ok_def)
  show "machine_ok cd'" if "case cd' of (c', d') \<Rightarrow> core_ok c' \<and> same_config c c' \<and> dinv d'" for cd'
    using that assms by (auto simp: machine_ok_def dest: same_config_length)
qed

lemma kept_registers:
  assumes "machine_ok (c, d)"
  shows "kept (Done (c, d))" and "kept (Done (c, configWrite dev d o1 p))"
    and "kept (Done (c\<lparr>featureSel := v\<rparr>, d))" and "kept (Done (c\<lparr>driverSel := v\<rparr>, d))"
    and "kept (Done (c\<lparr>driverFeat := f\<rparr>, d))" and "kept (Done (c\<lparr>status := v\<rparr>, d))"
    and "kept (Done (c\<lparr>isr := v\<rparr>, d))" and "kept (Done (c\<lparr>isr := v, irqTrace := t\<rparr>, d))"
    and "kept (Done (transport_reset c, dev_reset dev d))"
    and "i < length (queues c) \<Longrightarrow> kept (Done (c\<lparr>queueSel := i\<rparr>, d))"
  using assms reset_ok config_ok
  by (auto simp: machine_ok_def core_ok_def transport_reset_def list_all_length
      zero_virtq_def queue_ok_def)

lemma kept_selected:
  assumes "machine_ok (c, d)" and "\<And>q. queue_ok q \<Longrightarrow> queue_ok (f q)"
  shows "kept (at_selected f (c, d))"
  using at_selected_ok [of c d f] assms by fastforce

lemma kept_queue_registers:
  assumes "machine_ok (c, d)"
  shows "kept (at_selected (\<lambda>q. q\<lparr>descAddr := g q\<rparr>) (c, d))"
    and "kept (at_selected (\<lambda>q. q\<lparr>availAddr := g q\<rparr>) (c, d))"
    and "kept (at_selected (\<lambda>q. q\<lparr>usedAddr := g q\<rparr>) (c, d))"
    and "kept (at_selected (\<lambda>q. q\<lparr>ready := (b \<and> numValid q)\<rparr>) (c, d))"
    and "v \<ge> 1 \<and> v \<le> virtqSize \<and> v AND (v - 1) = 0 \<Longrightarrow>
      kept (at_selected (\<lambda>q. q\<lparr>num := v\<rparr>) (c, d))"
  by (rule kept_selected [OF assms]; auto simp: queue_ok_def numValid_def)+

lemma mmio_write_kept:
  assumes "machine_ok (c, d)"
  shows "kept (MMIOWrite dev offs val (c, d))"
  unfolding MMIOWrite_def Let_def fst_conv snd_conv
  by (intro kept_if kept_registers [OF assms] kept_queue_registers [OF assms]
      kept_notify [OF assms]; (elim conjE)?; simp add: kept_registers [OF assms])

lemma mmio_write_ok:
  "machine_ok (c, d) \<Longrightarrow> MMIOWrite dev offs val (c, d) \<noteq> Panics \<and>
    (\<forall>cd'. MMIOWrite dev offs val (c, d) = Done cd' \<longrightarrow> machine_ok cd')"
  using mmio_write_kept [of c d offs val] by (simp add: safely_iff)

end

section \<open>Sequences of guest register accesses\<close>

text \<open>
  A guest drives a device by register writes; a run is a list of them. Reads change
  nothing. A handler that does not return or a panic ends the run.
\<close>

primrec mmio_run :: "'d Device \<Rightarrow> (u64 \<times> u32) list \<Rightarrow> Core \<times> 'd \<Rightarrow> (Core \<times> 'd) outcome" where
  "mmio_run dev [] cd = Done cd"
| "mmio_run dev (w # ws) cd =
     (case MMIOWrite dev (fst w) (snd w) cd of
        Done cd' \<Rightarrow> mmio_run dev ws cd' | Panics \<Rightarrow> Panics | Diverges \<Rightarrow> Diverges)"

context virtio_device
begin

lemma mmio_run_ok:
  assumes "machine_ok cd"
  shows "mmio_run dev ws cd \<noteq> Panics \<and> (\<forall>cd'. mmio_run dev ws cd = Done cd' \<longrightarrow> machine_ok cd')"
  using assms
proof (induction ws arbitrary: cd)
  case Nil
  then show ?case by simp
next
  case (Cons w ws)
  obtain c d where cd: "cd = (c, d)" by (cases cd)
  show ?case
    using mmio_write_ok [of c d "fst w" "snd w"] Cons cd
    by (auto split: outcome.splits)
qed

end

end
