(* ===== verification/Virtio_Drain.thy ===== *)
theory Virtio_Drain
  imports Virtio_Transport
begin

text \<open>
  The loop every queue handler of \<open>internal/virtio\<close> runs: pop the next available chain,
  process it, stop when \<open>availChain\<close> has none or when processing panics. The guest owns the
  ring, so the loop may run forever; \<open>None\<close> is a loop, or a step of it, that does not return.
\<close>

partial_function (option) drain ::
  "(nat \<Rightarrow> u64) option \<Rightarrow> (u16 \<Rightarrow> desc list \<Rightarrow> Core \<times> 'd \<Rightarrow> (Core \<times> 'd) outcome) \<Rightarrow> nat \<Rightarrow> Core \<times> 'd
    \<Rightarrow> (Core \<times> 'd) outcome option"
where
  "drain limiter step qn cd =
     (case availChain (chainLimit limiter (mem (fst cd)) qn) qn (fst cd) of
        (c', None) \<Rightarrow> Some (Done (c', snd cd))
      | (c', Some hc) \<Rightarrow>
          (case step (fst hc) (snd hc) (c', snd cd) of
             Done cd' \<Rightarrow> drain limiter step qn cd'
           | Panics \<Rightarrow> Some Panics
           | Diverges \<Rightarrow> None))"

text \<open>The outcome of a loop, and of a computation for which \<open>None\<close> is not returning.\<close>

definition loop_result :: "'a outcome option \<Rightarrow> 'a outcome" where
  "loop_result r = (case r of None \<Rightarrow> Diverges | Some x \<Rightarrow> x)"

definition returned :: "'a option \<Rightarrow> 'a outcome" where
  "returned r = (case r of None \<Rightarrow> Diverges | Some x \<Rightarrow> Done x)"

lemma loop_result_simps [simp]: "loop_result None = Diverges" "loop_result (Some r) = r"
  by (simp_all add: loop_result_def)

lemma returned_simps [simp]:
  "returned None = Diverges" "returned (Some x) = Done x" "returned r \<noteq> Panics"
  "returned r = Done x \<longleftrightarrow> r = Some x"
  by (simp_all add: returned_def split: option.split)

lemma safely_loop: "safely P (loop_result r) \<longleftrightarrow> (\<forall>x. r = Some x \<longrightarrow> safely P x)"
  by (cases r) simp_all

lemma safely_returned: "safely P (returned r) \<longleftrightarrow> (\<forall>x. r = Some x \<longrightarrow> P x)"
  by (cases r) simp_all

lemma chain_facts:
  assumes "availChain limit qn c = (c', Some (head, chain))"
  shows "chain \<noteq> []" and "length chain \<le> virtqMaxChainDescriptors"
    and "length chain \<le> unat (num (queues c ! qn))" and "desc_bytes chain \<le> unat limit"
    and "\<forall>d \<in> set chain. desc_ok (mem c) d" and "\<not> has_next (last chain)"
    and "\<forall>d \<in> set (butlast chain). has_next d"
proof -
  from availChain_Some(4) [OF assms] obtain d q' where q': "num q' = num (queues c ! qn)"
    and d: "contains (mem c) (d_addr d) (ucast (d_len d))"
    and walk: "chain_walk (mem c) q' limit [] 0 d = Some chain"
    by blast
  obtain ds e where "chain = ds @ [e]" "\<not> has_next e" "\<forall>x \<in> set ds. has_next x"
      "\<forall>x \<in> set (ds @ [e]). desc_ok (mem c) x" "length chain \<le> unat (num q')"
      "length chain \<le> virtqMaxChainDescriptors" "desc_bytes chain \<le> unat limit"
    using chain_walk_Some [OF walk _ _ d] by (auto simp: virtqMaxChainDescriptors_def)
  then show "chain \<noteq> []" and "length chain \<le> virtqMaxChainDescriptors"
    and "length chain \<le> unat (num (queues c ! qn))" and "desc_bytes chain \<le> unat limit"
    and "\<forall>d \<in> set chain. desc_ok (mem c) d" and "\<not> has_next (last chain)"
    and "\<forall>d \<in> set (butlast chain). has_next d"
    using q' by simp_all
qed

text \<open>
  A chain processor: a step that, on a chain \<open>availChain\<close> can deliver, does not panic and keeps
  the transport invariant, the queue configuration and the device's invariant.
\<close>

definition deliverable :: "(nat \<Rightarrow> u64) option \<Rightarrow> nat \<Rightarrow> Core \<Rightarrow> desc list \<Rightarrow> bool" where
  "deliverable limiter qn c chain \<longleftrightarrow> qn < length (queues c) \<and> chain \<noteq> [] \<and>
     length chain \<le> virtqMaxChainDescriptors \<and> desc_bytes chain \<le> unat (chainLimit limiter (mem c) qn) \<and>
     (\<forall>d \<in> set chain. desc_ok (mem c) d)"

locale chain_processor =
  fixes limiter :: "(nat \<Rightarrow> u64) option"
    and step :: "u16 \<Rightarrow> desc list \<Rightarrow> Core \<times> 'd \<Rightarrow> (Core \<times> 'd) outcome"
    and dinv :: "'d \<Rightarrow> bool"
  assumes step_ok: "core_ok c \<Longrightarrow> dinv d \<Longrightarrow> deliverable limiter qn c chain \<Longrightarrow>
    safely (\<lambda>(c', d'). core_ok c' \<and> same_config c c' \<and> dinv d') (step head chain (c, d))"
begin

abbreviation keeps :: "Core \<Rightarrow> (Core \<times> 'd) outcome \<Rightarrow> bool" where
  "keeps c \<equiv> safely (\<lambda>(c', d'). core_ok c' \<and> same_config c c' \<and> dinv d')"

lemma step_after_avail:
  assumes "core_ok c" "dinv d" "availChain (chainLimit limiter (mem c) q) q c = (c1, Some (head, chain))"
  shows "keeps c (step head chain (c1, d))"
proof -
  have ok: "core_ok c1" "same_config c c1"
    using core_ok_availChain [OF assms(1)] same_config_availChain assms(3) by (metis fst_conv)+
  have "c1 = bump_avail q c" using availChain_Some(3) [OF assms(3)] .
  then have "mem c1 = mem c" "length (queues c1) = length (queues c)"
    by (simp_all add: bump_avail_def)
  then have "deliverable limiter q c1 chain"
    using chain_facts [OF assms(3)] availChain_Some(1) [OF assms(3)] by (simp add: deliverable_def)
  from step_ok [OF ok(1) assms(2) this] show ?thesis
    by (rule safely_mono) (use ok(2) same_config_trans in blast)
qed

lemma drain_keeps:
  assumes "drain limiter step qn cd = Some r"
  shows "core_ok (fst cd) \<longrightarrow> dinv (snd cd) \<longrightarrow> keeps (fst cd) r"
proof (rule drain.raw_induct [where P = "\<lambda>lim st q cd r. lim = limiter \<longrightarrow> st = step \<longrightarrow>
      core_ok (fst cd) \<longrightarrow> dinv (snd cd) \<longrightarrow> keeps (fst cd) r",
      OF _ assms, THEN mp, THEN mp, OF _ refl refl])
  fix f lim st q and cd :: "Core \<times> 'd" and r
  assume IH: "\<And>lim st q cd r. f lim st q cd = Some r \<Longrightarrow> lim = limiter \<longrightarrow> st = step \<longrightarrow>
      core_ok (fst cd) \<longrightarrow> dinv (snd cd) \<longrightarrow> keeps (fst cd) r"
    and eq: "(case availChain (chainLimit lim (mem (fst cd)) q) q (fst cd) of
         (c', None) \<Rightarrow> Some (Done (c', snd cd))
       | (c', Some hc) \<Rightarrow> (case st (fst hc) (snd hc) (c', snd cd) of
           Done cd' \<Rightarrow> f lim st q cd' | Panics \<Rightarrow> Some Panics | Diverges \<Rightarrow> None)) = Some r"
  show "lim = limiter \<longrightarrow> st = step \<longrightarrow> core_ok (fst cd) \<longrightarrow> dinv (snd cd) \<longrightarrow> keeps (fst cd) r"
  proof (intro impI)
    assume lim: "lim = limiter" and st: "st = step" and ok: "core_ok (fst cd)" "dinv (snd cd)"
    obtain c1 o1 where av: "availChain (chainLimit limiter (mem (fst cd)) q) q (fst cd) = (c1, o1)"
      by fastforce
    show "keeps (fst cd) r"
    proof (cases o1)
      case None
      then have "r = Done (c1, snd cd)" using eq av lim by simp
      then show ?thesis
        using core_ok_availChain [OF ok(1)] same_config_availChain av ok(2) by simp (metis fst_conv)
    next
      case (Some hc)
      obtain head chain where hc: "hc = (head, chain)" by (cases hc)
      have k: "keeps (fst cd) (step head chain (c1, snd cd))"
        using step_after_avail [OF ok] av Some hc by simp
      show ?thesis
      proof (cases "step head chain (c1, snd cd)")
        case (Done cd2)
        then have "core_ok (fst cd2)" "same_config (fst cd) (fst cd2)" "dinv (snd cd2)"
          using k by (simp_all add: case_prod_beta)
        moreover have "f lim st q cd2 = Some r" using eq av lim st Some hc Done by simp
        ultimately have "keeps (fst cd2) r" using IH lim st by blast
        then show ?thesis
          by (rule safely_mono) (use \<open>same_config (fst cd) (fst cd2)\<close> same_config_trans in blast)
      qed (use eq av lim st Some hc k in simp_all)
    qed
  qed
qed

lemma drain_ok:
  assumes "core_ok c" and "dinv d"
  shows "keeps c (loop_result (drain limiter step qn (c, d)))"
  using drain_keeps [of qn "(c, d)"] assms by (simp add: safely_loop)

end

end
