(* ===== verification/Virtqueue_Correct.thy ===== *)
theory Virtqueue_Correct
  imports Virtio_Drain
begin

text \<open>
  What a virtqueue promises its two sides: a chain the device receives is safe to use, data
  scattered over the chain is what the driver gathers from it, and a completion is published
  in the used ring.
\<close>

section \<open>Delivered chains\<close>

text \<open>C7. A chain \<open>availChain\<close> delivers is bounded and safe: it has at least one and at most 65
  descriptors and no more than the queue size, no indirect descriptor, its total length is within
  the byte limit, every descriptor lies in guest RAM, and exactly the last one ends the chain.\<close>

theorem avail_chain_safe:
  assumes "availChain limit qn c = (c', Some (head, chain))"
  shows "chain \<noteq> [] \<and> length chain \<le> 65 \<and> length chain \<le> unat (num (queues c ! qn)) \<and>
    (\<Sum>d\<leftarrow>chain. unat (d_len d)) \<le> unat limit \<and>
    (\<forall>d \<in> set chain. contains (mem c) (d_addr d) (ucast (d_len d)) \<and> d_flags d AND vringDescFIndirect = 0) \<and>
    d_flags (last chain) AND vringDescFNext = 0 \<and>
    (\<forall>d \<in> set (butlast chain). d_flags d AND vringDescFNext \<noteq> 0)"
  using chain_facts [OF assms]
  by (simp add: desc_ok_def has_next_def desc_bytes_def virtqMaxChainDescriptors_def)

section \<open>Scatter and gather\<close>

definition desc_disjoint :: "RAM \<Rightarrow> desc \<Rightarrow> desc \<Rightarrow> bool" where
  "desc_disjoint m d e \<longleftrightarrow> (\<forall>i j. host_off m (d_addr d) (unat (d_len d)) = Some i \<longrightarrow>
     host_off m (d_addr e) (unat (d_len e)) = Some j \<longrightarrow>
     disjoint_ranges i (unat (d_len d)) j (unat (d_len e)))"

fun descs_disjoint :: "RAM \<Rightarrow> desc list \<Rightarrow> bool" where
  "descs_disjoint m [] = True"
| "descs_disjoint m (d # ds) = (list_all (desc_disjoint m d) ds \<and> descs_disjoint m ds)"

lemma d_len_small: "unat (d_len d) < 2 ^ 63"
  using unat_less_2p [of "d_len d"] by simp

lemma desc_disjoint_offs: "rangeOff m' = rangeOff m \<Longrightarrow> desc_disjoint m' = desc_disjoint m"
  by (simp add: desc_disjoint_def host_off_def fun_eq_iff)

lemma descs_disjoint_offs: "rangeOff m' = rangeOff m \<Longrightarrow> descs_disjoint m' ds = descs_disjoint m ds"
  by (induction ds) (use desc_disjoint_offs [of m' m] in simp_all)

text \<open>Writing one descriptor's range does not change what the disjoint ones hold.\<close>

lemma read_descs_frame:
  assumes "ram_ok m" and "writeAt m (d_addr d) p = Inr m'" and "length p = unat (d_len d)"
    and "list_all (desc_disjoint m d) ds"
    and "\<forall>e \<in> set ds. contains m (d_addr e) (ucast (d_len e))"
  shows "read_descs m' ds = read_descs m ds"
  using assms(4,5)
proof (induction ds)
  case (Cons e ds)
  have p: "length p < 2 ^ 63" using assms(3) d_len_small [of d] by simp
  obtain i where i: "host_off m (d_addr d) (length p) = Some i"
    using gmem.wr_Inr [OF assms(1) p assms(2)] by blast
  have u: "(of_nat (unat (d_len e)) :: u64) = ucast (d_len e)" by simp
  obtain j where j: "host_off m (d_addr e) (unat (d_len e)) = Some j"
    using Cons.prems(2) by (auto simp: host_off_def contains_def u)
  have "disjoint_ranges i (length p) j (unat (d_len e))"
    using Cons.prems(1) i j assms(3) by (simp add: desc_disjoint_def)
  then have "readAt m' (d_addr e) (unat (d_len e)) = readAt m (d_addr e) (unat (d_len e))"
    using gmem.rd_frame [OF assms(1) p d_len_small assms(2) i j] by simp
  with Cons show ?case by (simp cong: sum.case_cong)
qed simp

lemma read_descs_zero:
  assumes "ram_ok m" and "\<forall>d \<in> set ds. contains m (d_addr d) (ucast (d_len d))" and "desc_bytes ds = 0"
  shows "read_descs m ds = Inr []"
  using assms(2,3)
proof (induction ds)
  case (Cons d ds)
  have "contains m (d_addr d) (of_nat 0)" using Cons.prems by (simp add: unat_eq_zero)
  from readAt_contains [OF assms(1) _ this] obtain p where "readAt m (d_addr d) 0 = Inr p" by auto
  moreover from this gmem.rd_Inr [OF assms(1)] have "p = []" by blast
  ultimately show ?case using Cons by simp
qed simp

text \<open>Data that fills the descriptors exactly: each chunk is its descriptor's length.\<close>

lemma writeChains_from_step:
  assumes "ram_ok m" and "contains m (d_addr d) (ucast (d_len d))" and "length data < 2 ^ 32"
    and "unat n + unat (d_len d) \<le> length data" and "unat n < length data"
  obtains m1 where "writeAt m (d_addr d) (take (unat (d_len d)) (drop (unat n) data)) = Inr m1"
    and "ram_ok m1" and "rangeOff m1 = rangeOff m" and "contains m1 = contains m"
    and "writeChains_from m (d # ds) data n = writeChains_from m1 ds data (n + d_len d)"
    and "unat (n + d_len d) = unat n + unat (d_len d)"
proof -
  let ?rest = "drop (unat n) data"
  let ?chunk = "take (unat (d_len d)) ?rest"
  have len: "length ?chunk = unat (d_len d)" using assms(4) by simp
  then have "contains m (d_addr d) (of_nat (length ?chunk))" using assms(2) by simp
  then obtain m1 where m1: "writeAt m (d_addr d) ?chunk = Inr m1"
    using writeAt_contains [OF assms(1), of ?chunk "d_addr d"] len d_len_small [of d] by auto
  have "unat (of_nat (length ?rest) :: u32) = length ?rest"
    using assms(3) by (simp add: unat_of_nat)
  then have chunk: "(if of_nat (length ?rest) > d_len d then ?chunk else ?rest) = ?chunk"
    by (simp add: word_less_nat_alt not_less)
  have nb: "\<not> n \<ge> of_nat (length data)"
    using assms(3,5) by (simp add: word_le_nat_alt unat_of_nat)
  have "writeChains_from m (d # ds) data n = writeChains_from m1 ds data (n + of_nat (length ?chunk))"
    unfolding writeChains_from.simps Let_def chunk using nb m1 by simp
  then have step: "writeChains_from m (d # ds) data n = writeChains_from m1 ds data (n + d_len d)"
    unfolding len by simp
  have "unat (n + d_len d) = unat n + unat (d_len d)"
    using assms(3,4) by (intro unat_add_no_wrap) simp
  then show thesis
    using that [OF m1 writeAt_ram_ok [OF assms(1) m1] _ _ step] writeAt_regions [OF m1] by simp
qed

lemma writeChains_from_exact:
  assumes "ram_ok m" and "\<forall>d \<in> set ds. contains m (d_addr d) (ucast (d_len d))"
    and "descs_disjoint m ds" and "length data < 2 ^ 32" and "length data = unat n + desc_bytes ds"
  shows "\<exists>m'. writeChains_from m ds data n = (m', of_nat (length data), None) \<and>
    read_descs m' ds = Inr (drop (unat n) data) \<and>
    (\<forall>e. contains m (d_addr e) (ucast (d_len e)) \<longrightarrow> list_all (desc_disjoint m e) ds \<longrightarrow>
      read_descs m' [e] = read_descs m [e])"
  using assms
proof (induction ds arbitrary: m n)
  case Nil
  then have "of_nat (length data) = n" and "drop (unat n) data = []" by simp_all
  then show ?case by simp
next
  case (Cons d ds)
  show ?case
  proof (cases "unat n < length data")
    case False
    then have z: "desc_bytes (d # ds) = 0" and n: "n = of_nat (length data)"
      using Cons.prems(5) by (simp_all del: desc_bytes_simps)
    have "read_descs m (d # ds) = Inr []"
      using read_descs_zero [OF Cons.prems(1,2) z] .
    with n False show ?thesis using Cons.prems(4) by (simp add: unat_of_nat del: read_descs.simps)
  next
    case True
    have "unat n + unat (d_len d) \<le> length data" using Cons.prems(5) by simp
    from writeChains_from_step [OF Cons.prems(1) _ Cons.prems(4) this True] Cons.prems(2)
    obtain m1 where m1: "writeAt m (d_addr d) (take (unat (d_len d)) (drop (unat n) data)) = Inr m1"
      and ok1: "ram_ok m1" and r1: "rangeOff m1 = rangeOff m" and c1: "contains m1 = contains m"
      and step: "writeChains_from m (d # ds) data n = writeChains_from m1 ds data (n + d_len d)"
      and n1: "unat (n + d_len d) = unat n + unat (d_len d)"
      by (metis list.set_intros(1))
    let ?chunk = "take (unat (d_len d)) (drop (unat n) data)"
    have len: "length ?chunk = unat (d_len d)" using Cons.prems(5) by simp
    have dis: "descs_disjoint m1 ds" using Cons.prems(3) descs_disjoint_offs [OF r1] by simp
    obtain m' where w: "writeChains_from m1 ds data (n + d_len d) = (m', of_nat (length data), None)"
      and rd: "read_descs m' ds = Inr (drop (unat (n + d_len d)) data)"
      and fr: "\<forall>e. contains m1 (d_addr e) (ucast (d_len e)) \<longrightarrow> list_all (desc_disjoint m1 e) ds \<longrightarrow>
        read_descs m' [e] = read_descs m1 [e]"
      using Cons.IH [OF ok1 _ dis Cons.prems(4), of "n + d_len d"] Cons.prems(2,5) c1 n1 by auto
    have "read_descs m1 [d] = Inr ?chunk"
      using gmem.rd_own_wr [OF Cons.prems(1) _ m1] len d_len_small [of d] by simp
    moreover have "read_descs m' [d] = read_descs m1 [d]"
      using fr Cons.prems(2,3) c1 desc_disjoint_offs [OF r1] by simp
    moreover have "?chunk @ drop (unat (n + d_len d)) data = drop (unat n) data"
      unfolding n1 by (metis append_take_drop_id drop_drop add.commute)
    ultimately have "read_descs m' (d # ds) = Inr (drop (unat n) data)"
      using rd by (auto split: sum.splits)
    moreover have "read_descs m' [e] = read_descs m [e]"
      if "contains m (d_addr e) (ucast (d_len e))" "list_all (desc_disjoint m e) (d # ds)" for e
    proof -
      have "desc_disjoint m d e" using that(2) by (auto simp: desc_disjoint_def disjoint_ranges_def)
      then have "read_descs m1 [e] = read_descs m [e]"
        using read_descs_frame [OF Cons.prems(1) m1 len, of "[e]"] that(1) by simp
      with fr that c1 desc_disjoint_offs [OF r1] show ?thesis by simp
    qed
    ultimately show ?thesis using step w by metis
  qed
qed

text \<open>C8. Scatter then gather: writing data that fills a chain's descriptors, which lie in RAM and
  do not overlap, reports every byte written, and reading the same descriptors back yields the
  data in order.\<close>

theorem write_chains_read_back:
  assumes "ram_ok (mem c)" and "\<forall>d \<in> set ds. contains (mem c) (d_addr d) (ucast (d_len d))"
    and "descs_disjoint (mem c) ds" and "length data < 2 ^ 32"
    and "length data = (\<Sum>d\<leftarrow>ds. unat (d_len d))"
  shows "\<exists>c'. writeChains ds data c = (c', of_nat (length data), None) \<and>
    readChains (mem c') ds = Inr data"
proof -
  have total: "unat a + desc_bytes xs < 2 ^ 63 \<Longrightarrow> chain_total a xs \<noteq> None" for a xs
  proof (induction xs arbitrary: a)
    case (Cons x xs)
    have "unat (a + ucast (d_len x)) = unat a + unat (d_len x)"
      using Cons.prems by (subst unat_add_no_wrap) simp_all
    with Cons show ?case by (simp add: Let_def word_less_nat_alt)
  qed simp
  have "chain_total 0 ds \<noteq> None"
    using total [of 0 ds] assms(4,5) by (simp add: desc_bytes_def)
  moreover obtain m' where "writeChains_from (mem c) ds data 0 = (m', of_nat (length data), None)"
    and "read_descs m' ds = Inr data"
    using writeChains_from_exact [OF assms(1-4), of 0] assms(5) by (auto simp: desc_bytes_def)
  ultimately show ?thesis by (auto simp: writeChains_def readChains_def)
qed

section \<open>Completions\<close>

definition used_slot :: "virtq \<Rightarrow> u16 \<Rightarrow> u64" where
  "used_slot q idx = usedAddr q + 4 + ucast (idx mod ucast (num q)) * 8"

text \<open>C9. A completion is published: with the used ring in RAM, \<open>pushUsed\<close> stores the chain's head
  and byte count in the slot of the current used index, advances the index by one (modulo
  $2^{16}$), and raises the used-buffer interrupt unless the driver suppressed it.\<close>

theorem push_used_publishes:
  assumes "core_ok c" and "numValid (queues c ! qn)"
    and idx: "readAt (mem c) (usedAddr (queues c ! qn) + 2) 2 = Inr idxb"
    and slot: "host_off (mem c) (used_slot (queues c ! qn) (Uint16 idxb)) 8 = Some i"
    and index: "host_off (mem c) (usedAddr (queues c ! qn) + 2) 2 = Some j"
    and "disjoint_ranges i 8 j 2"
  shows "let c' = pushUsed qn head written c in
    readAt (mem c') (used_slot (queues c ! qn) (Uint16 idxb)) 8 = Inr (PutUint32 (ucast head) @ PutUint32 written) \<and>
    readAt (mem c') (usedAddr (queues c ! qn) + 2) 2 = Inr (PutUint16 (Uint16 idxb + 1)) \<and>
    (if interruptSuppressed c' (queues c ! qn) then isr c' = isr c \<and> irqTrace c' = irqTrace c
     else isr c' = isr c OR 1 \<and> irqTrace c' = irqTrace c @ [(irq c, True)])"
proof -
  let ?q = "queues c ! qn"
  let ?elem = "PutUint32 (ucast head) @ PutUint32 written"
  have ok: "ram_ok (mem c)" using assms(1) by (simp add: core_ok_def)
  obtain m1 where m1: "writeAt (mem c) (used_slot ?q (Uint16 idxb)) ?elem = Inr m1"
    using slot ok by (simp add: writeAt_host_off)
  have ok1: "ram_ok m1" and off1: "host_off m1 = host_off (mem c)"
    using gmem.wr_Inr [OF ok _ m1] by simp_all
  obtain m2 where m2: "writeAt m1 (usedAddr ?q + 2) (PutUint16 (Uint16 idxb + 1)) = Inr m2"
    using index ok1 off1 by (simp add: writeAt_host_off)
  have "readAt m2 (usedAddr ?q + 2) 2 = Inr (PutUint16 (Uint16 idxb + 1))"
    using gmem.rd_own_wr [OF ok1 _ m2] by simp
  moreover have "readAt m2 (used_slot ?q (Uint16 idxb)) 8 = Inr ?elem"
    using gmem.rd_own_wr [OF ok _ m1] assms(6) slot index off1
      gmem.rd_frame [OF ok1 _ _ m2, of 8 j "used_slot ?q (Uint16 idxb)" i]
    by (simp add: disjoint_ranges_def disj_commute)
  moreover have "pushUsed qn head written c =
      (if interruptSuppressed (c\<lparr>mem := m2\<rparr>) ?q then c\<lparr>mem := m2\<rparr>
       else raiseIRQ virtioIntUsedBuffer (c\<lparr>mem := m2\<rparr>))"
    using assms(2) idx m1 m2 by (simp add: pushUsed_def used_slot_def Let_def)
  ultimately show ?thesis
    by (simp add: raiseIRQ_def interruptSuppressed_def virtioIntUsedBuffer_def Let_def)
qed

text \<open>Data that fits into descriptors in RAM is written whole.\<close>

lemma writeChains_fits:
  assumes "core_ok c" "\<forall>d \<in> set ds. contains (mem c) (d_addr d) (ucast (d_len d))"
    and "length data \<le> desc_bytes ds" "length data < 2 ^ 32"
  shows "\<exists>c'. writeChains ds data c = (c', of_nat (length data), None)"
  using writeChains_from_ok [of "mem c" ds data 0] assms
  by (auto simp: writeChains_def core_ok_def min_absorb1)

section \<open>A concrete queue\<close>

text \<open>
  One queue of size one in 48 bytes of RAM: the descriptor table at 0 with one writable
  descriptor of eight bytes at 40, the available ring at 16 offering it, the used ring at 24.
\<close>

definition sample_ram :: RAM where
  "sample_ram = NewRAM
     ([40, 0, 0, 0, 0, 0, 0, 0, 8, 0, 0, 0, 2, 0, 0, 0,
       0, 0, 1, 0, 0, 0, 0, 0,
       0, 0, 0, 0, 0, 0, 0, 0, 0, 0, 0, 0, 0, 0, 0, 0,
       0, 0, 0, 0, 0, 0, 0, 0]) 0"

definition sample_queue :: virtq where
  "sample_queue = \<lparr>ready = True, num = 1, descAddr = 0, availAddr = 16, usedAddr = 24, lastAvail = 0\<rparr>"

definition sample_core :: Core where
  "sample_core = \<lparr>mem = sample_ram, irq = 5, base = 0, featureSel = 0, driverFeat = 0, driverSel = 0,
     queueSel = 0, queues = [sample_queue], status = 4, isr = 0, gen = 0, irqTrace = []\<rparr>"

definition sample_desc :: desc where
  "sample_desc = \<lparr>d_addr = 40, d_len = 8, d_flags = 2, d_next = 0\<rparr>"

lemma sample_ram_ok: "ram_ok sample_ram"
  by (simp add: sample_ram_def ram_ok_NewRAM)

lemma sample_rangeOff: "rangeOff sample_ram a n = (if a \<le> 48 \<and> n \<le> 48 - a then Some a else None)"
  by (simp add: sample_ram_def rangeOff_def NewRAM_def Let_def)

lemma sample_read: "readAt sample_ram a n =
    (if a \<le> 48 \<and> of_nat n \<le> 48 - a then (case slice (unat a) n (ram sample_ram) of
        None \<Rightarrow> Inl SlicePanic | Some p \<Rightarrow> Inr p) else Inl OutsideRAM)"
  by (simp add: readAt_def sample_rangeOff)

lemma sample_core_ok: "core_ok sample_core"
  by (simp add: sample_core_def core_ok_def sample_ram_ok queue_ok_def numValid_def sample_queue_def
      vring_consts)

lemma sample_reads:
  "readAt sample_ram 16 2 = Inr [0, 0]" "readAt sample_ram 18 2 = Inr [1, 0]"
  "readAt sample_ram 20 2 = Inr [0, 0]" "readAt sample_ram 26 2 = Inr [0, 0]"
  "readAt sample_ram 0 16 = Inr [40, 0, 0, 0, 0, 0, 0, 0, 8, 0, 0, 0, 2, 0, 0, 0]"
  unfolding sample_read by (simp_all add: sample_ram_def NewRAM_def slice_def)

lemma sample_avail: "availChain 100 0 sample_core =
    (bump_avail 0 sample_core, Some (0, [sample_desc]))"
  by (simp add: availChain_def sample_core_def sample_queue_def numValid_def sample_reads Let_def
      descAt_def vring_consts Uint16_def Uint32_def Uint64_def
      contains_def sample_rangeOff chain_walk.simps bump_avail_def sample_desc_def)

theorem avail_chain_safe_witness:
  "availChain 100 0 sample_core = (bump_avail 0 sample_core, Some (0, [sample_desc])) \<and>
   contains sample_ram 40 8"
  using avail_chain_safe [OF sample_avail] sample_avail
  by (simp add: sample_core_def sample_desc_def)

theorem write_chains_read_back_witness:
  "\<exists>c'. writeChains [sample_desc] [1, 2, 3, 4, 5, 6, 7, 8] sample_core = (c', 8, None) \<and>
    readChains (mem c') [sample_desc] = Inr [1, 2, 3, 4, 5, 6, 7, 8]"
  using write_chains_read_back [of sample_core "[sample_desc]" "[1, 2, 3, 4, 5, 6, 7, 8]"]
  by (simp add: sample_core_def sample_ram_ok sample_desc_def contains_def sample_rangeOff)

theorem push_used_publishes_witness:
  "readAt (mem (pushUsed 0 0 8 sample_core)) 26 2 = Inr (PutUint16 1) \<and>
   readAt (mem (pushUsed 0 0 8 sample_core)) 28 8 = Inr (PutUint32 0 @ PutUint32 8)"
proof -
  have v: "numValid (queues sample_core ! 0)"
    by (simp add: sample_core_def sample_queue_def numValid_def vring_consts)
  have i: "readAt (mem sample_core) (usedAddr (queues sample_core ! 0) + 2) 2 = Inr [0, 0]"
    by (simp add: sample_core_def sample_queue_def sample_reads)
  have "host_off (mem sample_core) (used_slot (queues sample_core ! 0) (Uint16 [0, 0])) 8 = Some 28"
      "host_off (mem sample_core) (usedAddr (queues sample_core ! 0) + 2) 2 = Some 26"
      "disjoint_ranges 28 8 26 2"
    by (simp_all add: sample_core_def sample_queue_def used_slot_def host_off_def sample_rangeOff
        Uint16_def disjoint_ranges_def)
  from push_used_publishes [OF sample_core_ok v i this, of 0 8] show ?thesis
    by (simp add: Let_def sample_core_def sample_queue_def used_slot_def Uint16_def)
qed

end
