(* ===== verification/Virtio_Mem.thy ===== *)
theory Virtio_Mem
  imports Virtio_Drain
begin

text \<open>
  The virtio-mem device, \<open>internal/virtio/vmem.go\<close>: a hotpluggable region of blocks the
  guest plugs and unplugs under the device's requested size.
\<close>

record Mem =
  mem_addr :: u64
  regionSize :: u64
  blockSize :: u64
  requestedSize :: u64
  pluggedSize :: u64
  plugged :: "bool list"

datatype mem_new_error = BadSizes | NotAligned | TooManyBlocks

definition memReqPlug :: u16 where "memReqPlug = 0"
definition memReqUnplug :: u16 where "memReqUnplug = 1"
definition memReqUnplugAll :: u16 where "memReqUnplugAll = 2"
definition memReqState :: u16 where "memReqState = 3"
definition memRespACK :: u16 where "memRespACK = 0"
definition memRespNACK :: u16 where "memRespNACK = 1"
definition memRespError :: u16 where "memRespError = 3"
definition memStatePlugged :: u16 where "memStatePlugged = 0"
definition memStateUnplugged :: u16 where "memStateUnplugged = 1"
definition memStateMixed :: u16 where "memStateMixed = 2"
definition memRequestSize :: nat where "memRequestSize = 24"
definition memResponseSize :: nat where "memResponseSize = 10"

lemmas mem_consts = memReqPlug_def memReqUnplug_def memReqUnplugAll_def memReqState_def
  memRespACK_def memRespNACK_def memRespError_def memStatePlugged_def memStateUnplugged_def
  memStateMixed_def memRequestSize_def memResponseSize_def

definition NewMem :: "u64 \<Rightarrow> u64 \<Rightarrow> u64 \<Rightarrow> mem_new_error + Mem" where
  "NewMem a region block =
     (if region = 0 \<or> block = 0 \<or> block AND (block - 1) \<noteq> 0 then Inl BadSizes
      else if a mod block \<noteq> 0 \<or> region mod block \<noteq> 0 \<or> a > NOT 0 - region then Inl NotAligned
      else let blocks = region div block in
        if blocks > 0x7fffffffffffffff then Inl TooManyBlocks
        else Inr \<lparr>mem_addr = a, regionSize = region, blockSize = block, requestedSize = region,
                  pluggedSize = 0, plugged = replicate (unat blocks) False\<rparr>)"

definition DeferRequested :: "Mem \<Rightarrow> Mem" where
  "DeferRequested v = v\<lparr>requestedSize := 0\<rparr>"

text \<open>\<open>RequestAll\<close> on a device that is attached to a core, and on one that is not yet.\<close>

definition RequestAll :: "Core option \<Rightarrow> Mem \<Rightarrow> Core option \<times> Mem" where
  "RequestAll core v =
     (case core of
        None \<Rightarrow> (None, v\<lparr>requestedSize := regionSize v\<rparr>)
      | Some c \<Rightarrow>
          (if requestedSize v = regionSize v then (Some c, v)
           else (Some (raiseIRQ virtioIntConfig (c\<lparr>gen := gen c + 1\<rparr>)),
                 v\<lparr>requestedSize := regionSize v\<rparr>)))"

definition mem_reset :: "Mem \<Rightarrow> Mem" where
  "mem_reset v = v\<lparr>plugged := map (\<lambda>_. False) (plugged v), pluggedSize := 0\<rparr>"

definition mem_config :: "Mem \<Rightarrow> bytes" where
  "mem_config v = PutUint64 (blockSize v) @ replicate 8 0 @ PutUint64 (mem_addr v) @
     PutUint64 (regionSize v) @ PutUint64 (regionSize v) @ PutUint64 (pluggedSize v) @
     PutUint64 (requestedSize v)"

definition mem_configRead :: "Mem \<Rightarrow> u64 \<Rightarrow> bytes \<Rightarrow> bytes" where
  "mem_configRead v offs p =
     (if unat offs \<ge> length (mem_config v) then map (\<lambda>_. 0) p
      else let src = take (length p) (drop (unat offs) (mem_config v)) in
        src @ replicate (length p - length src) 0)"

definition mem_response :: "u16 \<Rightarrow> u16 \<Rightarrow> bytes" where
  "mem_response kind state = PutUint16 kind @ replicate 6 0 @ PutUint16 state"

text \<open>The loops over the block bitmap. The index runs over the values it takes; \<open>None\<close> is the panic of an
  index past the bitmap.\<close>

fun plug_loop :: "nat list \<Rightarrow> bool list \<Rightarrow> bool list option" where
  "plug_loop [] xs = Some xs"
| "plug_loop (i # is) xs = (if i < length xs then plug_loop is (xs[i := True]) else None)"

fun unplug_loop :: "nat list \<Rightarrow> bool list \<Rightarrow> u64 \<Rightarrow> (bool list \<times> u64) option" where
  "unplug_loop [] xs oldBlocks = Some (xs, oldBlocks)"
| "unplug_loop (i # is) xs oldBlocks =
     (if i < length xs
      then if xs ! i then unplug_loop is (xs[i := False]) (oldBlocks + 1) else unplug_loop is xs oldBlocks
      else None)"

text \<open>The three cases of the request switch; \<open>None\<close> is a panic: a slice or index outside the bitmap, or a
  division by a zero block size. The bound \<open>first + count\<close> wraps at 64 bits.\<close>

definition mem_plug :: "u64 \<Rightarrow> u64 \<Rightarrow> Mem \<Rightarrow> (Mem \<times> bytes) option" where
  "mem_plug first count v =
     (case slice_range (unat first) (unat (first + count)) (plugged v) of
        None \<Rightarrow> None
      | Some blocks \<Rightarrow>
          (let newBlocks = of_nat (length (filter (\<lambda>b. \<not> b) blocks)) in
           if blockSize v = 0 then None
           else if newBlocks > (requestedSize v - pluggedSize v) div blockSize v
           then Some (v, mem_response memRespNACK 0)
           else case plug_loop [unat first ..< unat (first + count)] (plugged v) of
             None \<Rightarrow> None
           | Some xs \<Rightarrow>
               Some (v\<lparr>plugged := xs, pluggedSize := pluggedSize v + newBlocks * blockSize v\<rparr>,
                     mem_response memRespACK 0)))"

definition mem_unplug :: "u64 \<Rightarrow> u64 \<Rightarrow> Mem \<Rightarrow> (Mem \<times> bytes) option" where
  "mem_unplug first count v =
     (case unplug_loop [unat first ..< unat (first + count)] (plugged v) 0 of
        None \<Rightarrow> None
      | Some (xs, oldBlocks) \<Rightarrow>
          Some (v\<lparr>plugged := xs, pluggedSize := pluggedSize v - oldBlocks * blockSize v\<rparr>,
                mem_response memRespACK 0))"

definition mem_state :: "u64 \<Rightarrow> u64 \<Rightarrow> Mem \<Rightarrow> (Mem \<times> bytes) option" where
  "mem_state first count v =
     (case slice_range (unat first) (unat (first + count)) (plugged v) of
        None \<Rightarrow> None
      | Some blocks \<Rightarrow>
          (let k = length (filter (\<lambda>b. b) blocks);
               state = (if k = 0 then memStateUnplugged
                        else if k = unat count then memStatePlugged else memStateMixed) in
           Some (v, mem_response memRespACK state)))"

definition mem_handleRequest :: "bytes \<Rightarrow> Mem \<Rightarrow> (Mem \<times> bytes) option" where
  "mem_handleRequest request v =
     (if length request < memRequestSize then Some (v, mem_response memRespError 0)
      else case Uint16_at 0 request of None \<Rightarrow> None | Some typeID \<Rightarrow>
      if typeID = memReqUnplugAll then Some (mem_reset v, mem_response memRespACK 0)
      else if typeID \<noteq> memReqPlug \<and> typeID \<noteq> memReqUnplug \<and> typeID \<noteq> memReqState
      then Some (v, mem_response memRespError 0)
      else case Uint64_at 8 request of None \<Rightarrow> None | Some a \<Rightarrow>
      case Uint16_at 16 request of None \<Rightarrow> None | Some n \<Rightarrow>
      let count = ucast n :: u64 in
      if count = 0 \<or> a < mem_addr v then Some (v, mem_response memRespError 0)
      else if blockSize v = 0 then None
      else if a mod blockSize v \<noteq> 0 then Some (v, mem_response memRespError 0)
      else let first = (a - mem_addr v) div blockSize v; n = of_nat (length (plugged v)) :: u64 in
      if first \<ge> n \<or> count > n - first then Some (v, mem_response memRespError 0)
      else if typeID = memReqPlug then mem_plug first count v
      else if typeID = memReqUnplug then mem_unplug first count v
      else mem_state first count v)"

definition mem_maxChainBytes :: "nat \<Rightarrow> u64" where
  "mem_maxChainBytes qn = of_nat (memRequestSize + memResponseSize)"

text \<open>One iteration of the queue handler on the chain it popped.\<close>

definition mem_step :: "nat \<Rightarrow> u16 \<Rightarrow> desc list \<Rightarrow> Core \<times> Mem \<Rightarrow> (Core \<times> Mem) outcome" where
  "mem_step qn head chain cv =
     (let c = fst cv; v = snd cv; (readable, writable) = splitChain chain in
      case (case readChains (mem c) readable of
              Inl _ \<Rightarrow> Some (v, mem_response memRespError 0)
            | Inr request \<Rightarrow> mem_handleRequest request v) of
        None \<Rightarrow> Panics
      | Some (v', response) \<Rightarrow>
          (let (c', written, _) = writeChains writable response c in Done (pushUsed qn head written c', v')))"

definition mem_handleQueue :: "nat \<Rightarrow> Core \<times> Mem \<Rightarrow> (Core \<times> Mem) outcome" where
  "mem_handleQueue qn cv =
     (if qn < length (queues (fst cv))
      then loop_result (drain (Some mem_maxChainBytes) (mem_step qn) qn cv) else Panics)"

definition MemDevice :: "Mem Device" where
  "MemDevice = \<lparr>deviceID = 24, features = (\<lambda>_. 0), numQueues = 1, configRead = mem_configRead,
     configWrite = (\<lambda>v _ _. v), dev_reset = mem_reset, handleQueue = mem_handleQueue\<rparr>"

section \<open>The accounting invariant\<close>

definition plugged_count :: "bool list \<Rightarrow> nat" where
  "plugged_count xs = length (filter (\<lambda>b. b) xs)"

text \<open>
  The blocks partition the region, the plugged size is the size of the plugged blocks, and
  it does not exceed what the device requests.
\<close>

definition mem_ok :: "Mem \<Rightarrow> bool" where
  "mem_ok v \<longleftrightarrow> blockSize v \<noteq> 0 \<and> unat (regionSize v) = unat (blockSize v) * length (plugged v) \<and>
     unat (pluggedSize v) = unat (blockSize v) * plugged_count (plugged v) \<and>
     unat (requestedSize v) mod unat (blockSize v) = 0 \<and>
     pluggedSize v \<le> requestedSize v \<and> requestedSize v \<le> regionSize v"

lemma plugged_count_simps [simp]:
  "plugged_count [] = 0" "plugged_count (b # xs) = (if b then Suc (plugged_count xs) else plugged_count xs)"
  "plugged_count (xs @ ys) = plugged_count xs + plugged_count ys"
  "plugged_count (replicate n b) = (if b then n else 0)"
  "plugged_count (map (\<lambda>_. False) xs) = 0"
  by (simp_all add: plugged_count_def)

lemma plugged_count_le: "plugged_count xs \<le> length xs"
  by (simp add: plugged_count_def)

lemma count_split:
  "length (filter (\<lambda>b. b) xs) = plugged_count xs"
  "length (filter (\<lambda>b. \<not> b) xs) = length xs - plugged_count xs"
  using sum_length_filter_compl [of "\<lambda>b. b" xs] by (simp_all add: plugged_count_def)

text \<open>A range of the bitmap set to one value, and the blocks of a range.\<close>

definition set_blocks :: "nat \<Rightarrow> nat \<Rightarrow> bool \<Rightarrow> bool list \<Rightarrow> bool list" where
  "set_blocks first count b xs = take first xs @ replicate count b @ drop (first + count) xs"

definition mem_window :: "u64 \<Rightarrow> u64 \<Rightarrow> Mem \<Rightarrow> bool list" where
  "mem_window first count v = take (unat count) (drop (unat first) (plugged v))"

lemma length_set_blocks [simp]:
  "first + count \<le> length xs \<Longrightarrow> length (set_blocks first count b xs) = length xs"
  by (simp add: set_blocks_def)

lemma nth_set_blocks:
  assumes "first + count \<le> length xs" and "i < length xs"
  shows "set_blocks first count b xs ! i = (if first \<le> i \<and> i < first + count then b else xs ! i)"
  using assms by (auto simp: set_blocks_def nth_append min_def)

lemma window_decompose:
  assumes "first + count \<le> length xs"
  shows "xs = take first xs @ take count (drop first xs) @ drop (first + count) xs"
  by (simp add: drop_drop [symmetric] add.commute del: drop_drop)

lemma plugged_count_window:
  assumes "first + count \<le> length xs"
  shows "plugged_count xs = plugged_count (take first xs) +
    plugged_count (take count (drop first xs)) + plugged_count (drop (first + count) xs)"
  by (subst window_decompose [OF assms]) simp

lemma plugged_count_set:
  assumes "first + count \<le> length xs"
  shows "plugged_count (set_blocks first count True xs) =
      plugged_count xs + (count - plugged_count (take count (drop first xs)))"
    and "plugged_count (set_blocks first count False xs) + plugged_count (take count (drop first xs)) =
      plugged_count xs"
proof -
  have "plugged_count (take count (drop first xs)) \<le> count"
    using plugged_count_le [of "take count (drop first xs)"] by (simp add: min_def split: if_splits)
  then show "plugged_count (set_blocks first count True xs) =
      plugged_count xs + (count - plugged_count (take count (drop first xs)))"
    and "plugged_count (set_blocks first count False xs) + plugged_count (take count (drop first xs)) =
      plugged_count xs"
    using plugged_count_window [OF assms] by (simp_all add: set_blocks_def)
qed

lemma set_blocks_0 [simp]: "set_blocks f 0 b xs = xs"
  by (simp add: set_blocks_def)

lemma set_blocks_Suc:
  assumes "f + Suc n \<le> length xs"
  shows "set_blocks (Suc f) n b (xs[f := b]) = set_blocks f (Suc n) b xs"
  using assms by (intro nth_equalityI) (auto simp: nth_set_blocks nth_list_update)

lemma upt_step: "[f ..< f + Suc n] = f # [Suc f ..< Suc f + n]"
  by (simp add: upt_conv_Cons del: upt_Suc)

lemma plug_loop_range: "f + n \<le> length xs \<Longrightarrow> plug_loop [f ..< f + n] xs = Some (set_blocks f n True xs)"
proof (induction n arbitrary: f xs)
  case (Suc n)
  show ?case
    unfolding upt_step using Suc.IH [of "Suc f" "xs[f := True]"] Suc.prems set_blocks_Suc [of f n xs True]
    by simp
qed simp

lemma unplug_loop_range:
  "f + n \<le> length xs \<Longrightarrow> unplug_loop [f ..< f + n] xs k
     = Some (set_blocks f n False xs, k + of_nat (plugged_count (take n (drop f xs))))"
proof (induction n arbitrary: f xs k)
  case (Suc n)
  have w: "take (Suc n) (drop f xs) = xs ! f # take n (drop (Suc f) xs)"
    using Suc.prems by (simp add: Cons_nth_drop_Suc [symmetric])
  have "xs[f := False] = xs" if "\<not> xs ! f" using that by (metis (full_types) list_update_id)
  then show ?case
    unfolding upt_step w
    using Suc.IH [of "Suc f" "xs[f := False]"] Suc.prems set_blocks_Suc [of f n xs False]
    by (cases "xs ! f") (simp_all add: algebra_simps)
qed simp

text \<open>The geometry and the request of the device, which no guest request changes.\<close>

definition mem_geometry :: "Mem \<Rightarrow> Mem \<Rightarrow> bool" where
  "mem_geometry v v' \<longleftrightarrow> mem_addr v' = mem_addr v \<and> regionSize v' = regionSize v \<and>
     blockSize v' = blockSize v \<and> requestedSize v' = requestedSize v \<and>
     length (plugged v') = length (plugged v)"

lemma mem_blocks_small: "mem_ok v \<Longrightarrow> length (plugged v) < 2 ^ 64"
proof -
  assume ok: "mem_ok v"
  then have "0 < unat (blockSize v)" by (simp add: mem_ok_def unat_gt_0)
  then have "length (plugged v) \<le> unat (regionSize v)" using ok by (simp add: mem_ok_def)
  then show ?thesis using unat_less_2p [of "regionSize v"] by simp
qed

lemma mem_range_end:
  fixes first count :: u64
  shows "mem_ok v \<Longrightarrow> unat first + unat count \<le> length (plugged v) \<Longrightarrow> unat (first + count) = unat first + unat count"
  using mem_blocks_small [of v] by (intro unat_add_no_wrap) simp

lemma mem_range:
  fixes first count :: u64
  assumes ok: "mem_ok v" and "first < of_nat (length (plugged v))"
    and "count \<le> of_nat (length (plugged v)) - first"
  shows "unat first + unat count \<le> length (plugged v)"
proof -
  have n: "unat (of_nat (length (plugged v)) :: u64) = length (plugged v)"
    using mem_blocks_small [OF ok] by (simp add: unat_of_nat take_bit_nat_eq_self_iff)
  have f: "unat first < length (plugged v)" using assms(2) n by (simp add: word_less_nat_alt)
  have "unat count \<le> length (plugged v) - unat first"
    using assms(3) n f unat_diff_le [of first "of_nat (length (plugged v))"]
    by (simp add: word_le_nat_alt less_imp_le)
  with f show ?thesis by simp
qed

text \<open>The cases of the switch on a range inside the bitmap: none of them panics.\<close>

lemma mem_plug_eq:
  assumes "mem_ok v" and "unat first + unat count \<le> length (plugged v)"
  shows "mem_plug first count v =
    (let newBlocks = of_nat (unat count - plugged_count (mem_window first count v)) in
     if newBlocks > (requestedSize v - pluggedSize v) div blockSize v
     then Some (v, mem_response memRespNACK 0)
     else Some (v\<lparr>plugged := set_blocks (unat first) (unat count) True (plugged v),
              pluggedSize := pluggedSize v + newBlocks * blockSize v\<rparr>, mem_response memRespACK 0))"
  using assms plug_loop_range [of "unat first" "unat count" "plugged v"]
    mem_range_end [OF assms]
  by (simp add: mem_plug_def mem_window_def count_split mem_ok_def Let_def)

lemma mem_unplug_eq:
  assumes "mem_ok v" and "unat first + unat count \<le> length (plugged v)"
  shows "mem_unplug first count v =
    Some (v\<lparr>plugged := set_blocks (unat first) (unat count) False (plugged v),
            pluggedSize := pluggedSize v - of_nat (plugged_count (mem_window first count v)) * blockSize v\<rparr>,
          mem_response memRespACK 0)"
  using assms unplug_loop_range [of "unat first" "unat count" "plugged v" 0]
  by (simp add: mem_unplug_def mem_range_end mem_window_def)

lemma mem_state_eq:
  assumes "mem_ok v" and "unat first + unat count \<le> length (plugged v)"
  shows "mem_state first count v =
    (let k = plugged_count (mem_window first count v) in
     Some (v, mem_response memRespACK (if k = 0 then memStateUnplugged
       else if k = unat count then memStatePlugged else memStateMixed)))"
  using assms by (simp add: mem_state_def mem_range_end mem_window_def count_split)

text \<open>A request that is answered: it does not panic and keeps the invariant and the geometry.\<close>

definition answered :: "Mem \<Rightarrow> (Mem \<times> bytes) option \<Rightarrow> bool" where
  "answered v r \<longleftrightarrow> (\<exists>v' response. r = Some (v', response) \<and> mem_ok v' \<and> mem_geometry v v')"

lemma mem_ok_plug:
  assumes ok: "mem_ok v" and range: "unat first + unat count \<le> length (plugged v)"
    and "unat count < 65536"
  shows "answered v (mem_plug first count v)"
proof -
  let ?k = "unat count - plugged_count (mem_window first count v)"
  let ?new = "of_nat ?k :: u64"
  have k: "unat ?new = ?k"
    using assms(3) by (simp add: unat_of_nat take_bit_nat_eq_self_iff)
  show ?thesis
  proof (cases "?new > (requestedSize v - pluggedSize v) div blockSize v")
    case True
    with ok show ?thesis by (simp add: mem_plug_eq [OF ok range] answered_def mem_geometry_def)
  next
    case False
    have le: "pluggedSize v \<le> requestedSize v" and bs: "0 < unat (blockSize v)"
      using ok by (simp_all add: mem_ok_def unat_gt_0)
    from False have "?k \<le> (unat (requestedSize v) - unat (pluggedSize v)) div unat (blockSize v)"
      using le k by (simp add: word_le_nat_alt unat_div unat_diff_le not_less)
    then have fit: "?k * unat (blockSize v) \<le> unat (requestedSize v) - unat (pluggedSize v)"
      using bs by (simp add: less_eq_div_iff_mult_less_eq)
    have small: "unat (requestedSize v) < 2 ^ 64" using unat_less_2p [of "requestedSize v"] by simp
    have mult: "unat (?new * blockSize v) = ?k * unat (blockSize v)"
      using fit small k by (simp add: unat_word_ariths)
    have sum: "unat (pluggedSize v + ?new * blockSize v) = unat (pluggedSize v) + ?k * unat (blockSize v)"
      using fit small mult le by (subst unat_add_no_wrap) (simp_all add: word_le_nat_alt)
    have cnt: "plugged_count (set_blocks (unat first) (unat count) True (plugged v)) =
        plugged_count (plugged v) + ?k"
      using plugged_count_set(1) [OF range] by (simp add: mem_window_def)
    from ok fit le show ?thesis
      using False sum cnt range
      by (auto simp: mem_plug_eq [OF ok range] answered_def mem_geometry_def mem_ok_def word_le_nat_alt algebra_simps)
  qed
qed

lemma mem_ok_unplug:
  assumes ok: "mem_ok v" and range: "unat first + unat count \<le> length (plugged v)"
  shows "answered v (mem_unplug first count v)"
proof -
  let ?k = "plugged_count (mem_window first count v)"
  have cnt: "plugged_count (set_blocks (unat first) (unat count) False (plugged v)) + ?k =
      plugged_count (plugged v)"
    using plugged_count_set(2) [OF range] by (simp add: mem_window_def)
  then have fit: "?k * unat (blockSize v) \<le> unat (pluggedSize v)"
    using ok by (auto simp: mem_ok_def algebra_simps add_mult_distrib2 [symmetric])
  have small: "unat (pluggedSize v) < 2 ^ 64" using unat_less_2p [of "pluggedSize v"] by simp
  have bs: "0 < unat (blockSize v)" using ok by (simp add: mem_ok_def unat_gt_0)
  have "?k * 1 \<le> ?k * unat (blockSize v)" using bs by (intro mult_le_mono2) simp
  then have "?k < 2 ^ 64" using fit small by linarith
  then have k: "unat (of_nat ?k :: u64) = ?k"
    by (simp add: unat_of_nat take_bit_nat_eq_self_iff)
  have mult: "unat (of_nat ?k * blockSize v) = ?k * unat (blockSize v)"
    using fit small k by (simp add: unat_word_ariths)
  have diff: "unat (pluggedSize v - of_nat ?k * blockSize v) = unat (pluggedSize v) - ?k * unat (blockSize v)"
    using fit mult by (subst unat_diff_le) (simp_all add: word_le_nat_alt)
  have eq: "unat (blockSize v) * plugged_count (plugged v) - ?k * unat (blockSize v) =
      unat (blockSize v) * plugged_count (set_blocks (unat first) (unat count) False (plugged v))"
    by (simp add: cnt [symmetric] algebra_simps)
  from ok show ?thesis
    using diff eq range
    by (auto simp: mem_unplug_eq [OF ok range] answered_def mem_geometry_def mem_ok_def word_le_nat_alt)
qed

lemma mem_ok_reset: "mem_ok v \<Longrightarrow> mem_ok (mem_reset v)"
  by (simp add: mem_ok_def mem_reset_def)

lemma answered_same: "mem_ok v \<Longrightarrow> answered v (Some (v, response))"
  by (simp add: answered_def mem_geometry_def)

lemma answered_reset: "mem_ok v \<Longrightarrow> answered v (Some (mem_reset v, response))"
  by (simp add: answered_def mem_ok_reset mem_geometry_def) (simp add: mem_reset_def)

lemma answered_state:
  "mem_ok v \<Longrightarrow> unat first + unat count \<le> length (plugged v) \<Longrightarrow> answered v (mem_state first count v)"
  by (simp add: mem_state_eq answered_same Let_def)

lemma answered_if:
  "(b \<Longrightarrow> answered v x) \<Longrightarrow> (\<not> b \<Longrightarrow> answered v y) \<Longrightarrow> answered v (if b then x else y)"
  by simp

lemma mem_handleRequest_answered [wf_intros]:
  assumes "mem_ok v"
  shows "answered v (mem_handleRequest request v)"
proof (cases "length request < memRequestSize")
  case True
  then show ?thesis using assms by (simp add: mem_handleRequest_def answered_same)
next
  case False
  then have at: "Uint16_at 0 request = Some (Uint16 request)" "Uint64_at 8 request = Some (Uint64 (drop 8 request))"
      "Uint16_at 16 request = Some (Uint16 (drop 16 request))"
    by (simp_all add: memRequestSize_def)
  have small: "unat (ucast (Uint16 x) :: u64) < 65536" for x
    using unat_less_2p [of "Uint16 x"] by simp
  have "blockSize v \<noteq> 0" using assms by (simp add: mem_ok_def)
  with False show ?thesis
    unfolding mem_handleRequest_def at Let_def option.case
    by (intro answered_if mem_ok_plug mem_ok_unplug answered_state mem_range small assms answered_same answered_reset)
      (simp_all add: not_le not_less)
qed

lemma mem_ok_new: "NewMem a region block = Inr v \<Longrightarrow> mem_ok v"
proof -
  assume new: "NewMem a region block = Inr v"
  then have "block \<noteq> 0" and "region mod block = 0" and v: "v = \<lparr>mem_addr = a, regionSize = region,
      blockSize = block, requestedSize = region, pluggedSize = 0,
      plugged = replicate (unat (region div block)) False\<rparr>"
    by (auto simp: NewMem_def Let_def split: if_splits)
  then have "unat region mod unat block = 0" by (metis unat_0 unat_mod_distrib)
  then have "unat region = unat block * (unat region div unat block)" by auto
  with v \<open>block \<noteq> 0\<close> \<open>unat region mod unat block = 0\<close> show ?thesis
    by (simp add: mem_ok_def unat_div)
qed

lemma mem_ok_DeferRequested: "mem_ok v \<Longrightarrow> pluggedSize v = 0 \<Longrightarrow> mem_ok (DeferRequested v)"
  by (simp add: mem_ok_def DeferRequested_def)

lemma mem_ok_RequestAll: "mem_ok v \<Longrightarrow> mem_ok (snd (RequestAll core v))"
  by (auto simp: RequestAll_def mem_ok_def split: option.splits)

section \<open>The device behind the transport\<close>

text \<open>A device that started as \<open>v0\<close>.\<close>

definition mem_from :: "Mem \<Rightarrow> Mem \<Rightarrow> bool" where
  "mem_from v0 v \<longleftrightarrow> mem_ok v \<and> mem_geometry v0 v"

lemma mem_step_ok:
  assumes "core_ok c" and "mem_from v0 v"
  shows "safely (\<lambda>(c', v'). core_ok c' \<and> same_config c c' \<and> mem_from v0 v') (mem_step qn head chain (c, v))"
proof -
  obtain rdb wrb where sp: "splitChain chain = (rdb, wrb)" by (cases "splitChain chain")
  have v: "mem_ok v" "mem_geometry v0 v" using assms(2) by (simp_all add: mem_from_def)
  have "answered v (case readChains (mem c) rdb of Inl _ \<Rightarrow> Some (v, mem_response memRespError 0)
      | Inr request \<Rightarrow> mem_handleRequest request v)"
    using v(1) by (auto simp: answered_same mem_handleRequest_answered split: sum.split)
  then obtain v1 resp where r: "(case readChains (mem c) rdb of Inl _ \<Rightarrow> Some (v, mem_response memRespError 0)
      | Inr request \<Rightarrow> mem_handleRequest request v) = Some (v1, resp)" "mem_ok v1" "mem_geometry v v1"
    by (auto simp: answered_def)
  then have "mem_from v0 v1" using v(2) by (simp add: mem_from_def mem_geometry_def)
  moreover obtain c1 w ok where wr: "writeChains wrb resp c = (c1, w, ok)"
    by (cases "writeChains wrb resp c") auto
  moreover have "core_ok c1" "same_config c c1"
    using core_ok_writeChains [OF assms(1), of wrb resp] assms(1)
      same_config_writeChains [of c wrb resp] wr by (simp_all add: core_ok_def)
  moreover have "mem_step qn head chain (c, v) = Done (pushUsed qn head w c1, v1)"
    using sp r(1) wr by (simp add: mem_step_def)
  ultimately show ?thesis
    using core_ok_pushUsed same_config_trans [OF _ same_config_pushUsed] by simp
qed

interpretation memq: chain_processor "Some mem_maxChainBytes" "mem_step qn" "mem_from v0" for qn v0
  by unfold_locales (rule mem_step_ok)

interpretation memdev: virtio_device MemDevice "mem_from v0" for v0
proof
  fix c v qn
  assume "core_ok c" "mem_from v0 v" "qn < length (queues c)"
  then show "safely (\<lambda>(c', d'). core_ok c' \<and> same_config c c' \<and> mem_from v0 d') (handleQueue MemDevice qn (c, v))"
    by (simp add: MemDevice_def mem_handleQueue_def memq.drain_ok)
qed (simp_all add: MemDevice_def mem_from_def mem_ok_reset, simp add: mem_geometry_def mem_reset_def)

section \<open>Functional behaviour of requests\<close>

text \<open>A request as the driver lays it out.\<close>

definition mem_request :: "u16 \<Rightarrow> u64 \<Rightarrow> u16 \<Rightarrow> bytes" where
  "mem_request kind a count =
     PutUint16 kind @ replicate 6 0 @ PutUint64 a @ PutUint16 count @ replicate 6 0"

lemma mem_request_fields [simp]:
  "length (mem_request kind a count) = memRequestSize"
  "Uint16 (mem_request kind a count) = kind"
  "Uint64 (drop 8 (mem_request kind a count)) = a"
  "Uint16 (drop 16 (mem_request kind a count)) = count"
  by (simp_all add: mem_request_def memRequestSize_def)

lemma mem_response_kind [simp]: "Uint16 (mem_response kind state) = kind"
  by (simp add: mem_response_def)

lemma mem_response_state [simp]: "Uint16 (drop 8 (mem_response kind state)) = state"
  by (simp add: mem_response_def)

definition first_block :: "u64 \<Rightarrow> Mem \<Rightarrow> u64" where
  "first_block a v = (a - mem_addr v) div blockSize v"

text \<open>The address check every ranged request passes before it reaches its case.\<close>

definition mem_valid :: "u64 \<Rightarrow> u16 \<Rightarrow> Mem \<Rightarrow> bool" where
  "mem_valid a n v \<longleftrightarrow> n \<noteq> 0 \<and> mem_addr v \<le> a \<and> a mod blockSize v = 0 \<and>
     first_block a v < of_nat (length (plugged v)) \<and>
     ucast n \<le> (of_nat (length (plugged v)) :: u64) - first_block a v"

lemma mem_handleRequest_ranged:
  assumes "mem_ok v" "kind \<in> {memReqPlug, memReqUnplug, memReqState}"
  shows "mem_handleRequest (mem_request kind a n) v =
    (if \<not> mem_valid a n v then Some (v, mem_response memRespError 0)
     else if kind = memReqPlug then mem_plug (first_block a v) (ucast n) v
     else if kind = memReqUnplug then mem_unplug (first_block a v) (ucast n) v
     else mem_state (first_block a v) (ucast n) v)"
proof -
  have bs: "blockSize v \<noteq> 0" using assms(1) by (simp add: mem_ok_def)
  have at: "Uint16_at 0 (mem_request kind a n) = Some kind" "Uint64_at 8 (mem_request kind a n) = Some a"
      "Uint16_at 16 (mem_request kind a n) = Some n"
    by (simp_all add: memRequestSize_def)
  have kind: "kind \<noteq> memReqUnplugAll"
      "\<not> (kind \<noteq> memReqPlug \<and> kind \<noteq> memReqUnplug \<and> kind \<noteq> memReqState)"
    using assms(2) by (auto simp: mem_consts)
  note go = mem_handleRequest_def [of "mem_request kind a n"] at option.case Let_def first_block_def [symmetric]
  show ?thesis
  proof (cases "mem_valid a n v")
    case True
    then have "n \<noteq> 0" "\<not> a < mem_addr v" "a mod blockSize v = 0" "\<not> of_nat (length (plugged v)) \<le> first_block a v"
        "\<not> of_nat (length (plugged v)) - first_block a v < (ucast n :: u64)"
      by (simp_all add: mem_valid_def not_le not_less)
    with True show ?thesis unfolding go by (simp add: kind bs ucast_u16_zero)
  next
    case False
    then have "n = 0 \<or> a < mem_addr v \<or> a mod blockSize v \<noteq> 0 \<or> of_nat (length (plugged v)) \<le> first_block a v \<or>
        of_nat (length (plugged v)) - first_block a v < (ucast n :: u64)"
      by (auto simp: mem_valid_def not_le not_less)
    then show ?thesis unfolding go using False by (elim disjE) (simp_all add: kind bs ucast_u16_zero)
  qed
qed

lemma mem_valid_frame:
  assumes "mem_addr v' = mem_addr v" "blockSize v' = blockSize v" "length (plugged v') = length (plugged v)"
  shows "mem_valid a n v' = mem_valid a n v" and "first_block a v' = first_block a v"
  using assms by (simp_all add: mem_valid_def first_block_def)

lemma mem_valid_range:
  "mem_ok v \<Longrightarrow> mem_valid a n v \<Longrightarrow> unat (first_block a v) + unat n \<le> length (plugged v)"
  using mem_range [of v "first_block a v" "ucast n"] by (simp add: mem_valid_def)

lemma mem_state_answer:
  assumes "mem_ok v" and "unat first + unat count \<le> length (plugged v)" and "count \<noteq> 0"
  shows "mem_state first count v = Some (v, mem_response memRespACK
    (if \<forall>i < unat count. plugged v ! (unat first + i) then memStatePlugged
     else if \<forall>i < unat count. \<not> plugged v ! (unat first + i) then memStateUnplugged
     else memStateMixed))"
proof -
  let ?w = "mem_window first count v"
  have len: "length ?w = unat count" using assms by (simp add: mem_window_def)
  have nth: "?w ! i = plugged v ! (unat first + i)" if "i < unat count" for i
    using that assms by (simp add: mem_window_def)
  have pos: "0 < unat count" using assms(3) by (simp add: unat_gt_0)
  have all: "(length (filter (\<lambda>b. b) ?w) = unat count) = (\<forall>i < unat count. plugged v ! (unat first + i))"
  proof -
    have "length (filter (\<lambda>b. b) ?w) + length (filter (\<lambda>b. \<not> b) ?w) = unat count"
      using sum_length_filter_compl [of "\<lambda>b. b" ?w] len by simp
    then have "(length (filter (\<lambda>b. b) ?w) = unat count) = (filter (\<lambda>b. \<not> b) ?w = [])"
      by (metis add_cancel_left_right length_0_conv)
    then show ?thesis using len nth by (simp add: filter_empty_conv all_set_conv_all_nth)
  qed
  have none: "(length (filter (\<lambda>b. b) ?w) = 0) = (\<forall>i < unat count. \<not> plugged v ! (unat first + i))"
    using len nth by (simp add: filter_empty_conv all_set_conv_all_nth)
  show ?thesis
    unfolding mem_state_eq [OF assms(1,2)] Let_def plugged_count_def using all none pos by auto
qed

lemma mem_plug_ack:
  assumes ok: "mem_ok v"
    and ack: "mem_handleRequest (mem_request memReqPlug a n) v = Some (v', mem_response memRespACK 0)"
  shows "mem_valid a n v"
    and "plugged v' = set_blocks (unat (first_block a v)) (unat n) True (plugged v)"
    and "requestedSize v' = requestedSize v" and "blockSize v' = blockSize v"
    and "mem_addr v' = mem_addr v"
proof -
  have neq: "mem_response memRespACK 0 \<noteq> mem_response k 0" if "k \<noteq> memRespACK" for k
    using that mem_response_kind by metis
  show valid: "mem_valid a n v"
    using ack neq [of memRespError] by (auto simp: mem_handleRequest_ranged [OF ok] mem_consts split: if_splits)
  have plug: "mem_plug (first_block a v) (ucast n) v = Some (v', mem_response memRespACK 0)"
    using ack valid by (simp add: mem_handleRequest_ranged [OF ok])
  then show "plugged v' = set_blocks (unat (first_block a v)) (unat n) True (plugged v)"
    and "requestedSize v' = requestedSize v" and "blockSize v' = blockSize v"
    and "mem_addr v' = mem_addr v"
    using neq [of memRespNACK] mem_valid_range [OF ok valid]
    by (auto simp: mem_plug_eq [OF ok] Let_def mem_consts split: if_splits)
qed

text \<open>C31. A plug request that \<open>Mem.handleRequest\<close> acknowledges turns on exactly the blocks of
  its range, leaves every other block as it was, and grows the plugged size by the blocks it
  turned on, without exceeding the requested size.\<close>

theorem mem_plug_exact:
  assumes ok: "mem_ok v"
    and ack: "mem_handleRequest (mem_request memReqPlug a n) v = Some (v', mem_response memRespACK 0)"
  shows "(\<forall>i < length (plugged v). plugged v' ! i \<longleftrightarrow>
      plugged v ! i \<or> unat (first_block a v) \<le> i \<and> i < unat (first_block a v) + unat n) \<and>
    unat (pluggedSize v') = unat (blockSize v) * plugged_count (plugged v') \<and>
    pluggedSize v' \<le> requestedSize v"
proof (intro conjI)
  note p = mem_plug_ack [OF ok ack]
  show "\<forall>i < length (plugged v). plugged v' ! i \<longleftrightarrow>
      plugged v ! i \<or> unat (first_block a v) \<le> i \<and> i < unat (first_block a v) + unat n"
    using nth_set_blocks [OF mem_valid_range [OF ok p(1)]] p(2) by auto
  have "mem_ok v'"
    using mem_handleRequest_answered [OF ok, of "mem_request memReqPlug a n"] ack by (simp add: answered_def)
  then show "unat (pluggedSize v') = unat (blockSize v) * plugged_count (plugged v')"
    and "pluggedSize v' \<le> requestedSize v"
    using p by (simp_all add: mem_ok_def)
qed

definition mem_sample :: Mem where
  "mem_sample = \<lparr>mem_addr = 0x1000, regionSize = 0x4000, blockSize = 0x1000, requestedSize = 0x3000,
     pluggedSize = 0x1000, plugged = [True, False, False, False]\<rparr>"

lemma mem_sample_ok: "mem_ok mem_sample"
  by (simp add: mem_ok_def mem_sample_def)

lemma mem_sample_plug:
  "mem_handleRequest (mem_request memReqPlug 0x1000 2) mem_sample =
     Some (mem_sample\<lparr>pluggedSize := 0x2000, plugged := [True, True, False, False]\<rparr>,
      mem_response memRespACK 0)"
  using mem_handleRequest_ranged [OF mem_sample_ok, of memReqPlug "0x1000" 2]
  by (simp add: mem_valid_def first_block_def mem_plug_def upt_rec slice_range_def mem_sample_def)

theorem mem_plug_exact_witness:
  "mem_ok mem_sample \<and>
   mem_handleRequest (mem_request memReqPlug 0x1000 2) mem_sample =
     Some (mem_sample\<lparr>pluggedSize := 0x2000, plugged := [True, True, False, False]\<rparr>,
      mem_response memRespACK 0) \<and>
   (0x2000 :: u64) \<le> requestedSize mem_sample"
  using mem_plug_exact [OF mem_sample_ok mem_sample_plug] mem_sample_plug mem_sample_ok by simp

text \<open>Querying the state of the blocks an acknowledged plug request covered answers
  ``plugged'', and after an unplug request on the same range it answers ``unplugged'': the
  device reports to the driver what the driver did.\<close>

theorem mem_plug_unplug_state:
  assumes ok: "mem_ok v"
    and ack: "mem_handleRequest (mem_request memReqPlug a n) v = Some (v', mem_response memRespACK 0)"
  shows "mem_handleRequest (mem_request memReqState a n) v' = Some (v', mem_response memRespACK memStatePlugged) \<and>
    (\<exists>u response. mem_handleRequest (mem_request memReqUnplug a n) v' = Some (u, response) \<and>
       mem_handleRequest (mem_request memReqState a n) u = Some (u, mem_response memRespACK memStateUnplugged))"
proof -
  note p = mem_plug_ack [OF ok ack]
  have ok': "mem_ok v'"
    using mem_handleRequest_answered [OF ok, of "mem_request memReqPlug a n"] ack by (simp add: answered_def)
  have valid': "mem_valid a n v'" "first_block a v' = first_block a v"
    using p mem_valid_frame [of v' v] mem_valid_range [OF ok p(1)] by simp_all
  have range: "unat (first_block a v) + unat n \<le> length (plugged v')"
    using mem_valid_range [OF ok' valid'(1)] valid'(2) by simp
  obtain u response where un: "mem_handleRequest (mem_request memReqUnplug a n) v' = Some (u, response)"
      "mem_ok u" "mem_geometry v' u"
    using mem_handleRequest_answered [OF ok', of "mem_request memReqUnplug a n"] by (auto simp: answered_def)
  have u: "plugged u = set_blocks (unat (first_block a v)) (unat n) False (plugged v')"
    using un(1) valid' range by (auto simp: mem_handleRequest_ranged [OF ok'] mem_unplug_eq [OF ok'] mem_consts)
  have valid_u: "mem_valid a n u" "first_block a u = first_block a v"
    using un(3) valid' mem_valid_frame [of u v'] by (simp_all add: mem_geometry_def)
  have nz: "(ucast n :: u64) \<noteq> 0" using p(1) by (simp add: mem_valid_def ucast_u16_zero)
  have pos: "0 < unat n" using p(1) by (simp add: mem_valid_def unat_gt_0)
  have st: "mem_handleRequest (mem_request memReqState a n) w = mem_state (first_block a w) (ucast n) w"
    if "mem_ok w" "mem_valid a n w" for w
    using that by (simp add: mem_handleRequest_ranged mem_consts)
  have "mem_handleRequest (mem_request memReqState a n) v' = Some (v', mem_response memRespACK memStatePlugged)"
    using st [OF ok' valid'(1)] valid'(2) range mem_valid_range [OF ok p(1)] nz p
    by (simp add: mem_state_answer [OF ok'] nth_set_blocks)
  moreover have "mem_handleRequest (mem_request memReqState a n) u = Some (u, mem_response memRespACK memStateUnplugged)"
    using st [OF un(2) valid_u(1)] valid_u(2) range nz u pos
    by (auto simp: mem_state_answer [OF un(2)] nth_set_blocks)
  ultimately show ?thesis using un(1) by blast
qed

text \<open>C10. Whatever register writes a guest performs on a freshly created virtio-mem device, and whatever
  requests it puts on the queue, no write panics: neither the transport nor the request handler slices
  or indexes out of range or divides by zero. After every run that returns, the device still has the
  region, block size and request it was created with, the plugged size is the size of the plugged
  blocks, and it is at most that region.\<close>

theorem mem_guest_run_safe:
  assumes "NewMem a region block = Inr v" and "ram_ok m"
  shows "mmio_run MemDevice ws (NewCoreAt MemDevice m b i, v) \<noteq> Panics \<and>
    (\<forall>c v'. mmio_run MemDevice ws (NewCoreAt MemDevice m b i, v) = Done (c, v') \<longrightarrow>
      core_ok c \<and> mem_addr v' = a \<and> regionSize v' = region \<and> blockSize v' = block \<and> requestedSize v' = region \<and>
      length (plugged v') = unat region div unat block \<and>
      unat (pluggedSize v') = unat block * plugged_count (plugged v') \<and> pluggedSize v' \<le> region)"
proof -
  have v: "mem_ok v" "mem_addr v = a" "regionSize v = region" "blockSize v = block" "requestedSize v = region"
      "length (plugged v) = unat region div unat block"
    using mem_ok_new [OF assms(1)] assms(1) by (auto simp: NewMem_def unat_div Let_def split: if_splits)
  then have "memdev.machine_ok v (NewCoreAt MemDevice m b i, v)"
    using memdev.machine_ok_new [OF assms(2)] by (simp add: mem_from_def mem_geometry_def)
  note run = memdev.mmio_run_ok [OF this, of ws]
  have "core_ok c \<and> mem_addr v' = a \<and> regionSize v' = region \<and> blockSize v' = block \<and> requestedSize v' = region \<and>
      length (plugged v') = unat region div unat block \<and>
      unat (pluggedSize v') = unat block * plugged_count (plugged v') \<and> pluggedSize v' \<le> region"
    if "mmio_run MemDevice ws (NewCoreAt MemDevice m b i, v) = Done (c, v')" for c v'
  proof -
    have "core_ok c" "mem_ok v'" "mem_geometry v v'"
      using run that by (simp_all add: memdev.machine_ok_def mem_from_def)
    then show ?thesis using v by (simp add: mem_geometry_def mem_ok_def)
  qed
  with run show ?thesis by blast
qed

theorem mem_guest_run_safe_witness:
  "\<exists>v m c v'. NewMem 0x1000 0x4000 0x1000 = Inr v \<and> ram_ok m \<and>
    mmio_run MemDevice [(0x038, 4), (0x044, 1), (0x070, 0)] (NewCoreAt MemDevice m 0 5, v) = Done (c, v') \<and>
    blockSize v' = 0x1000 \<and> length (plugged v') = 4 \<and> pluggedSize v' \<le> 0x4000"
proof -
  obtain v where v: "NewMem 0x1000 0x4000 0x1000 = Inr v" by (simp add: NewMem_def)
  have m: "ram_ok (NewRAM (replicate 64 0) 0)" by (simp add: ram_ok_NewRAM)
  obtain c v' where "mmio_run MemDevice [(0x038, 4), (0x044, 1), (0x070, 0)]
      (NewCoreAt MemDevice (NewRAM (replicate 64 0) 0) 0 5, v) = Done (c, v')"
    by (simp add: MMIOWrite_def at_selected_def NewCoreAt_def MemDevice_def virtqSize_def)
  with mem_guest_run_safe [OF v m, of "[(0x038, 4), (0x044, 1), (0x070, 0)]" 0 5] v m show ?thesis
    by auto
qed

theorem mem_plug_unplug_state_witness:
  "mem_ok mem_sample \<and>
   mem_handleRequest (mem_request memReqState 0x1000 2)
     (mem_sample\<lparr>pluggedSize := 0x2000, plugged := [True, True, False, False]\<rparr>) =
   Some (mem_sample\<lparr>pluggedSize := 0x2000, plugged := [True, True, False, False]\<rparr>,
     mem_response memRespACK memStatePlugged)"
  using mem_plug_unplug_state [OF mem_sample_ok mem_sample_plug] mem_sample_ok by simp

end
