(* ===== verification/Virtio_Blk.thy ===== *)
theory Virtio_Blk
  imports Virtqueue_Correct
begin

text \<open>
  The virtio-blk device, \<open>internal/virtio/vblk.go\<close>: a file-backed disk with a read-only mode.
  The host file is its bytes and a schedule of I/O faults: each file operation consumes one
  entry, \<open>Some k\<close> fails after \<open>k\<close> bytes; an empty schedule is a host that no longer fails.
\<close>

record Blk =
  image :: bytes
  ioFaults :: "nat option list"
  blk_size :: u64
  writable :: bool
  blk_lock :: bool

definition BlkTIn :: u32 where "BlkTIn = 0"
definition BlkTOut :: u32 where "BlkTOut = 1"
definition BlkTFlush :: u32 where "BlkTFlush = 4"
definition BlkTGetID :: u32 where "BlkTGetID = 8"
definition BlkSOK :: byte where "BlkSOK = 0"
definition BlkSIOErr :: byte where "BlkSIOErr = 1"
definition BlkSUnsupported :: byte where "BlkSUnsupported = 2"
definition BlkFRO :: nat where "BlkFRO = 5"
definition BlkFFlush :: nat where "BlkFFlush = 9"
definition blkMaxChainBytes :: u64 where "blkMaxChainBytes = 32 * 0x20000 + 4096"

lemmas blk_consts = BlkTIn_def BlkTOut_def BlkTFlush_def BlkTGetID_def BlkSOK_def BlkSIOErr_def
  BlkSUnsupported_def BlkFRO_def BlkFFlush_def

section \<open>The host file\<close>

definition next_fault :: "Blk \<Rightarrow> nat option \<times> Blk" where
  "next_fault b = (case ioFaults b of [] \<Rightarrow> (None, b) | f # fs \<Rightarrow> (f, b\<lparr>ioFaults := fs\<rparr>))"

text \<open>\<open>os.File.ReadAt\<close>: the whole buffer or an error; reading past the end is an error.\<close>

definition file_ReadAt :: "nat \<Rightarrow> nat \<Rightarrow> Blk \<Rightarrow> Blk \<times> bytes option" where
  "file_ReadAt n off b =
     (if n = 0 then (b, Some [])
      else case next_fault b of
        (Some _, b') \<Rightarrow> (b', None)
      | (None, b') \<Rightarrow> (b', slice off n (image b')))"

definition file_write :: "nat \<Rightarrow> bytes \<Rightarrow> bytes \<Rightarrow> bytes" where
  "file_write off p img =
     (if p = [] then img
      else splice off p (img @ replicate (off + length p - length img) 0))"

text \<open>\<open>os.File.WriteAt\<close>: a failing write may have stored a prefix of the buffer.\<close>

definition file_WriteAt :: "nat \<Rightarrow> bytes \<Rightarrow> Blk \<Rightarrow> Blk \<times> bool" where
  "file_WriteAt off p b =
     (if p = [] then (b, True)
      else case next_fault b of
        (Some k, b') \<Rightarrow> (b'\<lparr>image := file_write off (take k p) (image b')\<rparr>, False)
      | (None, b') \<Rightarrow> (b'\<lparr>image := file_write off p (image b')\<rparr>, True))"

definition file_Sync :: "Blk \<Rightarrow> Blk \<times> bool" where
  "file_Sync b = (case next_fault b of (f, b') \<Rightarrow> (b', f = None))"

section \<open>The device\<close>

definition blk_features :: "Blk \<Rightarrow> u64" where
  "blk_features b = (if writable b then push_bit BlkFFlush 1 else push_bit BlkFRO 1)"

definition blk_config :: "Blk \<Rightarrow> bytes" where
  "blk_config b = PutUint64 (blk_size b div 512) @ PutUint32 0x20000 @ PutUint32 32 @
     replicate 4 0 @ PutUint32 512 @ replicate 40 0"

definition blk_configRead :: "Blk \<Rightarrow> u64 \<Rightarrow> bytes \<Rightarrow> bytes" where
  "blk_configRead b offs p =
     (if unat offs < length (blk_config b)
      then let src = take (length p) (drop (unat offs) (blk_config b)) in src @ drop (length src) p
      else p)"

text \<open>The lengths of the data descriptors, summed as \<open>uint32\<close>.\<close>

definition data_len :: "desc list \<Rightarrow> u32" where
  "data_len ds = sum_list (map d_len ds)"

text \<open>
  The range check of both transfer directions: the sector is inside the image before it is
  multiplied by 512, and the end, an \<open>int64\<close>, does not exceed the image size.
\<close>

definition blk_in_range :: "u64 \<Rightarrow> u32 \<Rightarrow> Blk \<Rightarrow> bool" where
  "blk_in_range sector dataLen b \<longleftrightarrow> \<not> sector > drop_bit 9 (blk_size b) \<and>
     sint (sector * 512 + ucast dataLen) \<le> sint (blk_size b)"

definition blk_read :: "u64 \<Rightarrow> desc list \<Rightarrow> Core \<times> Blk \<Rightarrow> byte \<times> u32 \<times> Core \<times> Blk" where
  "blk_read sector data cb =
     (let c = fst cb; b = snd cb; dataLen = data_len data in
      if \<not> blk_in_range sector dataLen b then (BlkSIOErr, 0, c, b)
      else case file_ReadAt (unat dataLen) (unat (sector * 512)) b of
        (b', None) \<Rightarrow> (BlkSIOErr, 0, c, b')
      | (b', Some buf) \<Rightarrow>
          (case writeChains data buf c of
             (c', n, None) \<Rightarrow> (BlkSOK, n, c', b')
           | (c', n, Some _) \<Rightarrow> (BlkSIOErr, 0, c', b')))"

definition blk_write :: "u64 \<Rightarrow> desc list \<Rightarrow> Core \<times> Blk \<Rightarrow> byte \<times> u32 \<times> Core \<times> Blk" where
  "blk_write sector data cb =
     (let c = fst cb; b = snd cb; dataLen = data_len data in
      if \<not> writable b then (BlkSUnsupported, 0, c, b)
      else case readChains (mem c) data of
        Inl _ \<Rightarrow> (BlkSIOErr, 0, c, b)
      | Inr buf \<Rightarrow>
          (if of_nat (length buf) \<noteq> dataLen then (BlkSIOErr, 0, c, b)
           else if \<not> blk_in_range sector dataLen b then (BlkSIOErr, 0, c, b)
           else case file_WriteAt (unat (sector * 512)) buf b of
             (b', ok) \<Rightarrow> (if ok then BlkSOK else BlkSIOErr, 0, c, b')))"

definition blk_flush :: "Core \<times> Blk \<Rightarrow> byte \<times> u32 \<times> Core \<times> Blk" where
  "blk_flush cb =
     (if writable (snd cb)
      then case file_Sync (snd cb) of (b', ok) \<Rightarrow> (if ok then BlkSOK else BlkSIOErr, 0, fst cb, b')
      else (BlkSOK, 0, cb))"

text \<open>``gantry-blk'' padded to 20 bytes.\<close>

definition blk_id :: bytes where
  "blk_id = [103, 97, 110, 116, 114, 121, 45, 98, 108, 107] @ replicate 10 0"

definition blk_get_id :: "desc list \<Rightarrow> Core \<times> Blk \<Rightarrow> byte \<times> u32 \<times> Core \<times> Blk" where
  "blk_get_id data cb =
     (case writeChains data blk_id (fst cb) of
        (c', n, e) \<Rightarrow> (BlkSOK, if e = None then n else 0, c', snd cb))"

text \<open>\<open>in[:len(in)-1]\<close> and \<open>in[len(in)-1]\<close>, which panic when there is no descriptor.\<close>

definition data_descs :: "desc list \<Rightarrow> desc list option" where
  "data_descs inn = (if inn = [] then None else slice_to (length inn - 1) inn)"

definition status_desc :: "desc list \<Rightarrow> desc option" where
  "status_desc inn = (if inn = [] then None else index_at (length inn - 1) inn)"

text \<open>The request switch; \<open>None\<close> is the panic of one of its slices.\<close>

definition blk_request ::
  "u32 \<Rightarrow> u64 \<Rightarrow> desc list \<Rightarrow> desc list \<Rightarrow> Core \<times> Blk \<Rightarrow> (byte \<times> u32 \<times> Core \<times> Blk) option" where
  "blk_request reqType sector out inn cb =
     (if reqType = BlkTIn then map_option (\<lambda>data. blk_read sector data cb) (data_descs inn)
      else if reqType = BlkTOut then
        (if \<not> writable (snd cb) then Some (BlkSUnsupported, 0, cb)
         else map_option (\<lambda>data. blk_write sector data cb) (slice_from 1 out))
      else if reqType = BlkTFlush then Some (blk_flush cb)
      else if reqType = BlkTGetID then map_option (\<lambda>data. blk_get_id data cb) (data_descs inn)
      else Some (BlkSUnsupported, 0, cb))"

text \<open>The status byte goes to the last descriptor; a failing write is only logged.\<close>

definition blk_write_status :: "desc \<Rightarrow> byte \<Rightarrow> Core \<Rightarrow> Core" where
  "blk_write_status st code c =
     (case writeAt (mem c) (d_addr st) [code] of Inl _ \<Rightarrow> c | Inr m \<Rightarrow> c\<lparr>mem := m\<rparr>)"

definition blk_step :: "nat \<Rightarrow> u16 \<Rightarrow> desc list \<Rightarrow> Core \<times> Blk \<Rightarrow> (Core \<times> Blk) outcome" where
  "blk_step qn head chain cb =
     (let c = fst cb; b = snd cb; (out, inn) = splitChain chain in
      if out = [] \<or> inn = [] then Done (pushUsed qn head 0 c, b)
      else case slice_to 1 out of None \<Rightarrow> Panics | Some first \<Rightarrow>
      case readChains (mem c) first of
        Inl _ \<Rightarrow> Done (pushUsed qn head 0 c, b)
      | Inr hdr \<Rightarrow>
          (if length hdr < 16 then Done (pushUsed qn head 0 c, b)
           else case Uint32_at 0 hdr of None \<Rightarrow> Panics | Some reqType \<Rightarrow>
           case Uint64_at 8 hdr of None \<Rightarrow> Panics | Some sector \<Rightarrow>
           case blk_request reqType sector out inn (c, b) of None \<Rightarrow> Panics | Some (code, written, c1, b1) \<Rightarrow>
           case status_desc inn of None \<Rightarrow> Panics | Some st \<Rightarrow>
             Done (pushUsed qn head (written + 1) (blk_write_status st code c1), b1)))"

definition blk_maxChainBytes :: "nat \<Rightarrow> u64" where
  "blk_maxChainBytes qn = blkMaxChainBytes"

definition blk_handleQueue :: "nat \<Rightarrow> Core \<times> Blk \<Rightarrow> (Core \<times> Blk) outcome" where
  "blk_handleQueue qn cb =
     (if qn < length (queues (fst cb))
      then loop_result (drain (Some blk_maxChainBytes) (blk_step qn) qn cb) else Panics)"

definition BlkDevice :: "Blk Device" where
  "BlkDevice = \<lparr>deviceID = 2, features = blk_features, numQueues = 1, configRead = blk_configRead,
     configWrite = (\<lambda>b _ _. b), dev_reset = (\<lambda>b. b), handleQueue = blk_handleQueue\<rparr>"

text \<open>
  Attaching an open file: \<open>tryLock\<close> and \<open>fileSize\<close> are what the host's lock and stat calls
  answer. A supervisor that already holds the lock attaches with \<open>prelocked\<close>.
\<close>

datatype blk_error = AlreadyAttached | StatFailed

definition newBlkFile :: "bool \<Rightarrow> nat option \<Rightarrow> bytes \<Rightarrow> nat option list \<Rightarrow> bool \<Rightarrow> bool \<Rightarrow> blk_error + Blk" where
  "newBlkFile tryLock fileSize file faults wr prelocked =
     (if wr \<and> \<not> prelocked \<and> \<not> tryLock then Inl AlreadyAttached
      else case fileSize of
        None \<Rightarrow> Inl StatFailed
      | Some sz \<Rightarrow> Inr \<lparr>image = file, ioFaults = faults, blk_size = of_nat sz, writable = wr,
                          blk_lock = (wr \<and> \<not> prelocked)\<rparr>)"

definition NewBlkFile :: "bool \<Rightarrow> nat option \<Rightarrow> bytes \<Rightarrow> nat option list \<Rightarrow> bool \<Rightarrow> blk_error + Blk" where
  "NewBlkFile tryLock fileSize file faults wr = newBlkFile tryLock fileSize file faults wr False"

definition NewBlkFilePrelocked :: "bool \<Rightarrow> nat option \<Rightarrow> bytes \<Rightarrow> nat option list \<Rightarrow> bool \<Rightarrow> blk_error + Blk" where
  "NewBlkFilePrelocked tryLock fileSize file faults wr = newBlkFile tryLock fileSize file faults wr True"

text \<open>\<open>Close\<close> syncs a writable image and releases the lock; the result is whether the sync worked.\<close>

definition blk_Close :: "Blk \<Rightarrow> Blk \<times> bool" where
  "blk_Close b =
     (case (if writable b then file_Sync b else (b, True)) of (b', ok) \<Rightarrow> (b'\<lparr>blk_lock := False\<rparr>, ok))"

section \<open>The image invariant\<close>

text \<open>
  The image keeps the size it was opened with, below $2^{62}$ bytes so that the \<open>int64\<close>
  arithmetic of the range check is exact, and a read-only image is never changed.
\<close>

definition blk_ok :: "bytes \<Rightarrow> Blk \<Rightarrow> bool" where
  "blk_ok img b \<longleftrightarrow> length (image b) = unat (blk_size b) \<and> unat (blk_size b) < 2 ^ 62 \<and>
     (\<not> writable b \<longrightarrow> image b = img)"

text \<open>The state of a disk attached to a file, writable or not.\<close>

definition blk_attached :: "bytes \<Rightarrow> bool \<Rightarrow> Blk \<Rightarrow> bool" where
  "blk_attached file wr b \<longleftrightarrow> blk_ok file b \<and> unat (blk_size b) = length file \<and> writable b = wr"

lemma blk_in_range_nat:
  assumes "unat (blk_size b) < 2 ^ 62" and "blk_in_range sector n b"
  shows "unat (sector * 512) = unat sector * 512" and "unat sector * 512 + unat n \<le> unat (blk_size b)"
proof -
  have "unat sector \<le> unat (blk_size b) div 512"
    using assms(2) by (simp add: blk_in_range_def not_less word_le_nat_alt drop_bit_eq_div unat_div)
  then have s: "unat sector * 512 \<le> unat (blk_size b)" by linarith
  then show u: "unat (sector * 512) = unat sector * 512"
    using assms(1) by (simp add: unat_word_ariths)
  have sum: "unat (sector * 512 + ucast n) = unat sector * 512 + unat n"
    using s assms(1) unat_less_2p [of n] u by (subst unat_add_no_wrap) simp_all
  have small: "unat sector * 512 + unat n < 2 ^ 63"
    using s assms(1) unat_less_2p [of n] by simp
  have pos: "sint w = int (unat w)" if "unat w < 2 ^ 63" for w :: u64
  proof -
    from that have "int (unat w) < int (2 ^ 63)" by (simp only: of_nat_less_iff)
    then have "uint w < 2 ^ 63" by simp
    moreover have "- 9223372036854775808 \<le> uint w" by (rule order.trans [of _ 0]) simp_all
    ultimately have "sint w = uint w" by (simp add: sint_uint signed_take_bit_int_eq_self)
    then show ?thesis by simp
  qed
  have "int (unat (sector * 512 + ucast n)) \<le> int (unat (blk_size b))"
    using assms(2) pos [of "sector * 512 + ucast n"] pos [of "blk_size b"] sum small assms(1)
    by (simp add: blk_in_range_def)
  then have "unat (sector * 512 + ucast n) \<le> unat (blk_size b)" by (simp only: of_nat_le_iff)
  with sum show "unat sector * 512 + unat n \<le> unat (blk_size b)" by simp
qed

lemma file_write_inside:
  assumes "off + length p \<le> length img"
  shows "file_write off p img = splice off p img" and "length (file_write off p img) = length img"
  using assms by (auto simp: file_write_def splice_def)

lemma next_fault_frame [simp]:
  "next_fault b = (f, b') \<Longrightarrow> image b' = image b \<and> blk_size b' = blk_size b \<and> writable b' = writable b"
  by (auto simp: next_fault_def split: list.splits)

lemma blk_attached_ReadAt: "blk_attached file wr b \<Longrightarrow> blk_attached file wr (fst (file_ReadAt n off b))"
  by (auto simp: file_ReadAt_def blk_attached_def blk_ok_def split: prod.splits option.splits
      dest: next_fault_frame)

lemma blk_attached_Sync: "blk_attached file wr b \<Longrightarrow> blk_attached file wr (fst (file_Sync b))"
  by (auto simp: file_Sync_def blk_attached_def blk_ok_def split: prod.splits dest: next_fault_frame)

lemma blk_attached_WriteAt:
  assumes "blk_attached file wr b" and "writable b" and "off + length p \<le> length (image b)"
  shows "blk_attached file wr (fst (file_WriteAt off p b))"
proof -
  have "length (file_write off (take k p) (image b)) = length (image b)" for k
    using assms(3) by (intro file_write_inside) simp
  moreover have "length (file_write off p (image b)) = length (image b)"
    using assms(3) by (rule file_write_inside)
  ultimately show ?thesis
    using assms(1,2)
    by (auto simp: file_WriteAt_def blk_attached_def blk_ok_def split: prod.splits option.splits
        dest: next_fault_frame)
qed

section \<open>The device behind the transport\<close>

definition request_ok :: "bytes \<Rightarrow> bool \<Rightarrow> Core \<Rightarrow> byte \<times> u32 \<times> Core \<times> Blk \<Rightarrow> bool" where
  "request_ok file wr c r \<longleftrightarrow> (case r of (_, _, c', b') \<Rightarrow> core_ok c' \<and> same_config c c' \<and> blk_attached file wr b')"

lemma request_ok_writeChains:
  assumes "core_ok c" and "writeChains ds data c = (c', n, e)"
  shows "core_ok c' \<and> same_config c c'"
  using core_ok_writeChains [OF assms(1), of ds data] same_config_writeChains [of c ds data] assms
  by (simp add: core_ok_def)

lemma request_ok_read:
  assumes "core_ok c" and "blk_attached file wr b"
  shows "request_ok file wr c (blk_read sector data (c, b))"
  using assms blk_attached_ReadAt [OF assms(2), of "unat (data_len data)" "unat (sector * 512)"]
    request_ok_writeChains [OF assms(1), of data]
  by (auto simp: blk_read_def request_ok_def Let_def split: prod.splits option.splits)

lemma length_readChains:
  assumes "ram_ok m" and "readChains m ds = Inr p"
  shows "length p = desc_bytes ds"
proof -
  have "read_descs m ds = Inr q \<Longrightarrow> length q = desc_bytes ds" for q
  proof (induction ds arbitrary: q)
    case (Cons d ds)
    then show ?case using gmem.rd_Inr [OF assms(1)] by (auto split: sum.splits)
  qed simp
  with assms(2) show ?thesis by (auto simp: readChains_def split: option.splits sum.splits)
qed

lemma request_ok_write:
  assumes "core_ok c" and "blk_attached file wr b" and "desc_bytes data < 2 ^ 32"
  shows "request_ok file wr c (blk_write sector data (c, b))"
proof -
  have "request_ok file wr c (case file_WriteAt (unat (sector * 512)) buf b of
      (b', ok) \<Rightarrow> (if ok then BlkSOK else BlkSIOErr, 0, c, b'))"
    if "of_nat (length buf) = data_len data" "readChains (mem c) data = Inr buf" "writable b"
      "blk_in_range sector (data_len data) b" for buf
  proof -
    have "length buf < 2 ^ 32"
      using length_readChains [OF _ that(2)] assms(1,3) by (simp add: core_ok_def)
    then have "unat (data_len data) = length buf"
      by (simp add: that(1) [symmetric] unat_of_nat)
    then have "unat (sector * 512) + length buf \<le> length (image b)"
      using blk_in_range_nat [OF _ that(4)] assms(2) by (simp add: blk_attached_def blk_ok_def)
    from blk_attached_WriteAt [OF assms(2) that(3) this] assms(1) show ?thesis
      by (auto simp: request_ok_def split: prod.splits)
  qed
  then show ?thesis
    using assms by (auto simp: blk_write_def request_ok_def Let_def split: sum.splits prod.splits)
qed

lemma request_ok_request:
  assumes "core_ok c" and "blk_attached file wr b" and "desc_bytes out < 2 ^ 32" and "out \<noteq> []" and "inn \<noteq> []"
  shows "case blk_request reqType sector out inn (c, b) of None \<Rightarrow> False | Some r \<Rightarrow> request_ok file wr c r"
proof -
  have descs: "data_descs inn = Some (butlast inn)" "slice_from (Suc 0) out = Some (tl out)"
    using assms(4,5)
    by (simp_all add: data_descs_def butlast_conv_take slice_from_def drop_Suc Suc_le_eq)
  have "desc_bytes (tl out) < 2 ^ 32" using assms(3) by (cases out) simp_all
  moreover have "request_ok file wr c (blk_flush (c, b))"
    using assms blk_attached_Sync [OF assms(2)]
    by (auto simp: blk_flush_def request_ok_def split: prod.splits)
  moreover have "request_ok file wr c (blk_get_id ds (c, b))" for ds
    using assms request_ok_writeChains [OF assms(1), of ds]
    by (auto simp: blk_get_id_def request_ok_def split: prod.splits)
  moreover have "request_ok file wr c (BlkSUnsupported, 0, c, b)"
    using assms(1,2) by (simp add: request_ok_def)
  ultimately show ?thesis
    using request_ok_read [OF assms(1,2)] request_ok_write [OF assms(1,2)]
    by (auto simp: blk_request_def descs)
qed

lemma blk_write_status_ok:
  assumes "core_ok c"
  shows "core_ok (blk_write_status st code c) \<and> same_config c (blk_write_status st code c)"
proof (cases "writeAt (mem c) (d_addr st) [code]")
  case (Inr m)
  have "ram_ok m" using writeAt_ram_ok [OF _ Inr] assms by (simp add: core_ok_def)
  moreover have "same_config c (c\<lparr>mem := m\<rparr>)" using writeAt_regions [OF Inr] by (simp add: same_config_mem)
  ultimately show ?thesis using Inr assms by (simp add: blk_write_status_def core_ok_mem_update)
qed (use assms in \<open>simp add: blk_write_status_def\<close>)

lemma blk_step_ok:
  assumes "core_ok c" and "blk_attached file wr b" and "deliverable (Some blk_maxChainBytes) qm c chain"
  shows "safely (\<lambda>(c', b'). core_ok c' \<and> same_config c c' \<and> blk_attached file wr b') (blk_step qn head chain (c, b))"
proof -
  obtain out inn where sp: "splitChain chain = (out, inn)" by (cases "splitChain chain")
  have push: "core_ok (pushUsed qn head w x) \<and> same_config c (pushUsed qn head w x)"
    if "core_ok x" "same_config c x" for w x
    using that core_ok_pushUsed same_config_trans [OF _ same_config_pushUsed] by blast
  have small: "desc_bytes out < 2 ^ 32"
    using assms(3) splitChain_append [OF sp]
    by (simp add: deliverable_def chainLimit_def blk_maxChainBytes_def blkMaxChainBytes_def)
  have returned: ?thesis if "blk_step qn head chain (c, b) = Done (pushUsed qn head 0 c, b)"
    using that push [OF assms(1) same_config_refl] assms(2) by simp
  show ?thesis
  proof (cases "out = [] \<or> inn = []")
    case True
    then show ?thesis using sp by (intro returned) (simp add: blk_step_def)
  next
    case False
    then have ne: "out \<noteq> []" "inn \<noteq> []" by simp_all
    then have first: "slice_to 1 out = Some (take 1 out)" by (simp add: Suc_le_eq)
    have st: "status_desc inn = Some (last inn)"
      using ne(2) by (simp add: status_desc_def last_conv_nth)
    show ?thesis
    proof (cases "\<exists>hdr. readChains (mem c) (take 1 out) = Inr hdr \<and> \<not> length hdr < 16")
      case False
      then show ?thesis using sp ne first
        by (intro returned) (auto simp: blk_step_def Let_def split: sum.split)
    next
      case True
      then obtain hdr where hdr: "readChains (mem c) (take 1 out) = Inr hdr" "16 \<le> length hdr" by auto
      obtain code w c1 b1 where
        r: "blk_request (Uint32 hdr) (Uint64 (drop 8 hdr)) out inn (c, b) = Some (code, w, c1, b1)"
        and ok: "core_ok c1" "same_config c c1" "blk_attached file wr b1"
        using request_ok_request [OF assms(1,2) small ne, of "Uint32 hdr" "Uint64 (drop 8 hdr)"]
        by (auto simp: request_ok_def split: option.splits)
      have "blk_step qn head chain (c, b)
          = Done (pushUsed qn head (w + 1) (blk_write_status (last inn) code c1), b1)"
        using sp ne first hdr r st by (simp add: blk_step_def)
      then show ?thesis using push blk_write_status_ok [OF ok(1)] same_config_trans [OF ok(2)] ok(3) by simp
    qed
  qed
qed

interpretation blkq: chain_processor "Some blk_maxChainBytes" "blk_step qn" "blk_attached img wr" for qn img wr
  by unfold_locales (rule blk_step_ok)

interpretation blkdev: virtio_device BlkDevice "blk_attached img wr" for img wr
proof
  fix c b qn
  assume "core_ok c" "blk_attached img wr b" "qn < length (queues c)"
  then show "safely (\<lambda>(c', d'). core_ok c' \<and> same_config c c' \<and> blk_attached img wr d')
      (handleQueue BlkDevice qn (c, b))"
    by (simp add: BlkDevice_def blk_handleQueue_def blkq.drain_ok)
qed (simp_all add: BlkDevice_def)

section \<open>Properties of the disk\<close>

text \<open>C11. Whatever register writes a guest performs on a freshly attached disk, whatever requests it puts
  on the queue, and whichever host I/O operations fail, no write panics: neither the transport nor the
  request handler slices or indexes out of range. After every run that returns, the image is as long as
  the file that was attached and the advertised size is that length, the disk is writable exactly when it
  was attached so, and the image of a disk attached read-only is byte for byte the file.\<close>

theorem blk_guest_run_safe:
  assumes "NewBlkFile tryLock (Some (length file)) file faults wr = Inr b"
    and "length file < 2 ^ 62" and "ram_ok m"
  shows "mmio_run BlkDevice ws (NewCoreAt BlkDevice m bs i, b) \<noteq> Panics \<and>
    (\<forall>c b'. mmio_run BlkDevice ws (NewCoreAt BlkDevice m bs i, b) = Done (c, b') \<longrightarrow>
      core_ok c \<and> length (image b') = length file \<and> unat (blk_size b') = length file \<and> writable b' = wr \<and>
      (\<not> wr \<longrightarrow> image b' = file))"
proof -
  have "blk_attached file wr b"
    using assms(1,2)
    by (auto simp: NewBlkFile_def newBlkFile_def blk_attached_def blk_ok_def unat_of_nat split: if_splits)
  then have "blkdev.machine_ok file wr (NewCoreAt BlkDevice m bs i, b)"
    using blkdev.machine_ok_new [OF assms(3)] by blast
  from blkdev.mmio_run_ok [OF this, of ws] show ?thesis
    by (auto simp: blkdev.machine_ok_def blk_attached_def blk_ok_def)
qed

theorem blk_guest_run_safe_witness:
  "\<exists>b c b'. NewBlkFile True (Some 512) (replicate 512 7) [None, Some 3] False = Inr b \<and>
    mmio_run BlkDevice [(0x038, 4), (0x044, 1), (0x070, 0)]
      (NewCoreAt BlkDevice (NewRAM (replicate 64 0) 0) 0 5, b) = Done (c, b') \<and> image b' = replicate 512 7"
proof -
  obtain b where b: "NewBlkFile True (Some (length (replicate 512 (7 :: byte)))) (replicate 512 7) [None, Some 3] False = Inr b"
    by (simp add: NewBlkFile_def newBlkFile_def)
  have m: "ram_ok (NewRAM (replicate 64 0) 0)" by (simp add: ram_ok_NewRAM)
  obtain c b' where run: "mmio_run BlkDevice [(0x038, 4), (0x044, 1), (0x070, 0)]
      (NewCoreAt BlkDevice (NewRAM (replicate 64 0) 0) 0 5, b) = Done (c, b')"
    by (simp add: MMIOWrite_def at_selected_def NewCoreAt_def BlkDevice_def virtqSize_def)
  have "image b' = replicate 512 7"
    using blk_guest_run_safe [OF b _ m, of "[(0x038, 4), (0x044, 1), (0x070, 0)]" 0 5] run by simp
  then show ?thesis using b run by auto
qed

lemma blk_write_OK:
  assumes "blk_write sector out (c, b) = (BlkSOK, n, c1, b1)" and "core_ok c" and "blk_ok img b"
    and "desc_bytes out < 2 ^ 32"
  obtains buf where "readChains (mem c) out = Inr buf" and "unat (data_len out) = length buf"
    and "blk_in_range sector (data_len out) b" and "file_WriteAt (unat sector * 512) buf b = (b1, True)"
    and "unat sector * 512 + length buf \<le> length (image b)" and "c1 = c"
proof -
  have neq: "BlkSOK \<noteq> BlkSIOErr" "BlkSOK \<noteq> BlkSUnsupported" by (simp_all add: blk_consts)
  obtain buf where buf: "readChains (mem c) out = Inr buf" and len: "of_nat (length buf) = data_len out"
    and rng: "blk_in_range sector (data_len out) b"
    and wr: "file_WriteAt (unat (sector * 512)) buf b = (b1, True)" and "c1 = c"
    using assms(1) neq
    by (auto simp: blk_write_def Let_def split: if_splits sum.splits prod.splits)
  have "length buf < 2 ^ 32"
    using length_readChains [OF _ buf] assms(2,4) by (simp add: core_ok_def)
  then have l: "unat (data_len out) = length buf" by (simp add: len [symmetric] unat_of_nat)
  have sz: "unat (blk_size b) < 2 ^ 62" "length (image b) = unat (blk_size b)"
    using assms(3) by (simp_all add: blk_ok_def)
  from blk_in_range_nat [OF sz(1) rng] wr l sz(2) that [OF buf l rng] \<open>c1 = c\<close> show thesis by simp
qed

text \<open>C35. A write the guest sees succeed stores exactly the gathered data at its sector: every byte
  of the image outside that range is unchanged, and so is the image's length.\<close>

theorem blk_write_exact:
  assumes "blk_write sector out (c, b) = (BlkSOK, n, c1, b1)" and "core_ok c" and "blk_ok img b"
    and "desc_bytes out < 2 ^ 32"
  shows "\<exists>buf. readChains (mem c) out = Inr buf \<and>
    image b1 = take (unat sector * 512) (image b) @ buf @ drop (unat sector * 512 + length buf) (image b)"
proof -
  obtain buf where buf: "readChains (mem c) out = Inr buf"
    and wr: "file_WriteAt (unat sector * 512) buf b = (b1, True)"
    and rng: "unat sector * 512 + length buf \<le> length (image b)"
    by (rule blk_write_OK [OF assms])
  have "image b1 = file_write (unat sector * 512) buf (image b)"
    using wr by (auto simp: file_WriteAt_def file_write_def split: if_splits prod.splits option.splits
        dest: next_fault_frame)
  with buf file_write_inside(1) [OF rng] show ?thesis by (auto simp: splice_def)
qed

text \<open>C37. What was written is read back: after a successful write, with no further host faults, a
  read of the same sector into descriptors of the same total length succeeds and scatters the
  data that was written.\<close>

theorem blk_write_read:
  assumes "blk_write sector out (c, b) = (BlkSOK, n, c1, b1)" and "core_ok c" and "blk_ok img b"
    and "desc_bytes out < 2 ^ 32" and "ioFaults b1 = []" and "data_len inn = data_len out"
    and "readChains (mem c) out = Inr buf" and "writeChains inn buf c2 = (c3, k, None)"
  shows "blk_read sector inn (c2, b1) = (BlkSOK, k, c3, b1)"
proof -
  obtain len: "unat (data_len out) = length buf" and rng: "blk_in_range sector (data_len out) b"
    and wr: "file_WriteAt (unat sector * 512) buf b = (b1, True)"
    and le: "unat sector * 512 + length buf \<le> length (image b)"
    using blk_write_OK [OF assms(1-4)] assms(7) by (metis sum.inject(2))
  have b1: "image b1 = splice (unat sector * 512) buf (image b)" "blk_size b1 = blk_size b"
    using wr file_write_inside(1) [OF le]
    by (auto simp: file_WriteAt_def file_write_def splice_def split: if_splits prod.splits option.splits
        dest: next_fault_frame)
  have rng1: "blk_in_range sector (data_len inn) b1"
    using rng b1(2) assms(6) by (simp add: blk_in_range_def)
  have s: "unat (sector * 512) = unat sector * 512"
    using blk_in_range_nat(1) [OF _ rng] assms(3) by (simp add: blk_ok_def)
  have "slice (unat sector * 512) (length buf) (image b1) = Some buf"
    unfolding b1 by (rule slice_splice_same [OF le])
  then have "file_ReadAt (unat (data_len inn)) (unat (sector * 512)) b1 = (b1, Some buf)"
    using s len assms(5,6) by (simp add: file_ReadAt_def next_fault_def)
  then show ?thesis using rng1 assms(8) by (simp add: blk_read_def Let_def)
qed

definition blk_sample :: Blk where
  "blk_sample = \<lparr>image = [7, 7, 7, 7, 7, 7, 7, 7, 7, 7], ioFaults = [], blk_size = 10,
     writable = True, blk_lock = True\<rparr>"

lemma blk_sample_ok: "blk_ok [] blk_sample"
  by (simp add: blk_ok_def blk_sample_def)

lemma sample_gather: "readChains (mem sample_core) [sample_desc] = Inr [0, 0, 0, 0, 0, 0, 0, 0]"
proof -
  have "readAt sample_ram 40 8 = Inr [0, 0, 0, 0, 0, 0, 0, 0]"
    unfolding sample_read by (simp add: sample_ram_def NewRAM_def slice_def)
  then show ?thesis by (simp add: readChains_def sample_core_def sample_desc_def)
qed

lemma blk_sample_write: "blk_write 0 [sample_desc] (sample_core, blk_sample) =
    (BlkSOK, 0, sample_core, blk_sample\<lparr>image := [0, 0, 0, 0, 0, 0, 0, 0, 7, 7]\<rparr>)"
proof -
  have "data_len [sample_desc] = 8" by (simp add: data_len_def sample_desc_def)
  then show ?thesis
    by (simp add: blk_write_def sample_gather Let_def blk_sample_def blk_in_range_def file_WriteAt_def
        next_fault_def file_write_def splice_def)
qed

theorem blk_write_exact_witness:
  "\<exists>buf. readChains (mem sample_core) [sample_desc] = Inr buf \<and>
    [0, 0, 0, 0, 0, 0, 0, 0, 7, 7] = take 0 (image blk_sample) @ buf @ drop (length buf) (image blk_sample)"
  using blk_write_exact [OF blk_sample_write sample_core_ok blk_sample_ok] by (simp add: sample_desc_def)

theorem blk_write_read_witness:
  "\<exists>c3. blk_read 0 [sample_desc] (sample_core, blk_sample\<lparr>image := [0, 0, 0, 0, 0, 0, 0, 0, 7, 7]\<rparr>) =
    (BlkSOK, 8, c3, blk_sample\<lparr>image := [0, 0, 0, 0, 0, 0, 0, 0, 7, 7]\<rparr>)"
proof -
  obtain c3 where "writeChains [sample_desc] [0, 0, 0, 0, 0, 0, 0, 0] sample_core = (c3, 8, None)"
    using writeChains_from_exact [of sample_ram "[sample_desc]" "[0, 0, 0, 0, 0, 0, 0, 0]" 0]
    by (auto simp: writeChains_def sample_core_def sample_ram_ok sample_desc_def contains_def sample_rangeOff)
  from blk_write_read [OF blk_sample_write sample_core_ok blk_sample_ok _ _ refl sample_gather this]
  show ?thesis by (auto simp: blk_sample_def sample_desc_def)
qed

end
