(* ===== verification/Virtio_Clock_Entropy.thy ===== *)
theory Virtio_Clock_Entropy
  imports Virtqueue_Correct
begin

text \<open>
  The two stateless request devices: virtio-rng (\<open>internal/virtio/vrng.go\<close>) over an entropy
  source and virtio-rtc (\<open>internal/virtio/vrtc.go\<close>) over the host clock.
\<close>

section \<open>The entropy device\<close>

text \<open>
  The state is the host's entropy source; \<open>draw s n\<close> is \<open>rand.Read\<close> on a buffer of \<open>n\<close>
  bytes, which may fail.
\<close>

definition rngMaxChainBytes :: u64 where "rngMaxChainBytes = 0x100000"

fun rng_fill :: "('s \<Rightarrow> nat \<Rightarrow> bytes option \<times> 's) \<Rightarrow> desc list \<Rightarrow> u32 \<Rightarrow> Core \<times> 's \<Rightarrow> u32 \<times> Core \<times> 's" where
  "rng_fill draw [] acc (c, s) = (acc, c, s)"
| "rng_fill draw (d # ds) acc (c, s) =
     (case draw s (unat (d_len d)) of
        (None, s') \<Rightarrow> (acc, c, s')
      | (Some buf, s') \<Rightarrow>
          (case writeAt (mem c) (d_addr d) buf of
             Inl _ \<Rightarrow> (acc, c, s')
           | Inr m \<Rightarrow> rng_fill draw ds (acc + d_len d) (c\<lparr>mem := m\<rparr>, s')))"

definition rng_step :: "('s \<Rightarrow> nat \<Rightarrow> bytes option \<times> 's) \<Rightarrow> nat \<Rightarrow> u16 \<Rightarrow> desc list \<Rightarrow> Core \<times> 's \<Rightarrow> Core \<times> 's" where
  "rng_step draw qn head chain cs =
     (case rng_fill draw (snd (splitChain chain)) 0 cs of
        (acc, c, s) \<Rightarrow> (pushUsed qn head acc c, s))"

definition rng_maxChainBytes :: "nat \<Rightarrow> u64" where
  "rng_maxChainBytes qn = rngMaxChainBytes"

definition rng_handleQueue :: "('s \<Rightarrow> nat \<Rightarrow> bytes option \<times> 's) \<Rightarrow> nat \<Rightarrow> Core \<times> 's \<Rightarrow> (Core \<times> 's) outcome" where
  "rng_handleQueue draw qn cs =
     (if qn < length (queues (fst cs))
      then loop_result (drain (Some rng_maxChainBytes) (\<lambda>h ch x. Done (rng_step draw qn h ch x)) qn cs)
      else Panics)"

definition RNGDevice :: "('s \<Rightarrow> nat \<Rightarrow> bytes option \<times> 's) \<Rightarrow> 's Device" where
  "RNGDevice draw = \<lparr>deviceID = 4, features = (\<lambda>_. 0), numQueues = 1, configRead = (\<lambda>_ _ p. p),
     configWrite = (\<lambda>s _ _. s), dev_reset = (\<lambda>s. s), handleQueue = rng_handleQueue draw\<rparr>"

lemma rng_fill_ok:
  assumes "core_ok c" and "rng_fill draw ds acc (c, s) = (acc', c', s')"
  shows "core_ok c' \<and> same_config c c'"
  using assms
proof (induction ds arbitrary: acc c s)
  case (Cons d ds)
  show ?case
  proof (cases "\<exists>buf s1 m. draw s (unat (d_len d)) = (Some buf, s1) \<and> writeAt (mem c) (d_addr d) buf = Inr m")
    case True
    then obtain buf s1 m where m: "draw s (unat (d_len d)) = (Some buf, s1)" "writeAt (mem c) (d_addr d) buf = Inr m"
      by blast
    have "core_ok (c\<lparr>mem := m\<rparr>)"
      using Cons.prems(1) writeAt_ram_ok [OF _ m(2)] by (simp add: core_ok_def)
    from Cons.IH [OF this, of "acc + d_len d" s1] Cons.prems(2) m
    have "core_ok c' \<and> same_config (c\<lparr>mem := m\<rparr>) c'" by simp
    moreover have "same_config c (c\<lparr>mem := m\<rparr>)" using writeAt_regions [OF m(2)] by (simp add: same_config_mem)
    ultimately show ?thesis using same_config_trans by blast
  next
    case False
    with Cons.prems show ?thesis
      by (auto split: prod.splits option.splits sum.splits)
  qed
qed simp

lemma rng_step_ok:
  assumes "core_ok c" and "rng_step draw qn head chain (c, s) = (c', s')"
  shows "core_ok c' \<and> same_config c c'"
proof -
  obtain acc c1 s1 where f: "rng_fill draw (snd (splitChain chain)) 0 (c, s) = (acc, c1, s1)"
    by (metis prod_cases3)
  then have "c' = pushUsed qn head acc c1" using assms(2) by (simp add: rng_step_def)
  with rng_fill_ok [OF assms(1) f] show ?thesis
    using core_ok_pushUsed same_config_trans [OF _ same_config_pushUsed] by blast
qed

interpretation rngq: chain_processor "Some rng_maxChainBytes" "\<lambda>h ch x. Done (rng_step draw qn h ch x)" "\<lambda>_. True" for draw qn
  by unfold_locales (auto dest: rng_step_ok)

interpretation rngdev: virtio_device "RNGDevice draw" "\<lambda>_. True" for draw
proof
  fix c s qn
  assume "core_ok c" "qn < length (queues c)"
  then show "safely (\<lambda>(c', d'). core_ok c' \<and> same_config c c' \<and> True) (handleQueue (RNGDevice draw) qn (c, s))"
    using rngq.drain_ok [where c = c and d = s] by (simp add: RNGDevice_def rng_handleQueue_def)
qed (simp_all add: RNGDevice_def)

section \<open>The clock device\<close>

record RTC =
  now :: "u32 \<Rightarrow> u64"
  probes :: u32

definition RTCReqRead :: u16 where "RTCReqRead = 0x0001"
definition RTCReqCfg :: u16 where "RTCReqCfg = 0x1000"
definition RTCReqClockCap :: u16 where "RTCReqClockCap = 0x1001"
definition RTCReqCrossCap :: u16 where "RTCReqCrossCap = 0x1002"
definition RTCSOK :: byte where "RTCSOK = 0"
definition RTCSEOPNOTSUPP :: byte where "RTCSEOPNOTSUPP = 2"
definition RTCSENODEV :: byte where "RTCSENODEV = 3"
definition RTCSEINVAL :: byte where "RTCSEINVAL = 4"
definition RTCClockUTCSmeared :: byte where "RTCClockUTCSmeared = 3"
definition RTCRespLen :: nat where "RTCRespLen = 16"
definition rtcMaxChainBytes :: u64 where "rtcMaxChainBytes = 4096"

lemmas rtc_consts = RTCReqRead_def RTCReqCfg_def RTCReqClockCap_def RTCReqCrossCap_def RTCSOK_def
  RTCSEOPNOTSUPP_def RTCSENODEV_def RTCSEINVAL_def RTCClockUTCSmeared_def RTCRespLen_def

text \<open>A response: status byte, padding to the 8-byte header, 8 bytes of body.\<close>

definition rtc_resp :: "byte \<Rightarrow> bytes \<Rightarrow> bytes" where
  "rtc_resp st body = [st] @ replicate 7 0 @ body"

definition rtc_clockID :: "bytes \<Rightarrow> u16" where
  "rtc_clockID req = (if length req < 16 then 0xffff else Uint16 (drop 8 req))"

text \<open>The clock reading of the request numbered by the probe counter.\<close>

definition rtc_dispatch :: "u16 \<Rightarrow> bytes \<Rightarrow> RTC \<Rightarrow> bytes" where
  "rtc_dispatch msgType req v =
     (if msgType = RTCReqCfg then rtc_resp RTCSOK (PutUint16 1 @ replicate 6 0)
      else if msgType = RTCReqClockCap then
        (if rtc_clockID req \<noteq> 0 then rtc_resp RTCSENODEV (replicate 8 0)
         else rtc_resp RTCSOK (RTCClockUTCSmeared # replicate 7 0))
      else if msgType = RTCReqRead then
        (if rtc_clockID req \<noteq> 0 then rtc_resp RTCSENODEV (replicate 8 0)
         else rtc_resp RTCSOK (PutUint64 (now v (probes v))))
      else if msgType = RTCReqCrossCap then
        (if rtc_clockID req \<noteq> 0 then rtc_resp RTCSENODEV (replicate 8 0)
         else rtc_resp RTCSOK (replicate 8 0))
      else rtc_resp RTCSEOPNOTSUPP (replicate 8 0))"

definition rtc_respond :: "vq_error + bytes \<Rightarrow> RTC \<Rightarrow> RTC \<times> bytes" where
  "rtc_respond req v =
     (case req of
        Inl _ \<Rightarrow> (v, rtc_resp RTCSEINVAL (replicate 8 0))
      | Inr r \<Rightarrow>
          (if length r < 8 then (v, rtc_resp RTCSEINVAL (replicate 8 0))
           else let v' = v\<lparr>probes := probes v + 1\<rparr> in (v', rtc_dispatch (Uint16 r) r v')))"

text \<open>The response goes to the first writable descriptor when it is large enough.\<close>

definition rtc_write :: "desc list \<Rightarrow> bytes \<Rightarrow> Core \<Rightarrow> Core \<times> u32" where
  "rtc_write wrb resp c =
     (case wrb of
        [] \<Rightarrow> (c, 0)
      | d # _ \<Rightarrow>
          (if d_len d \<ge> of_nat RTCRespLen then
             (case writeAt (mem c) (d_addr d) resp of
                Inl _ \<Rightarrow> (c, 0) | Inr m \<Rightarrow> (c\<lparr>mem := m\<rparr>, of_nat RTCRespLen))
           else (c, 0)))"

definition rtc_step :: "nat \<Rightarrow> u16 \<Rightarrow> desc list \<Rightarrow> Core \<times> RTC \<Rightarrow> Core \<times> RTC" where
  "rtc_step qn head chain cv =
     (let (readable, writable) = splitChain chain;
          (v', resp) = rtc_respond (readChains (mem (fst cv)) readable) (snd cv);
          (c', written) = rtc_write writable resp (fst cv) in
      (pushUsed qn head written c', v'))"

definition rtc_maxChainBytes :: "nat \<Rightarrow> u64" where
  "rtc_maxChainBytes qn = rtcMaxChainBytes"

definition rtc_handleQueue :: "nat \<Rightarrow> Core \<times> RTC \<Rightarrow> (Core \<times> RTC) outcome" where
  "rtc_handleQueue qn cv =
     (if qn < length (queues (fst cv))
      then loop_result (drain (Some rtc_maxChainBytes) (\<lambda>h ch x. Done (rtc_step qn h ch x)) qn cv)
      else Panics)"

definition RTCDevice :: "RTC Device" where
  "RTCDevice = \<lparr>deviceID = 17, features = (\<lambda>_. 0), numQueues = 1, configRead = (\<lambda>_ _ p. p),
     configWrite = (\<lambda>v _ _. v), dev_reset = (\<lambda>v. v), handleQueue = rtc_handleQueue\<rparr>"

lemma rtc_write_ok:
  assumes "core_ok c"
  shows "core_ok (fst (rtc_write wrb resp c)) \<and> same_config c (fst (rtc_write wrb resp c))"
proof (cases wrb)
  case (Cons d ds)
  show ?thesis
  proof (cases "writeAt (mem c) (d_addr d) resp")
    case (Inr m)
    have "ram_ok m" using writeAt_ram_ok [OF _ Inr] assms by (simp add: core_ok_def)
    moreover have "same_config c (c\<lparr>mem := m\<rparr>)" using writeAt_regions [OF Inr] by (simp add: same_config_mem)
    ultimately show ?thesis using Inr Cons assms by (simp add: rtc_write_def core_ok_mem_update)
  qed (use assms Cons in \<open>simp add: rtc_write_def\<close>)
qed (use assms in \<open>simp add: rtc_write_def\<close>)

lemma rtc_step_ok:
  assumes "core_ok c" and "rtc_step qn head chain (c, v) = (c', v')"
  shows "core_ok c' \<and> same_config c c'"
proof -
  obtain rdb wrb where sp: "splitChain chain = (rdb, wrb)" by (cases "splitChain chain")
  obtain v1 resp where r: "rtc_respond (readChains (mem c) rdb) v = (v1, resp)"
    by (cases "rtc_respond (readChains (mem c) rdb) v")
  obtain c1 w where wr: "rtc_write wrb resp c = (c1, w)" by (cases "rtc_write wrb resp c")
  have "c' = pushUsed qn head w c1" using assms(2) sp r wr by (simp add: rtc_step_def)
  with rtc_write_ok [OF assms(1), of wrb resp] wr show ?thesis
    using core_ok_pushUsed same_config_trans [OF _ same_config_pushUsed] by (metis fst_conv)
qed

interpretation rtcq: chain_processor "Some rtc_maxChainBytes" "\<lambda>h ch x. Done (rtc_step qn h ch x)" "\<lambda>_. True" for qn
  by unfold_locales (auto dest: rtc_step_ok)

interpretation rtcdev: virtio_device RTCDevice "\<lambda>_. True"
proof
  fix c v qn
  assume "core_ok c" "qn < length (queues c)"
  then show "safely (\<lambda>(c', d'). core_ok c' \<and> same_config c c' \<and> True) (handleQueue RTCDevice qn (c, v))"
    using rtcq.drain_ok [where c = c and d = v] by (simp add: RTCDevice_def rtc_handleQueue_def)
qed (simp_all add: RTCDevice_def)

section \<open>Properties\<close>

text \<open>The clock protocol: every request gets a 16-byte response; a well-formed read of clock 0
  carries the host time, and any other clock is refused with ``no such device'', as are its
  capability queries.\<close>

theorem rtc_protocol:
  assumes "length req \<ge> 16" and "rtc_respond (Inr req) v = (v', resp)"
  shows "length resp = RTCRespLen \<and>
    (Uint16 req = RTCReqRead \<longrightarrow> (if Uint16 (drop 8 req) = 0
       then resp ! 0 = RTCSOK \<and> Uint64 (drop 8 resp) = now v (probes v + 1)
       else resp ! 0 = RTCSENODEV)) \<and>
    (Uint16 req \<in> {RTCReqClockCap, RTCReqCrossCap} \<and> Uint16 (drop 8 req) \<noteq> 0 \<longrightarrow> resp ! 0 = RTCSENODEV)"
  using assms
  by (auto simp: rtc_respond_def rtc_dispatch_def rtc_resp_def rtc_clockID_def rtc_consts Let_def)

definition rtc_sample :: RTC where
  "rtc_sample = \<lparr>now = (\<lambda>n. 1000 + ucast n), probes = 6\<rparr>"

theorem rtc_protocol_witness:
  "\<exists>v' resp. rtc_respond (Inr ([1, 0] @ replicate 14 0)) rtc_sample = (v', resp) \<and>
    Uint64 (drop 8 resp) = 1007"
proof -
  obtain v' resp where r: "rtc_respond (Inr ([1, 0] @ replicate 14 0)) rtc_sample = (v', resp)"
    by (cases "rtc_respond (Inr ([1, 0] @ replicate 14 0)) rtc_sample")
  have "Uint16 ([1, 0] @ replicate 14 0) = RTCReqRead" "Uint16 (drop 8 ([1, 0] @ replicate 14 0)) = 0"
    by (simp_all add: Uint16_def RTCReqRead_def replicate_numeral)
  with rtc_protocol [OF _ r] r show ?thesis by (simp add: rtc_sample_def)
qed

end
