(* ===== verification/Pending_Ring.thy ===== *)
theory Pending_Ring
  imports Gantry_Prelude
begin

text \<open>
  The fixed-capacity queue of \<open>internal/virtio/pending_ring.go\<close> and the contract its clients,
  the network and vsock devices, rely on: a bounded first-in first-out queue.
\<close>

definition pendingRingCapacity :: nat where "pendingRingCapacity = 256"

record 'a pendingRing =
  slots :: "'a list"
  head :: nat
  count :: nat

text \<open>The zero value of the element type is the argument \<open>z\<close>.\<close>

definition new_ring :: "'a \<Rightarrow> 'a pendingRing" where
  "new_ring z = \<lparr>slots = replicate pendingRingCapacity z, head = 0, count = 0\<rparr>"

definition ring_Full :: "'a pendingRing \<Rightarrow> bool" where
  "ring_Full q \<longleftrightarrow> count q = length (slots q)"

definition ring_Push :: "'a \<Rightarrow> 'a pendingRing \<Rightarrow> 'a pendingRing \<times> nat \<times> bool" where
  "ring_Push v q =
     (if ring_Full q then (q, 0, False)
      else let tail = head q + count q;
               tail' = (if tail \<ge> length (slots q) then tail - length (slots q) else tail) in
        (q\<lparr>slots := (slots q)[tail' := v], count := count q + 1\<rparr>, tail', True))"

definition ring_Front :: "'a pendingRing \<Rightarrow> ('a \<times> nat) option" where
  "ring_Front q = (if count q = 0 then None else Some (slots q ! head q, head q))"

definition ring_Back :: "'a pendingRing \<Rightarrow> ('a \<times> nat) option" where
  "ring_Back q =
     (if count q = 0 then None
      else let tail = head q + count q - 1;
               tail' = (if tail \<ge> length (slots q) then tail - length (slots q) else tail) in
        Some (slots q ! tail', tail'))"

definition ring_Pop :: "'a \<Rightarrow> 'a pendingRing \<Rightarrow> 'a pendingRing" where
  "ring_Pop z q =
     (if count q = 0 then q
      else let h = head q + 1 in
        q\<lparr>slots := (slots q)[head q := z], head := (if h = length (slots q) then 0 else h),
          count := count q - 1\<rparr>)"

lemma count_Pop: "count q \<noteq> 0 \<Longrightarrow> count (ring_Pop z q) = count q - 1"
  by (simp add: ring_Pop_def Let_def)

function ring_Reset :: "'a \<Rightarrow> 'a pendingRing \<Rightarrow> 'a pendingRing" where
  "ring_Reset z q = (if count q \<noteq> 0 then ring_Reset z (ring_Pop z q) else q\<lparr>head := 0\<rparr>)"
  by pat_completeness auto
termination
  by (relation "measure (\<lambda>(z, q). count q)") (simp_all add: count_Pop)

declare ring_Reset.simps [simp del]

text \<open>Overwriting the item in a slot: clients keep slot indices to extend a queued item.\<close>

definition ring_set :: "nat \<Rightarrow> 'a \<Rightarrow> 'a pendingRing \<Rightarrow> 'a pendingRing" where
  "ring_set i v q = q\<lparr>slots := (slots q)[i := v]\<rparr>"

section \<open>The contract\<close>

locale bounded_fifo =
  fixes cap :: nat and empty :: 'q and push :: "'a \<Rightarrow> 'q \<Rightarrow> 'q \<times> nat \<times> bool" and pop :: "'q \<Rightarrow> 'q"
    and clear :: "'q \<Rightarrow> 'q" and front :: "'q \<Rightarrow> ('a \<times> nat) option" and rear :: "'q \<Rightarrow> ('a \<times> nat) option"
    and items :: "'q \<Rightarrow> 'a list" and invar :: "'q \<Rightarrow> bool"
  assumes invar_empty: "invar empty" and items_empty: "items empty = []"
    and push_full: "invar q \<Longrightarrow> length (items q) = cap \<Longrightarrow> push v q = (q, 0, False)"
    and push_room: "invar q \<Longrightarrow> length (items q) < cap \<Longrightarrow> push v q = (q', i, ok) \<Longrightarrow>
      ok \<and> invar q' \<and> items q' = items q @ [v]"
    and invar_pop: "invar q \<Longrightarrow> invar (pop q)" and items_pop: "invar q \<Longrightarrow> items (pop q) = tl (items q)"
    and invar_clear: "invar q \<Longrightarrow> invar (clear q)" and items_clear: "invar q \<Longrightarrow> items (clear q) = []"
    and front_items: "invar q \<Longrightarrow> map_option fst (front q) = (case items q of [] \<Rightarrow> None | x # _ \<Rightarrow> Some x)"
    and rear_items: "invar q \<Longrightarrow> map_option fst (rear q) = (if items q = [] then None else Some (last (items q)))"
    and items_cap: "invar q \<Longrightarrow> length (items q) \<le> cap"
begin

lemma push_items:
  assumes "invar q"
  shows "invar (fst (push v q)) \<and>
    items (fst (push v q)) = (if length (items q) < cap then items q @ [v] else items q) \<and>
    snd (snd (push v q)) = (length (items q) < cap)"
proof (cases "length (items q) < cap")
  case True
  obtain q' i ok where p: "push v q = (q', i, ok)" by (metis prod_cases3)
  from push_room [OF assms True p] show ?thesis using True p by simp
next
  case False
  with items_cap [OF assms] have "length (items q) = cap" by simp
  from push_full [OF assms this] show ?thesis using assms False by simp
qed

end

datatype 'a ring_op = PushOp 'a | PopOp | ResetOp

primrec fifo_op :: "nat \<Rightarrow> 'a ring_op \<Rightarrow> 'a list \<Rightarrow> 'a list" where
  "fifo_op cap (PushOp v) xs = (if length xs < cap then xs @ [v] else xs)"
| "fifo_op cap PopOp xs = tl xs"
| "fifo_op cap ResetOp xs = []"

primrec ring_op_run :: "'a \<Rightarrow> 'a ring_op \<Rightarrow> 'a pendingRing \<Rightarrow> 'a pendingRing" where
  "ring_op_run z (PushOp v) q = fst (ring_Push v q)"
| "ring_op_run z PopOp q = ring_Pop z q"
| "ring_op_run z ResetOp q = ring_Reset z q"

section \<open>The ring implements it\<close>

definition ring_at :: "'a pendingRing \<Rightarrow> nat \<Rightarrow> 'a" where
  "ring_at q i = slots q ! ((head q + i) mod length (slots q))"

definition ring_items :: "'a pendingRing \<Rightarrow> 'a list" where
  "ring_items q = map (ring_at q) [0..<count q]"

text \<open>
  The live window is inside the array and every slot outside it holds the zero value, so that
  a popped item's storage is not kept reachable.
\<close>

definition ring_ok :: "'a \<Rightarrow> 'a pendingRing \<Rightarrow> bool" where
  "ring_ok z q \<longleftrightarrow> length (slots q) = pendingRingCapacity \<and> head q < pendingRingCapacity \<and>
     count q \<le> pendingRingCapacity \<and>
     (\<forall>i. count q \<le> i \<and> i < pendingRingCapacity \<longrightarrow> ring_at q i = z)"

lemma wrap_mod:
  fixes a n :: nat
  assumes "a < 2 * n"
  shows "(if a \<ge> n then a - n else a) = a mod n"
  using assms by (auto simp: le_mod_geq)

lemma mod_window_inj:
  fixes h n :: nat
  assumes "h < n" and "i < n" and "j < n" and "(h + i) mod n = (h + j) mod n"
  shows "i = j"
  using assms wrap_mod [of "h + i" n] wrap_mod [of "h + j" n] by (auto split: if_splits)

lemma ring_at_update:
  assumes "ring_ok z q" and "i < pendingRingCapacity" and "j < pendingRingCapacity"
  shows "ring_at (q\<lparr>slots := (slots q)[(head q + i) mod length (slots q) := v], count := k\<rparr>) j =
    (if j = i then v else ring_at q j)"
  using assms mod_window_inj [of "head q" pendingRingCapacity i j]
  by (auto simp: ring_at_def ring_ok_def nth_list_update)

lemma length_ring_items [simp]: "length (ring_items q) = count q"
  by (simp add: ring_items_def)

lemma ring_items_eqI:
  "count q = length xs \<Longrightarrow> (\<And>i. i < length xs \<Longrightarrow> ring_at q i = xs ! i) \<Longrightarrow> ring_items q = xs"
  by (rule nth_equalityI) (simp_all add: ring_items_def)

lemma nth_ring_items [simp]: "i < count q \<Longrightarrow> ring_items q ! i = ring_at q i"
  by (simp add: ring_items_def)

lemma ring_Push_room:
  assumes "ring_ok z q" and "count q < pendingRingCapacity"
  shows "ring_Push v q = (q\<lparr>slots := (slots q)[(head q + count q) mod length (slots q) := v],
    count := count q + 1\<rparr>, (head q + count q) mod length (slots q), True)"
  using assms wrap_mod [of "head q + count q" pendingRingCapacity]
  by (simp add: ring_Push_def ring_Full_def ring_ok_def Let_def split: if_splits)

lemma ring_Push_ok:
  assumes "ring_ok z q" and "count q < pendingRingCapacity"
  shows "ring_ok z (fst (ring_Push v q))" and "ring_items (fst (ring_Push v q)) = ring_items q @ [v]"
proof -
  let ?q = "q\<lparr>slots := (slots q)[(head q + count q) mod length (slots q) := v], count := count q + 1\<rparr>"
  have at: "ring_at ?q j = (if j = count q then v else ring_at q j)" if "j < pendingRingCapacity" for j
    using ring_at_update [OF assms that] .
  show "ring_ok z (fst (ring_Push v q))"
    using assms at unfolding ring_Push_room [OF assms] by (auto simp: ring_ok_def)
  show "ring_items (fst (ring_Push v q)) = ring_items q @ [v]"
    unfolding ring_Push_room [OF assms] fst_conv
    by (rule ring_items_eqI) (use at assms(2) in \<open>auto simp: nth_append\<close>)
qed

lemma ring_Pop_at:
  assumes "ring_ok z q" and "count q \<noteq> 0" and "i < pendingRingCapacity"
  shows "ring_at (ring_Pop z q) i = (if i + 1 = pendingRingCapacity then z else ring_at q (i + 1))"
proof -
  let ?n = pendingRingCapacity
  let ?h = "if head q + 1 = ?n then 0 else head q + 1"
  have len: "length (slots q) = ?n" and h: "head q < ?n" using assms(1) by (simp_all add: ring_ok_def)
  have eq: "(?h + i) mod ?n = (head q + (i + 1)) mod ?n"
  proof (cases "head q + 1 = ?n")
    case True
    then have "head q + (i + 1) = i + ?n" by simp
    then have "(head q + (i + 1)) mod ?n = i mod ?n" by (simp only: mod_add_self2)
    with True show ?thesis by simp
  qed simp
  have at: "ring_at (ring_Pop z q) i = (slots q)[head q := z] ! ((head q + (i + 1)) mod ?n)"
    unfolding eq [symmetric] using len assms(2) by (simp add: ring_at_def ring_Pop_def Let_def)
  show ?thesis
  proof (cases "i + 1 = ?n")
    case True
    then have "(head q + (i + 1)) mod ?n = head q" using h by simp
    with True at h len show ?thesis by simp
  next
    case False
    then have "(head q + (i + 1)) mod ?n \<noteq> (head q + 0) mod ?n"
      using mod_window_inj [of "head q" ?n "i + 1" 0] h assms(3) by auto
    then have "(head q + (i + 1)) mod ?n \<noteq> head q" using h by simp
    with False at len show ?thesis by (simp add: ring_at_def)
  qed
qed

lemma ring_Pop_ok:
  assumes "ring_ok z q"
  shows "ring_ok z (ring_Pop z q)" and "ring_items (ring_Pop z q) = tl (ring_items q)"
proof (atomize (full), cases "count q = 0")
  case True
  then show "ring_ok z (ring_Pop z q) \<and> ring_items (ring_Pop z q) = tl (ring_items q)"
    using assms by (simp add: ring_Pop_def ring_items_def)
next
  case False
  have "ring_ok z (ring_Pop z q)"
    unfolding ring_ok_def
    using assms False ring_Pop_at [OF assms False] count_Pop [OF False, of z]
    by (auto simp: ring_ok_def) (auto simp: ring_Pop_def Let_def)
  moreover have "ring_items (ring_Pop z q) = tl (ring_items q)"
    using ring_Pop_at [OF assms False] count_Pop [OF False, of z] assms
    by (intro ring_items_eqI) (auto simp: nth_tl ring_ok_def)
  ultimately show "ring_ok z (ring_Pop z q) \<and> ring_items (ring_Pop z q) = tl (ring_items q)" by simp
qed

lemma ring_Reset_ok:
  assumes "ring_ok z q"
  shows "ring_ok z (ring_Reset z q) \<and> count (ring_Reset z q) = 0 \<and> head (ring_Reset z q) = 0"
  using assms
proof (induction z q rule: ring_Reset.induct)
  case (1 z q)
  show ?case
  proof (cases "count q = 0")
    case True
    have "ring_ok z (q\<lparr>head := 0\<rparr>)"
    proof -
      have "slots q ! i = z" if "i < pendingRingCapacity" for i
      proof -
        let ?j = "(i + (pendingRingCapacity - head q)) mod pendingRingCapacity"
        have h: "head q < pendingRingCapacity" using 1(2) by (simp add: ring_ok_def)
        have "(head q + ?j) mod pendingRingCapacity = (head q + (i + (pendingRingCapacity - head q))) mod pendingRingCapacity"
          by (rule mod_add_right_eq)
        also have "head q + (i + (pendingRingCapacity - head q)) = i + pendingRingCapacity" using h by simp
        finally have "(head q + ?j) mod pendingRingCapacity = i" using that by simp
        moreover have "?j < pendingRingCapacity" using h by simp
        ultimately show ?thesis using 1(2) True by (metis ring_ok_def ring_at_def le0)
      qed
      then show ?thesis using 1(2) True by (simp add: ring_ok_def ring_at_def)
    qed
    with True show ?thesis by (simp add: ring_Reset.simps [of z q])
  next
    case False
    with 1 ring_Pop_ok(1) [OF 1(2)] show ?thesis by (simp add: ring_Reset.simps [of z q])
  qed
qed

interpretation pring: bounded_fifo pendingRingCapacity "new_ring z" ring_Push "ring_Pop z"
  "ring_Reset z" ring_Front ring_Back ring_items "ring_ok z" for z
proof (unfold_locales, goal_cases)
  case 1
  show ?case
    by (auto simp: new_ring_def ring_ok_def ring_at_def pendingRingCapacity_def)
next
  case 2
  show ?case by (simp add: new_ring_def ring_items_def)
next
  case (3 q v)
  then show ?case by (simp add: ring_Push_def ring_Full_def ring_ok_def)
next
  case (4 q v q' i ok)
  then have room: "count q < pendingRingCapacity" by simp
  have "ok" using ring_Push_room [OF 4(1) room, of v] 4(3) by simp
  with ring_Push_ok [OF 4(1) room, of v] 4(3) show ?case by simp
next
  case (5 q)
  then show ?case by (rule ring_Pop_ok)
next
  case (6 q)
  then show ?case by (rule ring_Pop_ok)
next
  case (7 q)
  then show ?case using ring_Reset_ok [of z q] by simp
next
  case (8 q)
  then show ?case using ring_Reset_ok [of z q] by (simp add: ring_items_def)
next
  case (9 q)
  then show ?case
    by (cases "count q") (auto simp: ring_Front_def ring_items_def ring_at_def ring_ok_def upt_rec
        split: list.splits)
next
  case (10 q)
  show ?case
  proof (cases "count q = 0")
    case False
    have "head q + count q - 1 < 2 * pendingRingCapacity" using 10 False by (auto simp: ring_ok_def)
    from wrap_mod [OF this] 10 False
    have "ring_Back q = Some (ring_at q (count q - 1), (head q + count q - 1) mod pendingRingCapacity)"
      unfolding ring_Back_def ring_at_def Let_def by (simp add: ring_ok_def split: if_splits)
    moreover have "ring_items q \<noteq> []" using False by (metis length_0_conv length_ring_items)
    ultimately show ?thesis using False by (simp add: last_conv_nth)
  qed (simp add: ring_Back_def ring_items_def)
next
  case (11 q)
  then show ?case by (simp add: ring_ok_def)
qed

section \<open>Properties of the ring\<close>

text \<open>C38. The ring is a bounded first-in first-out queue: after any sequence of pushes, pops and
  resets it holds exactly what a list bounded at 256 elements would, its front is the oldest
  element, and every slot it does not use holds the zero value, so nothing popped stays reachable.\<close>

theorem ring_run_refines:
  "ring_items (fold (ring_op_run z) ops (new_ring z)) = fold (fifo_op 256) ops [] \<and>
   map_option fst (ring_Front (fold (ring_op_run z) ops (new_ring z))) =
     (case fold (fifo_op 256) ops [] of [] \<Rightarrow> None | x # _ \<Rightarrow> Some x) \<and>
   ring_ok z (fold (ring_op_run z) ops (new_ring z))"
proof -
  have step: "ring_ok z (ring_op_run z x q) \<and> ring_items (ring_op_run z x q) = fifo_op 256 x (ring_items q)"
    if "ring_ok z q" for x q
  proof (cases x)
    case (PushOp v)
    with pring.push_items [OF that, of v] show ?thesis by (simp add: pendingRingCapacity_def)
  next
    case PopOp
    with pring.invar_pop [OF that] pring.items_pop [OF that] show ?thesis by simp
  next
    case ResetOp
    with pring.invar_clear [OF that] pring.items_clear [OF that] show ?thesis by simp
  qed
  have run: "ring_ok z (fold (ring_op_run z) ops q) \<and>
      ring_items (fold (ring_op_run z) ops q) = fold (fifo_op 256) ops (ring_items q)" if "ring_ok z q" for q
    using that by (induction ops arbitrary: q) (simp_all add: step)
  have new: "ring_ok z (fold (ring_op_run z) ops (new_ring z))"
      "ring_items (fold (ring_op_run z) ops (new_ring z)) = fold (fifo_op 256) ops []"
    using run [OF pring.invar_empty] by (simp_all add: pring.items_empty)
  then show ?thesis using pring.front_items [OF new(1)] by simp
qed

end
