(* ===== verification/Vsock.thy ===== *)
theory Vsock
  imports Virtqueue_Correct Pending_Ring "HOL-Library.Monad_Syntax"
begin

text \<open>
  The virtio-vsock device, \<open>internal/virtio/vvsock.go\<close>: the packet header codec, the
  connection table with its credit accounting, the bounded outbound queue, the transmit and
  receive queue handlers and the locked sections of the pump goroutines. Connections are Go
  pointers that the pumps keep after the table forgot them, so they live in an arena and the
  table holds indices into it. A panic inside an operation is recorded in the device state, where
  it stops every loop, and becomes the outcome \<open>Panics\<close> of the queue handler.
\<close>

section \<open>Packets\<close>

record vsockHdr =
  srcCID :: u64
  dstCID :: u64
  srcPort :: u32
  dstPort :: u32
  hdr_length :: u32
  h_typ :: u16
  h_op :: u16
  flags :: u32
  bufAlloc :: u32
  fwdCnt :: u32

definition vsockHostCID :: u64 where "vsockHostCID = 2"
definition vsockOpRequest :: u16 where "vsockOpRequest = 1"
definition vsockOpResponse :: u16 where "vsockOpResponse = 2"
definition vsockOpRST :: u16 where "vsockOpRST = 3"
definition vsockOpShutdown :: u16 where "vsockOpShutdown = 4"
definition vsockOpRW :: u16 where "vsockOpRW = 5"
definition vsockOpCreditUpdate :: u16 where "vsockOpCreditUpdate = 6"
definition vsockOpCreditReq :: u16 where "vsockOpCreditReq = 7"
definition vsockTypeStream :: u16 where "vsockTypeStream = 1"
definition vsockHdrLen :: nat where "vsockHdrLen = 44"
definition vsockBufAlloc :: nat where "vsockBufAlloc = 65536"
definition vsockQueueRx :: nat where "vsockQueueRx = 0"
definition vsockQueueTx :: nat where "vsockQueueTx = 1"
definition vsockMaxPending :: nat where "vsockMaxPending = pendingRingCapacity"
definition vsockControlReserve :: nat where "vsockControlReserve = 16"
definition vsockOutQMaxPackets :: nat where "vsockOutQMaxPackets = 1024"
definition vsockMaxRxPayload :: nat where "vsockMaxRxPayload = 2048"
definition vsockMaxChainBytes :: u64 where "vsockMaxChainBytes = 65536 + 44 + 1024"

lemmas vsock_ops = vsockOpRequest_def vsockOpResponse_def vsockOpRST_def vsockOpShutdown_def
  vsockOpRW_def vsockOpCreditUpdate_def vsockOpCreditReq_def

lemmas vsock_consts = vsockHostCID_def vsockTypeStream_def vsockHdrLen_def vsockBufAlloc_def
  vsockQueueRx_def vsockQueueTx_def vsockMaxPending_def vsockControlReserve_def
  vsockOutQMaxPackets_def vsockMaxRxPayload_def

text \<open>\<open>None\<close> is the panic of reading past the end of the slice.\<close>

definition parseVsockHdr :: "bytes \<Rightarrow> vsockHdr option" where
  "parseVsockHdr b = do {
     srcC \<leftarrow> Uint64_at 0 b;
     dstC \<leftarrow> Uint64_at 8 b;
     srcP \<leftarrow> Uint32_at 16 b;
     dstP \<leftarrow> Uint32_at 20 b;
     len \<leftarrow> Uint32_at 24 b;
     ty \<leftarrow> Uint16_at 28 b;
     opc \<leftarrow> Uint16_at 30 b;
     fl \<leftarrow> Uint32_at 32 b;
     alloc \<leftarrow> Uint32_at 36 b;
     fwd \<leftarrow> Uint32_at 40 b;
     Some \<lparr>srcCID = srcC, dstCID = dstC, srcPort = srcP, dstPort = dstP, hdr_length = len, h_typ = ty,
       h_op = opc, flags = fl, bufAlloc = alloc, fwdCnt = fwd\<rparr>
   }"

definition marshal :: "vsockHdr \<Rightarrow> bytes" where
  "marshal h = PutUint64 (srcCID h) @ PutUint64 (dstCID h) @ PutUint32 (srcPort h) @
     PutUint32 (dstPort h) @ PutUint32 (hdr_length h) @ PutUint16 (h_typ h) @ PutUint16 (h_op h) @
     PutUint32 (flags h) @ PutUint32 (bufAlloc h) @ PutUint32 (fwdCnt h)"

record vsockPkt =
  hdr :: vsockHdr
  payload :: bytes

definition zero_hdr :: vsockHdr where
  "zero_hdr = \<lparr>srcCID = 0, dstCID = 0, srcPort = 0, dstPort = 0, hdr_length = 0, h_typ = 0, h_op = 0,
     flags = 0, bufAlloc = 0, fwdCnt = 0\<rparr>"

definition zero_pkt :: vsockPkt where
  "zero_pkt = \<lparr>hdr = zero_hdr, payload = []\<rparr>"

definition connKey :: "u32 \<Rightarrow> u32 \<Rightarrow> u64" where
  "connKey src dst = push_bit 32 (ucast src) OR ucast dst"

definition pendingConnKey :: "vsockPkt \<Rightarrow> u64" where
  "pendingConnKey pkt = connKey (dstPort (hdr pkt)) (srcPort (hdr pkt))"

section \<open>The device state\<close>

text \<open>
  A connection. \<open>ncOut\<close> is what has been written to the host socket, \<open>sending\<close> the payload
  \<open>pumpOut\<close> holds between taking it from the queue and the end of its socket write, and
  \<open>doneClosed\<close> and \<open>ncClosed\<close> the states of the \<open>done\<close> channel and of the socket.
\<close>

record vsockConn =
  key :: u64
  peerBufAlloc :: u32
  peerFwdCnt :: u32
  txCnt :: u32
  rxCnt :: u32
  guestTx :: u32
  outQBytes :: int
  closed :: bool
  guestShutdown :: bool
  shutdownHdr :: vsockHdr
  established :: bool
  outQ :: "bytes list"
  outSig :: bool
  doneClosed :: bool
  ncClosed :: bool
  ncOut :: bytes
  sending :: "bytes option"

datatype pump = PumpHost nat u32 u32 | PumpOut nat

text \<open>
  \<open>dials\<close> is the host's answer to the coming connection attempts, \<open>spaceGen\<close> counts the
  broadcasts on \<open>spaceSig\<close>, \<open>doubleClose\<close> records that a closed channel was closed
  again and \<open>indexPanic\<close> that a slice was indexed out of range; both panic in Go.
\<close>

record Vsock =
  guestCID :: u64
  conns :: "u64 \<rightharpoonup> nat"
  arena :: "vsockConn list"
  pending :: "vsockPkt pendingRing"
  pendingCredit :: "u64 \<rightharpoonup> nat"
  spaceGen :: nat
  nextHostPort :: u32
  rxMissStreak :: nat
  closing :: bool
  pumps :: "pump list"
  dials :: "bool list"
  doubleClose :: bool
  indexPanic :: bool

definition panicked :: "Vsock \<Rightarrow> bool" where
  "panicked v \<longleftrightarrow> doubleClose v \<or> indexPanic v"

definition NewVsock :: "u64 \<Rightarrow> bool list \<Rightarrow> Vsock" where
  "NewVsock cid outcomes = \<lparr>guestCID = cid, conns = Map.empty, arena = [], pending = new_ring zero_pkt,
     pendingCredit = Map.empty, spaceGen = 0, nextHostPort = 0x100000, rxMissStreak = 0,
     closing = False, pumps = [], dials = outcomes, doubleClose = False, indexPanic = False\<rparr>"

definition new_conn :: "u64 \<Rightarrow> u32 \<Rightarrow> u32 \<Rightarrow> bool \<Rightarrow> vsockConn" where
  "new_conn k alloc fwd est = \<lparr>key = k, peerBufAlloc = alloc, peerFwdCnt = fwd, txCnt = 0, rxCnt = 0,
     guestTx = 0, outQBytes = 0, closed = False, guestShutdown = False, shutdownHdr = zero_hdr,
     established = est, outQ = [], outSig = False, doneClosed = False, ncClosed = False, ncOut = [],
     sending = None\<rparr>"

definition upd_conn :: "nat \<Rightarrow> (vsockConn \<Rightarrow> vsockConn) \<Rightarrow> Vsock \<Rightarrow> Vsock" where
  "upd_conn i f v = v\<lparr>arena := (arena v)[i := f (arena v ! i)]\<rparr>"

text \<open>\<open>closed = true\<close>, \<open>nc.Close()\<close> and \<open>close(done)\<close>.\<close>

definition shut_conn :: "nat \<Rightarrow> Vsock \<Rightarrow> Vsock" where
  "shut_conn i v =
     (upd_conn i (\<lambda>c. c\<lparr>closed := True, ncClosed := True, doneClosed := True\<rparr>) v)
       \<lparr>doubleClose := (doubleClose v \<or> doneClosed (arena v ! i))\<rparr>"

definition startWorkerLocked :: "pump \<Rightarrow> Vsock \<Rightarrow> Vsock" where
  "startWorkerLocked p v = (if closing v then v else v\<lparr>pumps := pumps v @ [p]\<rparr>)"

section \<open>The outbound queue\<close>

text \<open>The admission of a packet that does not replace a queued credit update.\<close>

definition admit :: "vsockPkt \<Rightarrow> Vsock \<Rightarrow> Vsock \<times> bool" where
  "admit pkt v =
     (let limit = (if h_op (hdr pkt) = vsockOpRW then vsockMaxPending - vsockControlReserve else vsockMaxPending) in
      if count (pending v) \<ge> limit then (v, False)
      else case ring_Push pkt (pending v) of
        (q, slot, ok) \<Rightarrow>
          (if \<not> ok then (v, False)
           else if h_op (hdr pkt) = vsockOpCreditUpdate
           then (v\<lparr>pending := q, pendingCredit := (pendingCredit v)(pendingConnKey pkt \<mapsto> slot)\<rparr>, True)
           else (v\<lparr>pending := q\<rparr>, True)))"

definition queuePending :: "vsockPkt \<Rightarrow> Vsock \<Rightarrow> Vsock \<times> bool" where
  "queuePending pkt v =
     (case (if h_op (hdr pkt) = vsockOpCreditUpdate then pendingCredit v (pendingConnKey pkt) else None) of
        None \<Rightarrow> admit pkt v
      | Some s \<Rightarrow>
          (if \<not> s < length (slots (pending v)) then (v\<lparr>indexPanic := True\<rparr>, False)
           else let existing = slots (pending v) ! s in
           if h_op (hdr existing) = vsockOpCreditUpdate \<and> pendingConnKey existing = pendingConnKey pkt
           then (v\<lparr>pending := ring_set s pkt (pending v)\<rparr>, True)
           else admit pkt (v\<lparr>pendingCredit := (pendingCredit v)(pendingConnKey pkt := None)\<rparr>)))"

definition popPending :: "Vsock \<Rightarrow> Vsock" where
  "popPending v =
     (case ring_Front (pending v) of
        None \<Rightarrow> v
      | Some (pkt, slot) \<Rightarrow>
          (let k = pendingConnKey pkt;
               credit = (if h_op (hdr pkt) = vsockOpCreditUpdate \<and>
                            (case pendingCredit v k of Some s \<Rightarrow> s | None \<Rightarrow> 0) = slot
                         then (pendingCredit v)(k := None) else pendingCredit v);
               q = ring_Pop zero_pkt (pending v) in
           v\<lparr>pending := q, pendingCredit := credit,
             spaceGen := (if count q < vsockMaxPending - vsockControlReserve
                          then spaceGen v + 1 else spaceGen v)\<rparr>))"

definition rxCntFor :: "vsockHdr \<Rightarrow> Vsock \<Rightarrow> u32" where
  "rxCntFor trigger v =
     (case conns v (connKey (srcPort trigger) (dstPort trigger)) of
        Some i \<Rightarrow> rxCnt (arena v ! i) | None \<Rightarrow> 0)"

definition peerCredit :: "vsockConn \<Rightarrow> u32" where
  "peerCredit c =
     (let inFlight = txCnt c - peerFwdCnt c in
      if inFlight \<ge> peerBufAlloc c then 0 else peerBufAlloc c - inFlight)"

text \<open>\<open>closeConn\<close> up to the RST it may send.\<close>

definition closeConn_mark :: "nat \<Rightarrow> Vsock \<Rightarrow> Vsock" where
  "closeConn_mark i v =
     (let v' = shut_conn i v in v'\<lparr>conns := (conns v')(key (arena v ! i) := None)\<rparr>)"

definition ctrl_pkt :: "vsockHdr \<Rightarrow> u16 \<Rightarrow> u32 \<Rightarrow> u32 \<Rightarrow> Vsock \<Rightarrow> vsockPkt" where
  "ctrl_pkt trigger opc fl fwd v = \<lparr>hdr = \<lparr>srcCID = vsockHostCID, dstCID = guestCID v,
     srcPort = dstPort trigger, dstPort = srcPort trigger, hdr_length = 0, h_typ = vsockTypeStream,
     h_op = opc, flags = fl, bufAlloc = of_nat vsockBufAlloc, fwdCnt = fwd\<rparr>, payload = []\<rparr>"

section \<open>Delivery to the guest\<close>

text \<open>
  \<open>rxMiss\<close> up to the flush its RST triggers: the result says whether that flush runs.
\<close>

definition rxMiss :: "vsockPkt \<Rightarrow> Core \<Rightarrow> Vsock \<Rightarrow> Vsock \<times> bool" where
  "rxMiss pkt c v =
     (let streak = rxMissStreak v + 1 in
      if streak \<le> unat (num (queues c ! vsockQueueRx)) then (v\<lparr>rxMissStreak := streak\<rparr>, False)
      else let v1 = popPending (v\<lparr>rxMissStreak := 0\<rparr>) in
        case conns v1 (pendingConnKey pkt) of
          None \<Rightarrow> (v1, False)
        | Some i \<Rightarrow>
            (if closed (arena v1 ! i) then (v1, False)
             else queuePending (ctrl_pkt (zero_hdr\<lparr>srcPort := dstPort (hdr pkt), dstPort := srcPort (hdr pkt)\<rparr>)
                    vsockOpRST 0 (rxCnt (arena v1 ! i)) v1) (closeConn_mark i v1)))"

definition rx_stalled :: "vsockPkt \<Rightarrow> Vsock \<Rightarrow> bool" where
  "rx_stalled pkt v \<longleftrightarrow> h_op (hdr pkt) = vsockOpRW \<and> length (payload pkt) > 0 \<and>
     (case conns v (pendingConnKey pkt) of
        None \<Rightarrow> False
      | Some i \<Rightarrow> of_nat (length (payload pkt)) > peerCredit (arena v ! i))"

definition rx_capacity :: "desc list \<Rightarrow> u64" where
  "rx_capacity ds = sum_list (map (\<lambda>d. ucast (d_len d)) ds)"

definition rx_frame :: "vsockPkt \<Rightarrow> bytes" where
  "rx_frame pkt = marshal ((hdr pkt)\<lparr>hdr_length := of_nat (length (payload pkt))\<rparr>) @ payload pkt"

definition count_tx :: "vsockPkt \<Rightarrow> u32 \<Rightarrow> Vsock \<Rightarrow> Vsock" where
  "count_tx pkt n v =
     (case conns v (pendingConnKey pkt) of
        Some i \<Rightarrow> if n > of_nat vsockHdrLen
                   then upd_conn i (\<lambda>c. c\<lparr>txCnt := txCnt c + (n - of_nat vsockHdrLen)\<rparr>) v else v
      | None \<Rightarrow> v)"

definition vsock_maxChainBytes :: "nat \<Rightarrow> u64" where
  "vsock_maxChainBytes qn = vsockMaxChainBytes"

text \<open>
  One iteration of the loop of \<open>tryFlush\<close>: \<open>Inl\<close> returns, \<open>Inr\<close> continues, after the nested
  flush of a reset connection when the flag is set.
\<close>

definition flush_step :: "Core \<times> Vsock \<Rightarrow> (Core \<times> Vsock) + (Core \<times> Vsock) \<times> bool" where
  "flush_step cv =
     (let c = fst cv; v = snd cv in
      case ring_Front (pending v) of
        None \<Rightarrow> Inl (c, v)
      | Some (pkt, _) \<Rightarrow>
          (if rx_stalled pkt v then Inl (c, v)
           else case availChain (chainLimit (Some vsock_maxChainBytes) (mem c) vsockQueueRx) vsockQueueRx c of
             (c1, None) \<Rightarrow> Inl (c1, v)
           | (c1, Some (hd1, chain)) \<Rightarrow>
               (let inn = snd (splitChain chain); frameLen = vsockHdrLen + length (payload pkt) in
                if rx_capacity inn < of_nat frameLen
                then (let (v1, again) = rxMiss pkt c1 v in
                      Inr ((pushUsed vsockQueueRx hd1 0 c1, v1), again))
                else case writeChains inn (rx_frame pkt) c1 of
                  (c2, n, err) \<Rightarrow>
                    (if err \<noteq> None \<or> n \<noteq> of_nat frameLen
                     then (let (v1, again) = rxMiss pkt c2 v in
                           Inr ((pushUsed vsockQueueRx hd1 0 c2, v1), again))
                     else Inr ((pushUsed vsockQueueRx hd1 n c2,
                                popPending ((count_tx pkt n v)\<lparr>rxMissStreak := 0\<rparr>)), False)))))"

text \<open>The loop. It takes the receive queue first, which panics without one, and it ends with a panic.\<close>

partial_function (option) tryFlush :: "Core \<times> Vsock \<Rightarrow> (Core \<times> Vsock) option" where
  "tryFlush cv =
     (if panicked (snd cv) then Some cv
      else if \<not> vsockQueueRx < length (queues (fst cv)) then Some (fst cv, (snd cv)\<lparr>indexPanic := True\<rparr>)
      else case flush_step cv of
        Inl r \<Rightarrow> Some r
      | Inr (s, again) \<Rightarrow> if again then Option.bind (tryFlush s) tryFlush else tryFlush s)"

definition enqueueCtrlWithFwd :: "vsockHdr \<Rightarrow> u16 \<Rightarrow> u32 \<Rightarrow> u32 \<Rightarrow> Core \<times> Vsock \<Rightarrow> ((Core \<times> Vsock) \<times> bool) option" where
  "enqueueCtrlWithFwd trigger opc fl fwd cv =
     (case queuePending (ctrl_pkt trigger opc fl fwd (snd cv)) (snd cv) of
        (v', queued) \<Rightarrow>
          (if queued then map_option (\<lambda>s. (s, True)) (tryFlush (fst cv, v'))
           else Some ((fst cv, v'), False)))"

definition enqueueCtrl :: "vsockHdr \<Rightarrow> u16 \<Rightarrow> u32 \<Rightarrow> Core \<times> Vsock \<Rightarrow> ((Core \<times> Vsock) \<times> bool) option" where
  "enqueueCtrl trigger opc fl cv = enqueueCtrlWithFwd trigger opc fl (rxCntFor trigger (snd cv)) cv"

definition closeConn :: "nat \<Rightarrow> vsockHdr \<Rightarrow> bool \<Rightarrow> Core \<times> Vsock \<Rightarrow> (Core \<times> Vsock) option" where
  "closeConn i trigger sendRST cv =
     (let c = fst cv; v = snd cv in
      if closed (arena v ! i) then Some cv
      else let v' = closeConn_mark i v in
        if sendRST
        then map_option fst (enqueueCtrlWithFwd trigger vsockOpRST 0 (rxCnt (arena v ! i)) (c, v'))
        else Some (c, v'))"

section \<open>The transmit queue\<close>

definition set_peer :: "vsockHdr \<Rightarrow> vsockConn \<Rightarrow> vsockConn" where
  "set_peer h c = c\<lparr>peerBufAlloc := bufAlloc h, peerFwdCnt := fwdCnt h\<rparr>"

definition tx_key :: "vsockHdr \<Rightarrow> u64" where
  "tx_key h = connKey (srcPort h) (dstPort h)"

definition send_rst :: "vsockHdr \<Rightarrow> Core \<times> Vsock \<Rightarrow> (Core \<times> Vsock) option" where
  "send_rst h cv = map_option fst (enqueueCtrl h vsockOpRST 0 cv)"

definition tx_request :: "vsockHdr \<Rightarrow> Core \<times> Vsock \<Rightarrow> (Core \<times> Vsock) option" where
  "tx_request h cv =
     (let c = fst cv; v = snd cv in
      if dstCID h \<noteq> vsockHostCID \<or> conns v (tx_key h) \<noteq> None then send_rst h cv
      else case dials v of
        True # ds \<Rightarrow>
          (let i = length (arena v);
               v1 = v\<lparr>dials := ds, arena := arena v @ [new_conn (tx_key h) (bufAlloc h) (fwdCnt h) True],
                      conns := (conns v)(tx_key h \<mapsto> i)\<rparr> in
           case enqueueCtrl h vsockOpResponse 0 (c, v1) of
             None \<Rightarrow> None
           | Some ((c2, v2), queued) \<Rightarrow>
               (if \<not> queued
                then (let v3 = shut_conn i v2 in Some (c2, v3\<lparr>conns := (conns v3)(tx_key h := None)\<rparr>))
                else Some (c2, startWorkerLocked (PumpOut i)
                             (startWorkerLocked (PumpHost i (srcPort h) (dstPort h)) v2))))
      | _ \<Rightarrow> send_rst h (c, v\<lparr>dials := tl (dials v)\<rparr>))"

definition rw_beyond :: "bytes \<Rightarrow> vsockConn \<Rightarrow> bool" where
  "rw_beyond data x \<longleftrightarrow> guestTx x - rxCnt x > of_nat vsockBufAlloc \<or>
     outQBytes x + int (length data) > int vsockBufAlloc \<or> length (outQ x) \<ge> vsockOutQMaxPackets"

definition rw_queue :: "bytes \<Rightarrow> vsockConn \<Rightarrow> vsockConn" where
  "rw_queue data x = x\<lparr>outQ := outQ x @ [data], outQBytes := outQBytes x + int (length data), outSig := True\<rparr>"

definition tx_rw :: "vsockHdr \<Rightarrow> bytes \<Rightarrow> Core \<times> Vsock \<Rightarrow> (Core \<times> Vsock) option" where
  "tx_rw h data cv =
     (let c = fst cv; v = snd cv in
      case conns v (tx_key h) of
        None \<Rightarrow> send_rst h cv
      | Some i \<Rightarrow>
          (if closed (arena v ! i) then send_rst h cv
           else let v1 = upd_conn i (set_peer h) v in
             if length data = 0 then Some (c, v1)
             else let v2 = upd_conn i (\<lambda>x. x\<lparr>guestTx := guestTx x + of_nat (length data)\<rparr>) v1 in
               if rw_beyond data (arena v2 ! i) then closeConn i h True (c, v2)
               else Some (c, upd_conn i (rw_queue data) v2)))"

definition tx_response :: "vsockHdr \<Rightarrow> Core \<times> Vsock \<Rightarrow> (Core \<times> Vsock) option" where
  "tx_response h cv =
     (let v = snd cv in
      case conns v (tx_key h) of
        None \<Rightarrow> Some cv
      | Some i \<Rightarrow>
          (if established (arena v ! i) then Some cv
           else Some (fst cv, startWorkerLocked (PumpHost i (srcPort h) (dstPort h))
                  (upd_conn i (\<lambda>x. set_peer h (x\<lparr>established := True\<rparr>)) v))))"

definition tx_credit_req :: "vsockHdr \<Rightarrow> Core \<times> Vsock \<Rightarrow> (Core \<times> Vsock) option" where
  "tx_credit_req h cv =
     (case conns (snd cv) (tx_key h) of
        None \<Rightarrow> Some cv
      | Some i \<Rightarrow> map_option fst (enqueueCtrl h vsockOpCreditUpdate 0 (fst cv, upd_conn i (set_peer h) (snd cv))))"

definition tx_credit_update :: "vsockHdr \<Rightarrow> Core \<times> Vsock \<Rightarrow> (Core \<times> Vsock) option" where
  "tx_credit_update h cv =
     (case conns (snd cv) (tx_key h) of
        None \<Rightarrow> Some cv
      | Some i \<Rightarrow> tryFlush (fst cv, upd_conn i (set_peer h) (snd cv)))"

definition tx_shutdown :: "vsockHdr \<Rightarrow> Core \<times> Vsock \<Rightarrow> (Core \<times> Vsock) option" where
  "tx_shutdown h cv =
     (case conns (snd cv) (tx_key h) of
        None \<Rightarrow> Some cv
      | Some i \<Rightarrow> Some (fst cv, upd_conn i
          (\<lambda>x. x\<lparr>guestShutdown := True, shutdownHdr := h, outSig := True\<rparr>) (snd cv)))"

definition tx_rst :: "vsockHdr \<Rightarrow> Core \<times> Vsock \<Rightarrow> (Core \<times> Vsock) option" where
  "tx_rst h cv =
     (case conns (snd cv) (tx_key h) of
        None \<Rightarrow> Some cv
      | Some i \<Rightarrow> closeConn i h False cv)"

definition tx_packet :: "vsockHdr \<Rightarrow> bytes \<Rightarrow> Core \<times> Vsock \<Rightarrow> (Core \<times> Vsock) option" where
  "tx_packet h data cv =
     (if h_typ h \<noteq> vsockTypeStream then Some cv
      else if h_op h = vsockOpRequest then tx_request h cv
      else if h_op h = vsockOpRW then tx_rw h data cv
      else if h_op h = vsockOpResponse then tx_response h cv
      else if h_op h = vsockOpCreditReq then tx_credit_req h cv
      else if h_op h = vsockOpCreditUpdate then tx_credit_update h cv
      else if h_op h = vsockOpShutdown then tx_shutdown h cv
      else if h_op h = vsockOpRST then tx_rst h cv
      else Some cv)"

text \<open>The outcome of an operation that returned a state, or did not return.\<close>

definition settled :: "(Core \<times> Vsock) option \<Rightarrow> (Core \<times> Vsock) outcome" where
  "settled res = (case res of None \<Rightarrow> Diverges | Some cv \<Rightarrow> if panicked (snd cv) then Panics else Done cv)"

definition tx_step :: "u16 \<Rightarrow> desc list \<Rightarrow> Core \<times> Vsock \<Rightarrow> (Core \<times> Vsock) outcome" where
  "tx_step hd1 chain cv =
     (let c = fst cv; v = snd cv; c1 = pushUsed vsockQueueTx hd1 0 c in
      case readChains (mem c) (fst (splitChain chain)) of
        Inl _ \<Rightarrow> Done (c1, v)
      | Inr data \<Rightarrow>
          (if length data < vsockHdrLen then Done (c1, v)
           else case slice_to vsockHdrLen data of None \<Rightarrow> Panics | Some b \<Rightarrow>
           case parseVsockHdr b of None \<Rightarrow> Panics | Some h \<Rightarrow>
           case slice_from vsockHdrLen data of None \<Rightarrow> Panics | Some rest \<Rightarrow>
             settled (tx_packet h rest (c1, v))))"

definition handleTx :: "Core \<times> Vsock \<Rightarrow> (Core \<times> Vsock) outcome" where
  "handleTx cv =
     (if vsockQueueTx < length (queues (fst cv))
      then loop_result (drain (Some vsock_maxChainBytes) tx_step vsockQueueTx cv) else Panics)"

definition vsock_handleQueue :: "nat \<Rightarrow> Core \<times> Vsock \<Rightarrow> (Core \<times> Vsock) outcome" where
  "vsock_handleQueue qn cv =
     (if qn = vsockQueueTx then handleTx cv
      else if qn = vsockQueueRx then settled (tryFlush cv)
      else Done cv)"

definition vsock_configRead :: "Vsock \<Rightarrow> u64 \<Rightarrow> bytes \<Rightarrow> bytes" where
  "vsock_configRead v offs p =
     (if offs < 8 then let src = take (length p) (drop (unat offs) (PutUint64 (guestCID v))) in
        src @ drop (length src) p
      else p)"

section \<open>Teardown, injection and the pumps\<close>

text \<open>The loop over the connection table that \<open>reset\<close> and \<open>Close\<close> run.\<close>

definition shut_entry :: "nat \<Rightarrow> Vsock \<Rightarrow> Vsock" where
  "shut_entry i v =
     (let k = key (arena v ! i) in
      if conns v k = Some i then (shut_conn i v)\<lparr>conns := (conns v)(k := None)\<rparr> else v)"

definition shut_all :: "Vsock \<Rightarrow> Vsock" where
  "shut_all v = fold shut_entry [0..<length (arena v)] v"

definition vsock_reset :: "Vsock \<Rightarrow> Vsock" where
  "vsock_reset v = (shut_all v)\<lparr>pending := ring_Reset zero_pkt (pending v), pendingCredit := Map.empty,
     rxMissStreak := 0\<rparr>"

text \<open>
  The two locked sections of \<open>Close\<close>, run once. Between them the lock is free while the listeners,
  host sockets of no concern here, are closed: other operations may run on a device that is closing
  and still has connections.
\<close>

definition vsock_Close_begin :: "Vsock \<Rightarrow> Vsock" where
  "vsock_Close_begin v = v\<lparr>closing := True\<rparr>"

definition vsock_Close_end :: "Vsock \<Rightarrow> Vsock" where
  "vsock_Close_end v = shut_all v"

datatype inject_error = ErrClosed | ErrVsockPendingFull

definition InjectConn :: "u32 \<Rightarrow> Core \<times> Vsock \<Rightarrow> ((Core \<times> Vsock) \<times> inject_error option) option" where
  "InjectConn guestPort cv =
     (let c = fst cv; v = snd cv; sp = nextHostPort v; k = connKey guestPort sp in
      if closing v then Some (cv, Some ErrClosed)
      else case queuePending \<lparr>hdr = zero_hdr\<lparr>srcCID := vsockHostCID, dstCID := guestCID v, srcPort := sp,
               dstPort := guestPort, h_typ := vsockTypeStream, h_op := vsockOpRequest,
               bufAlloc := of_nat vsockBufAlloc\<rparr>, payload = []\<rparr> v of
        (v1, queued) \<Rightarrow>
          (if \<not> queued then Some ((c, v1), Some ErrVsockPendingFull)
           else let i = length (arena v1);
                    v2 = v1\<lparr>nextHostPort := sp + 1,
                           arena := arena v1 @ [new_conn k (of_nat vsockBufAlloc) 0 False],
                           conns := (conns v1)(k \<mapsto> i)\<rparr> in
             map_option (\<lambda>s. (s, None)) (tryFlush (c, startWorkerLocked (PumpOut i) v2))))"

text \<open>
  The locked sections of \<open>pumpOut\<close>: taking the next payload (or closing after the guest's
  shutdown once the queue is empty), and accounting for the socket write, of which \<open>n\<close> bytes
  reached the host when it failed.
\<close>

definition pump_trigger :: "vsockConn \<Rightarrow> vsockHdr" where
  "pump_trigger x = zero_hdr\<lparr>srcPort := ucast (drop_bit 32 (key x)), dstPort := ucast (key x)\<rparr>"

definition pumpOut_next :: "nat \<Rightarrow> Core \<times> Vsock \<Rightarrow> (Core \<times> Vsock) option" where
  "pumpOut_next i cv =
     (let v = snd cv; x = arena v ! i in
      case outQ x of
        [] \<Rightarrow> (if guestShutdown x \<and> \<not> closed x then closeConn i (shutdownHdr x) True cv
               else Some (fst cv, upd_conn i (\<lambda>y. y\<lparr>outSig := False\<rparr>) v))
      | p # ps \<Rightarrow> Some (fst cv, upd_conn i
          (\<lambda>y. y\<lparr>outQ := ps, outQBytes := outQBytes y - int (length p), sending := Some p\<rparr>) v))"

definition pumpOut_wrote :: "nat \<Rightarrow> Core \<times> Vsock \<Rightarrow> (Core \<times> Vsock) option" where
  "pumpOut_wrote i cv =
     (case sending (arena (snd cv) ! i) of
        None \<Rightarrow> Some cv
      | Some p \<Rightarrow>
          (let v1 = upd_conn i (\<lambda>y. y\<lparr>sending := None, ncOut := ncOut y @ p\<rparr>) (snd cv) in
           if closed (arena v1 ! i) then Some (fst cv, v1)
           else map_option fst (enqueueCtrl (pump_trigger (arena v1 ! i)) vsockOpCreditUpdate 0
             (fst cv, upd_conn i (\<lambda>y. y\<lparr>rxCnt := rxCnt y + of_nat (length p)\<rparr>) v1))))"

definition pumpOut_failed :: "nat \<Rightarrow> nat \<Rightarrow> Core \<times> Vsock \<Rightarrow> (Core \<times> Vsock) option" where
  "pumpOut_failed i n cv =
     (case sending (arena (snd cv) ! i) of
        None \<Rightarrow> Some cv
      | Some p \<Rightarrow>
          (let v1 = upd_conn i (\<lambda>y. y\<lparr>sending := None, ncOut := ncOut y @ take n p\<rparr>) (snd cv) in
           if closed (arena v1 ! i) then Some (fst cv, v1)
           else closeConn i (pump_trigger (arena v1 ! i)) True (fst cv, v1)))"

text \<open>
  The locked sections of \<open>pumpHost\<close>: forwarding what one socket read returned once a data slot
  is free (\<open>None\<close> of the inner option parks), and closing at the end of the stream.
\<close>

definition rw_pkt :: "u32 \<Rightarrow> u32 \<Rightarrow> u32 \<Rightarrow> bytes \<Rightarrow> Vsock \<Rightarrow> vsockPkt" where
  "rw_pkt sp dp fwd p v = \<lparr>hdr = zero_hdr\<lparr>srcCID := vsockHostCID, dstCID := guestCID v, srcPort := dp,
     dstPort := sp, h_typ := vsockTypeStream, h_op := vsockOpRW, bufAlloc := of_nat vsockBufAlloc,
     fwdCnt := fwd\<rparr>, payload = p\<rparr>"

definition pumpHost_deliver :: "nat \<Rightarrow> u32 \<Rightarrow> u32 \<Rightarrow> bytes \<Rightarrow> Core \<times> Vsock \<Rightarrow> (Core \<times> Vsock) option option" where
  "pumpHost_deliver i sp dp p cv =
     (let v = snd cv; x = arena v ! i in
      if closed x then Some (Some cv)
      else if count (pending v) \<ge> vsockMaxPending - vsockControlReserve then None
      else Some (case queuePending (rw_pkt sp dp (rxCnt x) p v) v of
        (v1, queued) \<Rightarrow>
          (if queued then tryFlush (fst cv, v1)
           else closeConn i (zero_hdr\<lparr>h_op := vsockOpRW, srcPort := sp, dstPort := dp\<rparr>) True (fst cv, v1))))"

definition pumpHost_eof :: "nat \<Rightarrow> u32 \<Rightarrow> u32 \<Rightarrow> Core \<times> Vsock \<Rightarrow> (Core \<times> Vsock) option" where
  "pumpHost_eof i sp dp cv =
     (if closed (arena (snd cv) ! i) then Some cv
      else closeConn i (zero_hdr\<lparr>srcPort := sp, dstPort := dp\<rparr>) True cv)"

definition VsockDevice :: "Vsock Device" where
  "VsockDevice = \<lparr>deviceID = 19, features = (\<lambda>_. 0), numQueues = 3, configRead = vsock_configRead,
     configWrite = (\<lambda>v _ _. v), dev_reset = vsock_reset, handleQueue = vsock_handleQueue\<rparr>"

end
