(* ===== verification/Vsock_Invariant.thy ===== *)
theory Vsock_Invariant
  imports Vsock
begin

text \<open>
  The invariant of the vsock device and its preservation by every operation: connections in
  the table are open, their queues are within the advertised credit, the outbound queue is a
  well-formed ring whose credit updates are indexed exactly, and nothing has panicked.
\<close>

section \<open>The invariant\<close>

definition conn_ok :: "vsockConn \<Rightarrow> bool" where
  "conn_ok x \<longleftrightarrow> outQBytes x = int (length (concat (outQ x))) \<and> outQBytes x \<le> int vsockBufAlloc \<and>
     length (outQ x) \<le> vsockOutQMaxPackets \<and> doneClosed x = closed x \<and> ncClosed x = closed x"

definition table_ok :: "Vsock \<Rightarrow> bool" where
  "table_ok v \<longleftrightarrow> (\<forall>k i. conns v k = Some i \<longrightarrow>
     i < length (arena v) \<and> key (arena v ! i) = k \<and> \<not> closed (arena v ! i))"

definition is_credit :: "vsockPkt \<Rightarrow> bool" where
  "is_credit pkt \<longleftrightarrow> h_op (hdr pkt) = vsockOpCreditUpdate"

definition slot_of :: "'a pendingRing \<Rightarrow> nat \<Rightarrow> nat" where
  "slot_of q j = (head q + j) mod length (slots q)"

text \<open>
  The credit index: it points at the queued credit update of each connection that has one,
  and at nothing else.
\<close>

definition credit_ok :: "vsockPkt pendingRing \<Rightarrow> (u64 \<rightharpoonup> nat) \<Rightarrow> bool" where
  "credit_ok q m \<longleftrightarrow>
     (\<forall>k s. m k = Some s \<longrightarrow> (\<exists>j < count q. s = slot_of q j \<and> is_credit (ring_at q j) \<and>
        pendingConnKey (ring_at q j) = k)) \<and>
     (\<forall>j < count q. is_credit (ring_at q j) \<longrightarrow> m (pendingConnKey (ring_at q j)) = Some (slot_of q j))"

definition vsock_ok :: "Vsock \<Rightarrow> bool" where
  "vsock_ok v \<longleftrightarrow> ring_ok zero_pkt (pending v) \<and> credit_ok (pending v) (pendingCredit v) \<and>
     table_ok v \<and> list_all conn_ok (arena v) \<and> \<not> doubleClose v \<and> \<not> indexPanic v"

section \<open>The outbound queue\<close>

lemma not_credit_zero: "\<not> is_credit zero_pkt"
  by (simp add: is_credit_def zero_pkt_def zero_hdr_def vsock_ops)

lemma slot_at: "slots q ! slot_of q j = ring_at q j"
  by (simp add: slot_of_def ring_at_def)

lemma slot_less: "ring_ok z q \<Longrightarrow> slot_of q j < length (slots q)"
  by (simp add: slot_of_def ring_ok_def pendingRingCapacity_def)

lemma slot_inj:
  assumes "ring_ok z q" and "i < pendingRingCapacity" and "j < pendingRingCapacity" and "slot_of q i = slot_of q j"
  shows "i = j"
  using assms mod_window_inj [of "head q" pendingRingCapacity i j] by (simp add: slot_of_def ring_ok_def)

lemma ring_set_at:
  assumes "ring_ok z q" and "i < pendingRingCapacity" and "j < pendingRingCapacity"
  shows "ring_at (ring_set (slot_of q i) x q) j = (if j = i then x else ring_at q j)"
  using ring_at_update [OF assms, where v = x and k = "count q"] by (simp add: ring_set_def slot_of_def ring_at_def)

lemma ring_set_ok:
  assumes "ring_ok z q" and "i < count q"
  shows "ring_ok z (ring_set (slot_of q i) x q)"
proof -
  have i: "i < pendingRingCapacity" using assms by (simp add: ring_ok_def)
  from ring_set_at [OF assms(1) i] assms show ?thesis
    by (auto simp: ring_ok_def) (auto simp: ring_set_def)
qed

text \<open>Replacing a queued update by a newer one of the same connection keeps the index.\<close>

lemma credit_ok_set:
  assumes "ring_ok z q" and "credit_ok q m" and "i < count q" and "is_credit (ring_at q i)"
    and "is_credit pkt" and "pendingConnKey pkt = pendingConnKey (ring_at q i)"
  shows "credit_ok (ring_set (slot_of q i) pkt q) m"
proof -
  let ?q = "ring_set (slot_of q i) pkt q"
  have c: "count ?q = count q" "slot_of ?q = slot_of q"
    by (simp_all add: ring_set_def slot_of_def fun_eq_iff)
  have le: "count q \<le> pendingRingCapacity" using assms(1) by (simp add: ring_ok_def)
  have at: "ring_at ?q j = (if j = i then pkt else ring_at q j)" if "j < count q" for j
    using ring_set_at [OF assms(1), of i j pkt] assms(3) le that by simp
  have "is_credit (ring_at ?q j) = is_credit (ring_at q j) \<and>
      pendingConnKey (ring_at ?q j) = pendingConnKey (ring_at q j)" if "j < count q" for j
    using at [OF that] assms(4-6) by simp
  with assms(2) show ?thesis unfolding credit_ok_def c by (metis (no_types, lifting))
qed

lemma credit_ok_push:
  assumes "ring_ok z q" and "credit_ok q m" and "count q < pendingRingCapacity"
    and "is_credit pkt \<Longrightarrow> m (pendingConnKey pkt) = None" and "ring_Push pkt q = (q', s, ok)"
  shows "credit_ok q' (if is_credit pkt then m(pendingConnKey pkt \<mapsto> s) else m)"
proof -
  have q': "q' = q\<lparr>slots := (slots q)[(head q + count q) mod length (slots q) := pkt], count := count q + 1\<rparr>"
      "s = slot_of q (count q)"
    using ring_Push_room [OF assms(1,3), of pkt] assms(5) by (simp_all add: slot_of_def)
  have slot: "slot_of q' = slot_of q" by (simp add: q' slot_of_def fun_eq_iff)
  have at: "ring_at q' j = (if j = count q then pkt else ring_at q j)" if "j < count q + 1" for j
    using ring_at_update [OF assms(1,3), where j = j and v = pkt and k = "count q + 1"] that assms(3) by (simp add: q')
  have fresh: "pendingConnKey (ring_at q j) \<noteq> pendingConnKey pkt"
    if "is_credit pkt" "j < count q" "is_credit (ring_at q j)" for j
    using assms(2) assms(4) [OF that(1)] that(2,3) by (auto simp: credit_ok_def)
  have old: "m k = Some t \<Longrightarrow> \<exists>j < count q. t = slot_of q j \<and> is_credit (ring_at q j) \<and>
      pendingConnKey (ring_at q j) = k" for k t
    using assms(2) by (simp add: credit_ok_def)
  have new: "j < count q \<Longrightarrow> is_credit (ring_at q j) \<Longrightarrow> m (pendingConnKey (ring_at q j)) = Some (slot_of q j)" for j
    using assms(2) by (simp add: credit_ok_def)
  have cnt: "count q' = count q + 1" by (simp add: q')
  show ?thesis
    unfolding credit_ok_def slot cnt
  proof (intro conjI allI impI)
    fix k t
    assume t: "(if is_credit pkt then m(pendingConnKey pkt \<mapsto> s) else m) k = Some t"
    show "\<exists>j < count q + 1. t = slot_of q j \<and> is_credit (ring_at q' j) \<and> pendingConnKey (ring_at q' j) = k"
    proof (cases "is_credit pkt \<and> k = pendingConnKey pkt")
      case True
      with t q'(2) at [of "count q"] show ?thesis by (intro exI [of _ "count q"]) simp
    next
      case False
      with t have "m k = Some t" by (auto split: if_splits)
      from old [OF this] obtain j where "j < count q" "t = slot_of q j" "is_credit (ring_at q j)"
        "pendingConnKey (ring_at q j) = k" by blast
      with at [of j] show ?thesis by (intro exI [of _ j]) simp
    qed
  next
    fix j
    assume j: "j < count q + 1" "is_credit (ring_at q' j)"
    then show "(if is_credit pkt then m(pendingConnKey pkt \<mapsto> s) else m) (pendingConnKey (ring_at q' j)) = Some (slot_of q j)"
      using at [OF j(1)] new [of j] fresh [of j] q'(2) by (cases "j = count q") auto
  qed
qed

text \<open>Popping the front forgets its index entry, if it had one.\<close>

lemma credit_ok_pop:
  assumes ok: "ring_ok zero_pkt q" and cr: "credit_ok q m" and ne: "count q \<noteq> 0"
  shows "credit_ok (ring_Pop zero_pkt q)
    (if is_credit (ring_at q 0) then m(pendingConnKey (ring_at q 0) := None) else m)"
proof -
  let ?q = "ring_Pop zero_pkt q"
  let ?m = "if is_credit (ring_at q 0) then m(pendingConnKey (ring_at q 0) := None) else m"
  have cap: "count q \<le> pendingRingCapacity" using ok by (simp add: ring_ok_def)
  have at: "ring_at ?q j = ring_at q (j + 1)" if "j < count q - 1" for j
    using ring_Pop_at [OF ok ne, of j] that cap by simp
  have slot: "slot_of ?q j = slot_of q (j + 1)" for j
  proof (cases "head q + 1 = pendingRingCapacity")
    case True
    have len: "length (slots q) = pendingRingCapacity" using ok by (simp add: ring_ok_def)
    have "head q + (j + 1) = j + pendingRingCapacity" using True by simp
    then have "(head q + (j + 1)) mod pendingRingCapacity = j mod pendingRingCapacity"
      by (simp only: mod_add_self2)
    with True ne len show ?thesis by (simp add: slot_of_def ring_Pop_def Let_def)
  next
    case False
    with ok ne show ?thesis by (simp add: slot_of_def ring_Pop_def ring_ok_def Let_def)
  qed
  have cnt: "count ?q = count q - 1" by (rule count_Pop [OF ne])
  have old: "m k = Some t \<Longrightarrow> \<exists>j < count q. t = slot_of q j \<and> is_credit (ring_at q j) \<and>
      pendingConnKey (ring_at q j) = k" for k t
    using cr by (simp add: credit_ok_def)
  have new: "j < count q \<Longrightarrow> is_credit (ring_at q j) \<Longrightarrow> m (pendingConnKey (ring_at q j)) = Some (slot_of q j)" for j
    using cr by (simp add: credit_ok_def)
  show ?thesis
    unfolding credit_ok_def cnt slot
  proof (intro conjI allI impI)
    fix k t
    assume t: "?m k = Some t"
    then have mk: "m k = Some t" and nk: "is_credit (ring_at q 0) \<Longrightarrow> k \<noteq> pendingConnKey (ring_at q 0)"
      by (auto split: if_splits)
    from old [OF mk] obtain j where j: "j < count q" "t = slot_of q j" "is_credit (ring_at q j)"
      "pendingConnKey (ring_at q j) = k" by blast
    have "j \<noteq> 0" using j nk by (cases j) auto
    then obtain j' where "j = j' + 1" by (metis Suc_eq_plus1 not0_implies_Suc)
    with j at [of j'] show "\<exists>j < count q - 1. t = slot_of q (j + 1) \<and> is_credit (ring_at ?q j) \<and>
        pendingConnKey (ring_at ?q j) = k"
      by (intro exI [of _ j']) simp
  next
    fix j
    assume j: "j < count q - 1" "is_credit (ring_at ?q j)"
    have j1: "j + 1 < count q" using j(1) by simp
    have e: "m (pendingConnKey (ring_at q (j + 1))) = Some (slot_of q (j + 1))"
      using new [OF j1] j(2) at [OF j(1)] by simp
    moreover have "pendingConnKey (ring_at q (j + 1)) \<noteq> pendingConnKey (ring_at q 0)" if "is_credit (ring_at q 0)"
      using new [of 0] that e slot_inj [OF ok, of "j + 1" 0] j1 cap by auto
    ultimately show "?m (pendingConnKey (ring_at ?q j)) = Some (slot_of q (j + 1))"
      using at [OF j(1)] by simp
  qed
qed

lemma vsock_ok_popPending:
  assumes "vsock_ok v"
  shows "vsock_ok (popPending v) \<and> arena (popPending v) = arena v \<and> conns (popPending v) = conns v"
proof (cases "count (pending v) = 0")
  case True
  then show ?thesis using assms by (simp add: popPending_def ring_Front_def)
next
  case False
  let ?q = "pending v"
  let ?p = "ring_at ?q 0"
  have ok: "ring_ok zero_pkt ?q" and cr: "credit_ok ?q (pendingCredit v)"
    using assms by (simp_all add: vsock_ok_def)
  have front: "ring_Front ?q = Some (?p, slot_of ?q 0)"
    using False ok by (simp add: ring_Front_def ring_at_def slot_of_def ring_ok_def)
  have idx: "is_credit ?p \<Longrightarrow> pendingCredit v (pendingConnKey ?p) = Some (slot_of ?q 0)"
    using cr False by (simp add: credit_ok_def)
  have "popPending v = v\<lparr>pending := ring_Pop zero_pkt ?q,
      pendingCredit := (if is_credit ?p then (pendingCredit v)(pendingConnKey ?p := None) else pendingCredit v),
      spaceGen := (if count (ring_Pop zero_pkt ?q) < vsockMaxPending - vsockControlReserve
        then spaceGen v + 1 else spaceGen v)\<rparr>"
    using idx by (auto simp: popPending_def front is_credit_def Let_def)
  then show ?thesis
    using assms credit_ok_pop [OF ok cr False] ring_Pop_ok(1) [OF ok]
    by (simp add: vsock_ok_def table_ok_def)
qed

lemma vsock_ok_admit:
  assumes "vsock_ok v" and "is_credit pkt \<Longrightarrow> pendingCredit v (pendingConnKey pkt) = None"
  shows "vsock_ok (fst (admit pkt v)) \<and> arena (fst (admit pkt v)) = arena v \<and> conns (fst (admit pkt v)) = conns v"
proof (cases "count (pending v) < pendingRingCapacity")
  case False
  then have "admit pkt v = (v, False)" by (auto simp: admit_def Let_def vsockMaxPending_def)
  with assms(1) show ?thesis by simp
next
  case True
  have ok: "ring_ok zero_pkt (pending v)" and cr: "credit_ok (pending v) (pendingCredit v)"
    using assms(1) by (simp_all add: vsock_ok_def)
  obtain q' s b where p: "ring_Push pkt (pending v) = (q', s, b)" by (metis prod_cases3)
  have "credit_ok q' (if is_credit pkt then (pendingCredit v)(pendingConnKey pkt \<mapsto> s) else pendingCredit v)"
    using credit_ok_push [OF ok cr True assms(2) p] by simp
  moreover have "ring_ok zero_pkt q'" using ring_Push_ok(1) [OF ok True, of pkt] p by simp
  ultimately show ?thesis
    using assms(1) p by (auto simp: admit_def Let_def is_credit_def vsock_ok_def table_ok_def)
qed

lemma vsock_ok_queuePending:
  assumes "vsock_ok v"
  shows "vsock_ok (fst (queuePending pkt v)) \<and> arena (fst (queuePending pkt v)) = arena v \<and>
    conns (fst (queuePending pkt v)) = conns v"
proof (cases "is_credit pkt \<and> pendingCredit v (pendingConnKey pkt) \<noteq> None")
  case False
  then have "queuePending pkt v = admit pkt v"
    by (auto simp: queuePending_def is_credit_def split: option.splits)
  with vsock_ok_admit [OF assms, of pkt] False show ?thesis by simp
next
  case True
  then obtain s where s: "pendingCredit v (pendingConnKey pkt) = Some s" and cp: "is_credit pkt" by blast
  have ok: "ring_ok zero_pkt (pending v)" and cr: "credit_ok (pending v) (pendingCredit v)"
    using assms by (simp_all add: vsock_ok_def)
  from cr s obtain j where j: "j < count (pending v)" "s = slot_of (pending v) j"
      "is_credit (ring_at (pending v) j)" "pendingConnKey (ring_at (pending v) j) = pendingConnKey pkt"
    by (auto simp: credit_ok_def)
  have "queuePending pkt v = (v\<lparr>pending := ring_set s pkt (pending v)\<rparr>, True)"
    using s cp j slot_less [OF ok, of j] by (simp add: queuePending_def is_credit_def slot_at Let_def)
  then show ?thesis
    using assms ring_set_ok [OF ok j(1)] credit_ok_set [OF ok cr j(1,3) cp] j
    by (simp add: vsock_ok_def table_ok_def)
qed

section \<open>Connections\<close>

text \<open>Updates of one connection that keep its identity and its bounds keep the invariant.\<close>

lemma vsock_ok_upd:
  assumes "vsock_ok v" and "\<And>x. key (f x) = key x" and "\<And>x. closed (f x) = closed x"
    and "i < length (arena v) \<Longrightarrow> conn_ok (arena v ! i) \<Longrightarrow> conn_ok (f (arena v ! i))"
  shows "vsock_ok (upd_conn i f v)"
proof -
  have "list_all conn_ok ((arena v)[i := f (arena v ! i)])"
    using assms(1,4) by (intro list_all_update) (auto simp: vsock_ok_def list_all_length)
  moreover have "key ((arena v)[i := f (arena v ! i)] ! j) = key (arena v ! j) \<and>
      closed ((arena v)[i := f (arena v ! i)] ! j) = closed (arena v ! j)" for j
    using assms(2,3) by (cases "i < length (arena v)") (auto simp: nth_list_update list_update_beyond)
  then have "table_ok (upd_conn i f v)"
    using assms(1) by (simp add: vsock_ok_def table_ok_def upd_conn_def)
  ultimately show ?thesis
    using assms(1) by (simp add: vsock_ok_def) (simp add: upd_conn_def)
qed

lemma vsock_ok_fields [simp]:
  "vsock_ok (v\<lparr>rxMissStreak := n\<rparr>) = vsock_ok v" "vsock_ok (v\<lparr>dials := ds\<rparr>) = vsock_ok v"
  "vsock_ok (v\<lparr>closing := b\<rparr>) = vsock_ok v" "vsock_ok (v\<lparr>pumps := ps\<rparr>) = vsock_ok v"
  "vsock_ok (v\<lparr>nextHostPort := hp\<rparr>) = vsock_ok v"
  by (simp_all add: vsock_ok_def table_ok_def)

lemma vsock_ok_startWorker [simp]: "vsock_ok (startWorkerLocked p v) = vsock_ok v"
  by (simp add: startWorkerLocked_def)

lemma arena_startWorker [simp]: "arena (startWorkerLocked p v) = arena v"
  by (simp add: startWorkerLocked_def)

lemma length_upd [simp]: "length (arena (upd_conn i f v)) = length (arena v)"
  by (simp add: upd_conn_def)

text \<open>Shutting an open connection and dropping its table entry.\<close>

lemma vsock_ok_shut:
  assumes "vsock_ok v" and "i < length (arena v)" and "\<not> closed (arena v ! i)"
  shows "vsock_ok ((shut_conn i v)\<lparr>conns := (conns v)(key (arena v ! i) := None)\<rparr>)"
proof -
  have ok: "conn_ok (arena v ! i)" using assms by (simp add: vsock_ok_def list_all_length)
  then have nd: "\<not> doneClosed (arena v ! i)" using assms(3) by (simp add: conn_ok_def)
  let ?f = "\<lambda>c. c\<lparr>closed := True, ncClosed := True, doneClosed := True\<rparr>"
  have "list_all conn_ok ((arena v)[i := ?f (arena v ! i)])"
    using assms(1) ok by (intro list_all_update) (auto simp: vsock_ok_def conn_ok_def)
  with assms nd show ?thesis
    by (auto simp: vsock_ok_def table_ok_def shut_conn_def upd_conn_def nth_list_update split: if_splits)
qed

lemma vsock_ok_closeConn_mark:
  assumes "vsock_ok v" and "i < length (arena v)" and "\<not> closed (arena v ! i)"
  shows "vsock_ok (closeConn_mark i v)" and "length (arena (closeConn_mark i v)) = length (arena v)"
proof -
  have "closeConn_mark i v = (shut_conn i v)\<lparr>conns := (conns v)(key (arena v ! i) := None)\<rparr>"
    by (simp add: closeConn_mark_def Let_def shut_conn_def upd_conn_def)
  with vsock_ok_shut [OF assms] show "vsock_ok (closeConn_mark i v)" by simp
qed (simp add: closeConn_mark_def Let_def shut_conn_def)

lemma vsock_ok_add:
  assumes "vsock_ok v"
  shows "vsock_ok (v\<lparr>arena := arena v @ [new_conn k a f e], conns := (conns v)(k \<mapsto> length (arena v))\<rparr>)"
proof -
  have "conn_ok (new_conn k a f e)"
    by (simp add: conn_ok_def new_conn_def vsock_consts)
  with assms show ?thesis
    by (auto simp: vsock_ok_def table_ok_def nth_append new_conn_def less_Suc_eq)
qed

section \<open>The flush loop\<close>

text \<open>
  A result of an operation that started in \<open>(c, v)\<close>: when it returns, both invariants hold,
  the queues keep their programming and no connection disappears from the arena.
\<close>

definition fine :: "Core \<Rightarrow> Vsock \<Rightarrow> Core \<times> Vsock \<Rightarrow> bool" where
  "fine c v s \<longleftrightarrow> core_ok (fst s) \<and> same_config c (fst s) \<and> vsock_ok (snd s) \<and>
     length (arena v) \<le> length (arena (snd s))"

lemma fine_refl: "core_ok c \<Longrightarrow> vsock_ok v \<Longrightarrow> fine c v (c, v)"
  by (simp add: fine_def)

lemma fine_trans: "fine c v (c1, v1) \<Longrightarrow> fine c1 v1 s \<Longrightarrow> fine c v s"
  using same_config_trans by (fastforce simp: fine_def)

lemma fineI:
  "core_ok c' \<Longrightarrow> same_config c c' \<Longrightarrow> vsock_ok v' \<Longrightarrow> length (arena v) \<le> length (arena v') \<Longrightarrow> fine c v (c', v')"
  by (simp add: fine_def)

lemma rxMiss_ok:
  assumes "vsock_ok v"
  shows "vsock_ok (fst (rxMiss pkt c v)) \<and> length (arena (fst (rxMiss pkt c v))) = length (arena v)"
proof -
  let ?v1 = "popPending (v\<lparr>rxMissStreak := 0\<rparr>)"
  have p: "vsock_ok ?v1" "arena ?v1 = arena v"
    using vsock_ok_popPending [of "v\<lparr>rxMissStreak := 0\<rparr>"] assms by simp_all
  show ?thesis
  proof (cases "rxMissStreak v + 1 \<le> unat (num (queues c ! vsockQueueRx)) \<or> conns ?v1 (pendingConnKey pkt) = None")
    case True
    then show ?thesis using assms p by (auto simp: rxMiss_def Let_def)
  next
    case False
    then obtain i where i: "conns ?v1 (pendingConnKey pkt) = Some i" by blast
    have io: "i < length (arena ?v1)" "\<not> closed (arena ?v1 ! i)"
      using p(1) i by (auto simp: vsock_ok_def table_ok_def)
    note m = vsock_ok_closeConn_mark [OF p(1) io]
    from False i io vsock_ok_queuePending [OF m(1)] m(2) p(2) show ?thesis
      by (simp add: rxMiss_def Let_def)
  qed
qed

lemma count_tx_ok:
  assumes "vsock_ok v"
  shows "vsock_ok (count_tx pkt n v) \<and> length (arena (count_tx pkt n v)) = length (arena v)"
  using assms by (auto simp: count_tx_def conn_ok_def intro!: vsock_ok_upd split: option.splits)

lemma fine_push:
  assumes "fine c v (c1, v1)"
  shows "fine c v (pushUsed qn h w c1, v1)"
  using assms core_ok_pushUsed same_config_trans [OF _ same_config_pushUsed] by (auto simp: fine_def)

lemma flush_step_ok:
  assumes "core_ok c" and "vsock_ok v"
  shows "case flush_step (c, v) of Inl s \<Rightarrow> fine c v s | Inr (s, again) \<Rightarrow> fine c v s"
proof (cases "ring_Front (pending v)")
  case None
  then show ?thesis using assms by (simp add: flush_step_def fine_refl)
next
  case (Some pj)
  obtain pkt j where pj: "pj = (pkt, j)" by (cases pj)
  let ?r = "availChain (chainLimit (Some vsock_maxChainBytes) (mem c) vsockQueueRx) vsockQueueRx c"
  obtain c1 res where r: "?r = (c1, res)" by (cases ?r)
  have c1: "core_ok c1" "same_config c c1"
    using core_ok_availChain [OF assms(1), of "chainLimit (Some vsock_maxChainBytes) (mem c) vsockQueueRx" vsockQueueRx]
      same_config_availChain [of c "chainLimit (Some vsock_maxChainBytes) (mem c) vsockQueueRx" vsockQueueRx] r
    by simp_all
  have miss: "fine c v (pushUsed vsockQueueRx h 0 x, fst (rxMiss pkt y v))" if "core_ok x" "same_config c x" for x y h
    using rxMiss_ok [OF assms(2), of pkt y] that by (intro fine_push fineI) simp_all
  show ?thesis
  proof (cases "rx_stalled pkt v \<or> res = None")
    case True
    then show ?thesis using Some pj r assms c1 fine_refl
      by (auto simp: flush_step_def fineI)
  next
    case False
    then obtain h chain where res: "res = Some (h, chain)" and ns: "\<not> rx_stalled pkt v" by auto
    let ?inn = "snd (splitChain chain)"
    obtain c2 n e where w: "writeChains ?inn (rx_frame pkt) c1 = (c2, n, e)" by (metis prod_cases3)
    have c2: "core_ok c2" "same_config c c2"
      using core_ok_writeChains [OF c1(1), of ?inn "rx_frame pkt"] w
        same_config_trans [OF c1(2) same_config_writeChains, of ?inn "rx_frame pkt"] c1(1)
      by (simp_all add: core_ok_def)
    have ct: "vsock_ok ((count_tx pkt n v)\<lparr>rxMissStreak := 0\<rparr>)" "length (arena (count_tx pkt n v)) = length (arena v)"
      using count_tx_ok [OF assms(2), of pkt n] by simp_all
    have good: "fine c v (pushUsed vsockQueueRx h n c2, popPending ((count_tx pkt n v)\<lparr>rxMissStreak := 0\<rparr>))"
      using vsock_ok_popPending [OF ct(1)] ct(2) c2 by (intro fine_push fineI) simp_all
    show ?thesis
      using Some pj r res ns w miss [OF c1] miss [OF c2] good
      by (auto simp: flush_step_def Let_def split_beta)
  qed
qed

text \<open>What every iteration keeps, the whole loop keeps, nested flushes included.\<close>

lemma tryFlush_induct:
  assumes step: "\<And>s. P s \<Longrightarrow> (case flush_step s of Inl r \<Rightarrow> P r | Inr (r, again) \<Rightarrow> P r)"
    and panic: "\<And>s. P s \<Longrightarrow> \<not> vsockQueueRx < length (queues (fst s)) \<Longrightarrow> P (fst s, (snd s)\<lparr>indexPanic := True\<rparr>)"
    and "tryFlush s = Some s'" and "P s"
  shows "P s'"
proof -
  have "P s \<longrightarrow> P s'" if "tryFlush s = Some s'" for s s'
  proof (rule tryFlush.raw_induct [where P = "\<lambda>s s'. P s \<longrightarrow> P s'", OF _ that], intro impI)
    fix f s s'
    assume IH: "\<And>s s'. f s = Some s' \<Longrightarrow> P s \<longrightarrow> P s'" and Ps: "P s"
      and eq: "(if panicked (snd s) then Some s
        else if \<not> vsockQueueRx < length (queues (fst s)) then Some (fst s, (snd s)\<lparr>indexPanic := True\<rparr>)
        else case flush_step s of Inl r \<Rightarrow> Some r
        | Inr (r, again) \<Rightarrow> if again then Option.bind (f r) f else f r) = Some s'"
    show "P s'"
    proof (cases "panicked (snd s) \<or> \<not> vsockQueueRx < length (queues (fst s)) \<or> (\<exists>r. flush_step s = Inl r)")
      case True
      with eq step [OF Ps] panic [OF Ps] Ps show ?thesis by (auto split: if_splits)
    next
      case False
      then obtain ra where Inr: "flush_step s = Inr ra" by (cases "flush_step s") auto
      obtain r again where ra: "ra = (r, again)" by (cases ra)
      have Pr: "P r" using step [OF Ps] Inr ra by simp
      show ?thesis
      proof (cases again)
        case True
        with False eq Inr ra obtain y where "f r = Some y" "f y = Some s'" by (auto simp: bind_eq_Some_conv)
        then show ?thesis using IH Pr by blast
      next
        case no: False
        with False eq Inr ra IH Pr show ?thesis by simp
      qed
    qed
  qed
  with assms(3,4) show ?thesis by blast
qed

lemma tryFlush_ok:
  assumes "tryFlush (c, v) = Some s" and "core_ok c" and "vsock_ok v"
  shows "fine c v s"
proof (rule tryFlush_induct [where P = "fine c v", OF _ _ assms(1)])
  fix s
  assume s: "fine c v s"
  then have "core_ok (fst s)" "vsock_ok (snd s)" by (simp_all add: fine_def)
  from flush_step_ok [OF this] fine_trans [of c v "fst s" "snd s"] s
  show "case flush_step s of Inl r \<Rightarrow> fine c v r | Inr (r, again) \<Rightarrow> fine c v r"
    by (auto split: sum.splits)
next
  fix s
  assume "fine c v s" "\<not> vsockQueueRx < length (queues (fst s))"
  then show "fine c v (fst s, (snd s)\<lparr>indexPanic := True\<rparr>)"
    by (simp add: fine_def core_ok_def vsockQueueRx_def)
qed (simp add: fine_refl assms)

section \<open>Every operation\<close>

lemma enqueueCtrlWithFwd_ok:
  assumes "enqueueCtrlWithFwd h opc fl fwd (c, v) = Some (s, queued)" and "core_ok c" and "vsock_ok v"
  shows "fine c v s" and "\<not> queued \<Longrightarrow> arena (snd s) = arena v \<and> conns (snd s) = conns v"
proof -
  obtain v' b where q: "queuePending (ctrl_pkt h opc fl fwd v) v = (v', b)" by (metis surj_pair)
  have v': "vsock_ok v'" "arena v' = arena v" "conns v' = conns v"
    using vsock_ok_queuePending [OF assms(3), of "ctrl_pkt h opc fl fwd v"] q by simp_all
  show "fine c v s"
    using assms(1,2) q v' tryFlush_ok [of c v' s]
    by (auto simp: enqueueCtrlWithFwd_def fine_def split: if_splits)
  show "\<not> queued \<Longrightarrow> arena (snd s) = arena v \<and> conns (snd s) = conns v"
    using assms(1) q v' by (auto simp: enqueueCtrlWithFwd_def split: if_splits)
qed

lemma enqueueCtrl_ok:
  assumes "map_option fst (enqueueCtrl h opc fl (c, v)) = Some s" and "core_ok c" and "vsock_ok v"
  shows "fine c v s"
  using assms enqueueCtrlWithFwd_ok(1) [of h opc fl _ c v s] by (auto simp: enqueueCtrl_def)

lemma send_rst_ok: "send_rst h (c, v) = Some s \<Longrightarrow> core_ok c \<Longrightarrow> vsock_ok v \<Longrightarrow> fine c v s"
  unfolding send_rst_def by (rule enqueueCtrl_ok)

lemma closeConn_ok:
  assumes "closeConn i h b (c, v) = Some s" and "core_ok c" and "vsock_ok v" and "i < length (arena v)"
  shows "fine c v s"
proof (cases "closed (arena v ! i)")
  case True
  with assms show ?thesis by (auto simp: closeConn_def fine_def)
next
  case False
  note m = vsock_ok_closeConn_mark [OF assms(3,4) False]
  show ?thesis
  proof (cases b)
    case True
    with assms(1) False obtain queued where
      "enqueueCtrlWithFwd h vsockOpRST 0 (rxCnt (arena v ! i)) (c, closeConn_mark i v) = Some (s, queued)"
      by (auto simp: closeConn_def Let_def)
    from enqueueCtrlWithFwd_ok(1) [OF this assms(2) m(1)] m(2) show ?thesis by (simp add: fine_def)
  next
    case b: False
    with assms False m show ?thesis by (auto simp: closeConn_def Let_def fine_def)
  qed
qed

lemma tableD:
  "vsock_ok v \<Longrightarrow> conns v k = Some i \<Longrightarrow> i < length (arena v) \<and> key (arena v ! i) = k \<and> \<not> closed (arena v ! i)"
  by (auto simp: vsock_ok_def table_ok_def)

lemma fine_arena: "fine c v' s \<Longrightarrow> length (arena v') = length (arena v) \<Longrightarrow> fine c v s"
  by (simp add: fine_def)

lemma vsock_ok_set_peer: "vsock_ok v \<Longrightarrow> vsock_ok (upd_conn i (set_peer h) v)"
  by (intro vsock_ok_upd) (simp_all add: set_peer_def conn_ok_def)

lemma tx_request_ok:
  assumes "tx_request h (c, v) = Some s" and "core_ok c" and "vsock_ok v"
  shows "fine c v s"
proof (cases "(dstCID h \<noteq> vsockHostCID \<or> conns v (tx_key h) \<noteq> None) \<or> hd (dials v) = False \<or> dials v = []")
  case True
  then have "send_rst h (c, v) = Some s \<or> send_rst h (c, v\<lparr>dials := tl (dials v)\<rparr>) = Some s"
    using assms(1) by (auto simp: tx_request_def Let_def split: list.splits bool.splits if_splits)
  with assms(2,3) send_rst_ok [of h c v s] send_rst_ok [of h c "v\<lparr>dials := tl (dials v)\<rparr>" s] show ?thesis
    by (auto simp: fine_def)
next
  case False
  then obtain ds where ds: "dials v = True # ds" by (cases "dials v") auto
  let ?i = "length (arena v)"
  let ?v1 = "v\<lparr>dials := ds, arena := arena v @ [new_conn (tx_key h) (bufAlloc h) (fwdCnt h) True],
      conns := (conns v)(tx_key h \<mapsto> ?i)\<rparr>"
  have "?v1 = (v\<lparr>dials := ds\<rparr>)\<lparr>arena := arena (v\<lparr>dials := ds\<rparr>) @ [new_conn (tx_key h) (bufAlloc h) (fwdCnt h) True],
      conns := (conns (v\<lparr>dials := ds\<rparr>))(tx_key h \<mapsto> length (arena (v\<lparr>dials := ds\<rparr>)))\<rparr>" by simp
  then have ok1: "vsock_ok ?v1"
    using vsock_ok_add [of "v\<lparr>dials := ds\<rparr>" "tx_key h" "bufAlloc h" "fwdCnt h" True] assms(3) by simp
  obtain c2 v2 queued where e: "enqueueCtrl h vsockOpResponse 0 (c, ?v1) = Some ((c2, v2), queued)"
    using assms(1) False ds by (auto simp: tx_request_def Let_def split: option.splits)
  note e' = e [unfolded enqueueCtrl_def]
  have f: "fine c ?v1 (c2, v2)" by (rule enqueueCtrlWithFwd_ok(1) [OF e' assms(2) ok1])
  show ?thesis
  proof (cases queued)
    case True
    then have "s = (c2, startWorkerLocked (PumpOut ?i) (startWorkerLocked (PumpHost ?i (srcPort h) (dstPort h)) v2))"
      using assms(1) False ds e by (simp add: tx_request_def Let_def)
    with f show ?thesis by (simp add: fine_def)
  next
    case nq: False
    have same: "arena v2 = arena ?v1" "conns v2 = conns ?v1"
      using enqueueCtrlWithFwd_ok(2) [OF e' assms(2) ok1 nq] by simp_all
    have s: "s = (c2, (shut_conn ?i v2)\<lparr>conns := (conns v2)(tx_key h := None)\<rparr>)"
      using assms(1) False ds e nq by (simp add: tx_request_def Let_def shut_conn_def upd_conn_def)
    have k: "arena v2 ! ?i = new_conn (tx_key h) (bufAlloc h) (fwdCnt h) True" using same by simp
    then have "key (arena v2 ! ?i) = tx_key h" "\<not> closed (arena v2 ! ?i)" by (simp_all add: new_conn_def)
    with vsock_ok_shut [of v2 ?i] f same have "vsock_ok (snd s)" by (simp add: s fine_def)
    moreover have "length (arena v) \<le> length (arena (snd s))" using same by (simp add: s shut_conn_def)
    ultimately show ?thesis using f by (simp add: s fine_def)
  qed
qed

lemma tx_rw_ok:
  assumes "tx_rw h data (c, v) = Some s" and "core_ok c" and "vsock_ok v"
  shows "fine c v s"
proof (cases "conns v (tx_key h)")
  case None
  with assms send_rst_ok show ?thesis by (simp add: tx_rw_def)
next
  case (Some i)
  note t = tableD [OF assms(3) Some]
  let ?v1 = "upd_conn i (set_peer h) v"
  let ?v2 = "upd_conn i (\<lambda>x. x\<lparr>guestTx := guestTx x + of_nat (length data)\<rparr>) ?v1"
  have ok1: "vsock_ok ?v1" by (rule vsock_ok_set_peer [OF assms(3)])
  have ok2: "vsock_ok ?v2" by (rule vsock_ok_upd [OF ok1]) (simp_all add: conn_ok_def)
  have ok3: "vsock_ok (upd_conn i (rw_queue data) ?v2)" if "\<not> rw_beyond data (arena ?v2 ! i)"
    by (rule vsock_ok_upd [OF ok2]) (use that in \<open>auto simp: rw_queue_def conn_ok_def rw_beyond_def\<close>)
  show ?thesis
    using assms(1,2) Some t ok1 ok3 closeConn_ok [OF _ assms(2) ok2, of i h True s]
    by (auto simp: tx_rw_def Let_def fine_def split: if_splits)
qed

lemma tx_packet_ok:
  assumes "tx_packet h data (c, v) = Some s" and "core_ok c" and "vsock_ok v"
  shows "fine c v s"
proof -
  have resp: "fine c v s" if "tx_response h (c, v) = Some s"
  proof -
    have "vsock_ok (upd_conn i (\<lambda>x. set_peer h (x\<lparr>established := True\<rparr>)) v)" for i
      using assms(3) by (intro vsock_ok_upd) (simp_all add: set_peer_def conn_ok_def)
    with that assms(2,3) show ?thesis
      by (auto simp: tx_response_def Let_def fine_def split: option.splits if_splits)
  qed
  have req: "fine c v s" if "tx_credit_req h (c, v) = Some s"
    using that assms(2,3) enqueueCtrl_ok [OF _ assms(2) vsock_ok_set_peer [OF assms(3)], of h vsockOpCreditUpdate 0 _ h s]
    by (auto simp: tx_credit_req_def fine_def split: option.splits)
  have upd: "fine c v s" if "tx_credit_update h (c, v) = Some s"
    using that assms(2,3) tryFlush_ok [OF _ assms(2) vsock_ok_set_peer [OF assms(3)], of _ h s]
    by (auto simp: tx_credit_update_def fine_def split: option.splits)
  have shutd: "fine c v s" if "tx_shutdown h (c, v) = Some s"
  proof -
    have "vsock_ok (upd_conn i (\<lambda>x. x\<lparr>guestShutdown := True, shutdownHdr := h, outSig := True\<rparr>) v)" for i
      using assms(3) by (intro vsock_ok_upd) (simp_all add: conn_ok_def)
    with that assms(2,3) show ?thesis by (auto simp: tx_shutdown_def fine_def split: option.splits)
  qed
  have rst: "fine c v s" if "tx_rst h (c, v) = Some s"
    using that assms(2,3) tableD [OF assms(3)] closeConn_ok [OF _ assms(2,3), of _ h False s]
    by (auto simp: tx_rst_def fine_def split: option.splits)
  show ?thesis
    using assms(1) assms(2,3) tx_request_ok [OF _ assms(2,3)] tx_rw_ok [OF _ assms(2,3)] resp req upd shutd rst
    by (auto simp: tx_packet_def fine_refl split: if_splits)
qed

lemma settled_fine:
  assumes "\<And>s. res = Some s \<Longrightarrow> fine c v s"
  shows "safely (\<lambda>s. fine c v s) (settled res)"
  using assms by (auto simp: settled_def fine_def vsock_ok_def panicked_def split: option.split)

lemma parseVsockHdr_total:
  assumes "vsockHdrLen \<le> length b"
  shows "\<exists>h. parseVsockHdr b = Some h"
  using assms by (simp add: parseVsockHdr_def vsockHdrLen_def)

lemma tx_step_ok:
  assumes "core_ok c" and "vsock_ok v"
  shows "safely (\<lambda>s. fine c v s) (tx_step hd1 chain (c, v))"
proof -
  let ?c1 = "pushUsed vsockQueueTx hd1 0 c"
  have c1: "core_ok ?c1" "same_config c ?c1" using core_ok_pushUsed [OF assms(1)] same_config_pushUsed by blast+
  have up: "fine ?c1 v s \<Longrightarrow> fine c v s" for s using c1(2) same_config_trans by (auto simp: fine_def)
  show ?thesis
  proof (cases "\<exists>data. readChains (mem c) (fst (splitChain chain)) = Inr data \<and> vsockHdrLen \<le> length data")
    case False
    then have "tx_step hd1 chain (c, v) = Done (?c1, v)"
      by (auto simp: tx_step_def Let_def not_less split: sum.split)
    then show ?thesis using up [OF fine_refl [OF c1(1) assms(2)]] by simp
  next
    case True
    then obtain data where d: "readChains (mem c) (fst (splitChain chain)) = Inr data" "vsockHdrLen \<le> length data"
      by blast
    obtain h where h: "parseVsockHdr (take vsockHdrLen data) = Some h"
      using parseVsockHdr_total [of "take vsockHdrLen data"] d(2) by auto
    have "tx_step hd1 chain (c, v) = settled (tx_packet h (drop vsockHdrLen data) (?c1, v))"
      using d h by (simp add: tx_step_def)
    moreover have "safely (\<lambda>s. fine c v s) (settled (tx_packet h (drop vsockHdrLen data) (?c1, v)))"
      using tx_packet_ok [OF _ c1(1) assms(2)] up by (intro settled_fine) blast
    ultimately show ?thesis by simp
  qed
qed

lemma fine_keeps: "safely (\<lambda>s. fine c v s) res \<Longrightarrow>
    safely (\<lambda>(c', v'). core_ok c' \<and> same_config c c' \<and> vsock_ok v') res"
  by (erule safely_mono) (auto simp: fine_def)

interpretation vsockq: chain_processor "Some vsock_maxChainBytes" tx_step vsock_ok
  by unfold_locales (rule fine_keeps [OF tx_step_ok])

lemma shut_all_ok:
  assumes "vsock_ok v"
  shows "vsock_ok (shut_all v)" and "length (arena (shut_all v)) = length (arena v)"
    and "pending (shut_all v) = pending v"
proof -
  have step: "vsock_ok (shut_entry i w) \<and> length (arena (shut_entry i w)) = length (arena w) \<and>
      pending (shut_entry i w) = pending w" if "vsock_ok w" for i w
  proof (cases "conns w (key (arena w ! i)) = Some i")
    case True
    with tableD [OF that True] vsock_ok_shut [OF that] show ?thesis
      by (simp add: shut_entry_def Let_def) (simp add: shut_conn_def upd_conn_def)
  qed (use that in \<open>simp add: shut_entry_def Let_def\<close>)
  have "vsock_ok (fold shut_entry is w) \<and> length (arena (fold shut_entry is w)) = length (arena w) \<and>
      pending (fold shut_entry is w) = pending w" if "vsock_ok w" for "is" w
    using that by (induction "is" arbitrary: w) (simp_all add: step)
  from this [OF assms, of "[0..<length (arena v)]"]
  show "vsock_ok (shut_all v)" and "length (arena (shut_all v)) = length (arena v)"
    and "pending (shut_all v) = pending v"
    by (simp_all add: shut_all_def)
qed

lemma vsock_reset_ok: "vsock_ok v \<Longrightarrow> vsock_ok (vsock_reset v)"
proof -
  assume ok: "vsock_ok v"
  then have "ring_ok zero_pkt (pending v)" by (simp add: vsock_ok_def)
  note r = ring_Reset_ok [OF this]
  have "credit_ok (ring_Reset zero_pkt (pending v)) Map.empty" using r by (simp add: credit_ok_def)
  with r shut_all_ok [OF ok] show ?thesis by (simp add: vsock_reset_def vsock_ok_def table_ok_def)
qed

interpretation vsockdev: virtio_device VsockDevice vsock_ok
proof
  fix c v qn
  assume ok: "core_ok c" "vsock_ok v" and qn: "qn < length (queues c)"
  have "safely (\<lambda>s. fine c v s) (settled (tryFlush (c, v)))"
    using tryFlush_ok ok by (intro settled_fine) blast
  then show "safely (\<lambda>(c', d'). core_ok c' \<and> same_config c c' \<and> vsock_ok d') (handleQueue VsockDevice qn (c, v))"
    using ok qn vsockq.drain_ok [OF ok] fine_keeps
    by (simp add: VsockDevice_def vsock_handleQueue_def handleTx_def)
qed (simp_all add: VsockDevice_def vsock_reset_ok)

end
