(* ===== verification/Vsock_Correct.thy ===== *)
theory Vsock_Correct
  imports Vsock_Invariant
begin

text \<open>
  What the vsock device guarantees: its wire codec is exact, its state stays well-formed under
  every interleaving of the guest with the pump goroutines, delivery respects the guest's
  credit, and the guest's byte streams reach the host sockets in order.
\<close>

section \<open>The wire format\<close>

text \<open>The header codec is a bijection between headers and 44-byte strings: parsing what
  \<open>marshalTo\<close> wrote gives the header back, and marshalling what was parsed gives the bytes back.\<close>

theorem vsock_header_roundtrip:
  "parseVsockHdr (marshal h) = Some h \<and> length (marshal h) = vsockHdrLen \<and>
   (length b = vsockHdrLen \<longrightarrow> (\<exists>h'. parseVsockHdr b = Some h' \<and> marshal h' = b))"
proof (intro conjI impI)
  show "parseVsockHdr (marshal h) = Some h" by (simp add: parseVsockHdr_def marshal_def)
  show "length (marshal h) = vsockHdrLen" by (simp add: marshal_def vsockHdrLen_def)
  assume "length b = vsockHdrLen"
  then have len: "length b = 44" by (simp add: vsockHdrLen_def)
  have cut: "take n (drop i b) @ drop (n + i) b = drop i b" for n i
    by (metis append_take_drop_id drop_drop)
  show "\<exists>h'. parseVsockHdr b = Some h' \<and> marshal h' = b"
    using cut [of 8 0] cut [of 8 8] cut [of 4 16] cut [of 4 20] cut [of 4 24] cut [of 2 28]
      cut [of 2 30] cut [of 4 32] cut [of 4 36] cut [of 4 40] len
    by (simp add: parseVsockHdr_def marshal_def PutUint_Uint)
qed

theorem vsock_header_roundtrip_witness:
  "\<exists>h. parseVsockHdr (replicate 44 7) = Some h \<and> marshal h = replicate 44 7"
  using vsock_header_roundtrip [of zero_hdr "replicate 44 7"] by (simp add: vsockHdrLen_def)

section \<open>Interleavings\<close>

text \<open>
  One step of the running device: a register write of the guest, a host-originated
  connection, a locked section of one of the pumps, or one of the two sections of the teardown.
\<close>

inductive vsock_trans :: "Core \<times> Vsock \<Rightarrow> Core \<times> Vsock \<Rightarrow> bool" where
  guest: "MMIOWrite VsockDevice offs val s = Done s' \<Longrightarrow> vsock_trans s s'"
| inject: "InjectConn port s = Some (s', e) \<Longrightarrow> vsock_trans s s'"
| out_next: "i < length (arena (snd s)) \<Longrightarrow> pumpOut_next i s = Some s' \<Longrightarrow> vsock_trans s s'"
| out_wrote: "i < length (arena (snd s)) \<Longrightarrow> pumpOut_wrote i s = Some s' \<Longrightarrow> vsock_trans s s'"
| out_failed: "i < length (arena (snd s)) \<Longrightarrow> pumpOut_failed i n s = Some s' \<Longrightarrow> vsock_trans s s'"
| host_data: "i < length (arena (snd s)) \<Longrightarrow> p \<noteq> [] \<Longrightarrow> length p \<le> vsockMaxRxPayload \<Longrightarrow>
    pumpHost_deliver i sp dp p s = Some (Some s') \<Longrightarrow> vsock_trans s s'"
| host_eof: "i < length (arena (snd s)) \<Longrightarrow> pumpHost_eof i sp dp s = Some s' \<Longrightarrow> vsock_trans s s'"
| close_begin: "\<not> closing v \<Longrightarrow> vsock_trans (c, v) (c, vsock_Close_begin v)"
| close_end: "closing v \<Longrightarrow> vsock_trans (c, v) (c, vsock_Close_end v)"

inductive vsock_reachable :: "RAM \<Rightarrow> u64 \<Rightarrow> Core \<times> Vsock \<Rightarrow> bool" for m cid where
  init: "vsock_reachable m cid (NewCoreAt VsockDevice m b i, NewVsock cid ds)"
| step: "vsock_reachable m cid s \<Longrightarrow> vsock_trans s s' \<Longrightarrow> vsock_reachable m cid s'"

lemma vsock_ok_new: "vsock_ok (NewVsock cid ds)"
proof -
  have "ring_ok zero_pkt (new_ring zero_pkt)" by (rule pring.invar_empty)
  then show ?thesis
    by (simp add: vsock_ok_def NewVsock_def table_ok_def credit_ok_def new_ring_def)
qed

lemma InjectConn_ok:
  assumes "InjectConn port (c, v) = Some (s, e)" and "core_ok c" and "vsock_ok v"
  shows "fine c v s"
proof (cases "closing v")
  case True
  with assms show ?thesis by (auto simp: InjectConn_def Let_def fine_def)
next
  case False
  let ?pkt = "\<lparr>hdr = zero_hdr\<lparr>srcCID := vsockHostCID, dstCID := guestCID v, srcPort := nextHostPort v,
      dstPort := port, h_typ := vsockTypeStream, h_op := vsockOpRequest,
      bufAlloc := of_nat vsockBufAlloc\<rparr>, payload = []\<rparr>"
  obtain v1 q where q: "queuePending ?pkt v = (v1, q)" by (metis surj_pair)
  have v1: "vsock_ok v1" "arena v1 = arena v" using vsock_ok_queuePending [OF assms(3), of ?pkt] q by simp_all
  let ?k = "connKey port (nextHostPort v)"
  let ?v2 = "startWorkerLocked (PumpOut (length (arena v1))) (v1\<lparr>nextHostPort := nextHostPort v + 1,
      arena := arena v1 @ [new_conn ?k (of_nat vsockBufAlloc) 0 False],
      conns := (conns v1)(?k \<mapsto> length (arena v1))\<rparr>)"
  have "vsock_ok ?v2"
    using vsock_ok_add [of "v1\<lparr>nextHostPort := nextHostPort v + 1\<rparr>" ?k "of_nat vsockBufAlloc" 0 False] v1(1)
    by simp
  from tryFlush_ok [OF _ assms(2) this, of s] assms(1,2) False q v1 show ?thesis
    by (auto simp: InjectConn_def Let_def fine_def split: if_splits)
qed

lemma pumps_ok:
  assumes "core_ok c" and "vsock_ok v" and "i < length (arena v)"
  shows "pumpOut_next i (c, v) = Some s \<Longrightarrow> fine c v s"
    and "pumpOut_wrote i (c, v) = Some s \<Longrightarrow> fine c v s"
    and "pumpOut_failed i n (c, v) = Some s \<Longrightarrow> fine c v s"
    and "pumpHost_deliver i sp dp p (c, v) = Some (Some s) \<Longrightarrow> fine c v s"
    and "pumpHost_eof i sp dp (c, v) = Some s \<Longrightarrow> fine c v s"
proof -
  have conn: "conn_ok (arena v ! i)" using assms(2,3) by (simp add: vsock_ok_def list_all_length)
  note cl = closeConn_ok [OF _ assms(1,2,3)]
  have sig: "vsock_ok (upd_conn i (\<lambda>y. y\<lparr>outSig := False\<rparr>) v)"
    by (rule vsock_ok_upd [OF assms(2)]) (simp_all add: conn_ok_def)
  have take1: "vsock_ok (upd_conn i (\<lambda>y. y\<lparr>outQ := ps, outQBytes := outQBytes y - int (length p), sending := Some p\<rparr>) v)"
    if "outQ (arena v ! i) = p # ps" for p ps
    by (rule vsock_ok_upd [OF assms(2)]) (use that in \<open>auto simp: conn_ok_def\<close>)
  show "pumpOut_next i (c, v) = Some s \<Longrightarrow> fine c v s"
    using cl [of "shutdownHdr (arena v ! i)" True s] sig take1 assms(1)
    by (auto simp: pumpOut_next_def Let_def fine_def split: list.splits if_splits)
  have wrote: "vsock_ok (upd_conn i (\<lambda>y. y\<lparr>sending := None, ncOut := g y\<rparr>) v)" for g
    by (rule vsock_ok_upd [OF assms(2)]) (simp_all add: conn_ok_def)
  have rx: "vsock_ok (upd_conn i (\<lambda>y. y\<lparr>rxCnt := h y\<rparr>) (upd_conn i (\<lambda>y. y\<lparr>sending := None, ncOut := g y\<rparr>) v))" for g h
    by (rule vsock_ok_upd [OF wrote]) (simp_all add: conn_ok_def)
  show "pumpOut_wrote i (c, v) = Some s \<Longrightarrow> fine c v s"
    using wrote enqueueCtrl_ok [OF _ assms(1) rx, of _ vsockOpCreditUpdate 0 _ _ s] assms
    by (auto simp: pumpOut_wrote_def Let_def fine_def split: option.splits if_splits)
  show "pumpOut_failed i n (c, v) = Some s \<Longrightarrow> fine c v s"
    using wrote closeConn_ok [OF _ assms(1) wrote, of i _ True _ s] assms
    by (auto simp: pumpOut_failed_def Let_def fine_def split: option.splits if_splits)
  show "pumpHost_eof i sp dp (c, v) = Some s \<Longrightarrow> fine c v s"
    using cl [of _ True s] assms by (auto simp: pumpHost_eof_def fine_def split: if_splits)
  assume d: "pumpHost_deliver i sp dp p (c, v) = Some (Some s)"
  let ?pkt = "rw_pkt sp dp (rxCnt (arena v ! i)) p v"
  obtain v1 q where q: "queuePending ?pkt v = (v1, q)" by (metis surj_pair)
  have v1: "vsock_ok v1" "arena v1 = arena v" using vsock_ok_queuePending [OF assms(2), of ?pkt] q by simp_all
  show "fine c v s"
    using d q v1 assms tryFlush_ok [OF _ assms(1) v1(1), of s] closeConn_ok [OF _ assms(1) v1(1), of i _ True s]
    by (auto simp: pumpHost_deliver_def Let_def fine_def split: if_splits)
qed

lemma vsock_machine:
  "vsockdev.machine_ok s = (core_ok (fst s) \<and> vsock_ok (snd s) \<and> length (queues (fst s)) = 3)"
proof -
  have "numQueues VsockDevice = 3" by (simp add: VsockDevice_def)
  then show ?thesis by (simp add: vsockdev.machine_ok_def)
qed

lemma vsock_trans_ok:
  assumes "vsock_trans s s'" and "vsockdev.machine_ok s"
  shows "vsockdev.machine_ok s'"
proof -
  obtain c v where s: "s = (c, v)" by (cases s)
  have ok: "core_ok c" "vsock_ok v" "length (queues c) = 3"
    using assms(2) by (simp_all add: s vsock_machine)
  have done_: "vsockdev.machine_ok s'" if "fine c v s'"
    using that ok same_config_length [of c "fst s'"]
    by (auto simp: vsock_machine fine_def)
  from assms(1) show ?thesis
  proof cases
    case (guest offs val)
    with vsockdev.mmio_write_ok [of c v offs val] assms(2) s show ?thesis by (cases s') auto
  next
    case (close_begin v' c')
    with s ok have "fine c v s'" by (simp add: fine_def vsock_Close_begin_def)
    then show ?thesis by (rule done_)
  next
    case (close_end v' c')
    with s ok have "fine c v s'" using shut_all_ok [of v] by (simp add: fine_def vsock_Close_end_def)
    then show ?thesis by (rule done_)
  qed (use s ok InjectConn_ok [of _ c v s'] pumps_ok [OF ok(1,2)] done_ in auto)
qed

text \<open>C12. However the guest's register writes interleave with the pump goroutines, injected
  connections and the two locked sections of the teardown, nothing panics: no channel is closed twice,
  and no operation, the parsing of guest packets included, slices or indexes out of range, neither in a
  state that was reached nor in the next register write. Every connection in the table is open and its
  queue of bytes for the host stays within the advertised 64 KiB and 1024 packets, and the outbound queue
  never exceeds 256 packets.\<close>

theorem vsock_reachable_safe:
  assumes "vsock_reachable m cid s" and "ram_ok m"
  shows "\<not> doubleClose (snd s) \<and> \<not> indexPanic (snd s) \<and> length (ring_items (pending (snd s))) \<le> 256 \<and>
    (\<forall>k i. conns (snd s) k = Some i \<longrightarrow> i < length (arena (snd s)) \<and> \<not> closed (arena (snd s) ! i) \<and>
       length (concat (outQ (arena (snd s) ! i))) \<le> 65536 \<and> length (outQ (arena (snd s) ! i)) \<le> 1024) \<and>
    MMIOWrite VsockDevice offs val s \<noteq> Panics"
proof -
  have "vsockdev.machine_ok s"
    using assms(1)
  proof induction
    case (init b i ds)
    show ?case by (rule vsockdev.machine_ok_new [OF assms(2) vsock_ok_new])
  next
    case (step s s')
    then show ?case using vsock_trans_ok by blast
  qed
  then have v: "vsock_ok (snd s)" and m: "vsockdev.machine_ok (fst s, snd s)"
    by (simp_all add: vsock_machine)
  have "length (concat (outQ (arena (snd s) ! i))) \<le> 65536 \<and> length (outQ (arena (snd s) ! i)) \<le> 1024"
    if "i < length (arena (snd s))" for i
    using v that by (auto simp: vsock_ok_def list_all_length conn_ok_def vsock_consts)
  with v tableD [OF v] vsockdev.mmio_write_ok [OF m, of offs val] show ?thesis
    by (auto simp: vsock_ok_def ring_ok_def pendingRingCapacity_def)
qed

text \<open>A host connection is injected, then the teardown begins: it is open while the device is closing.\<close>

lemma vsock_closing_open:
  "\<exists>s. vsock_reachable (NewRAM (replicate 64 0) 0) 3 s \<and> closing (snd s) \<and>
     conns (snd s) (connKey 1024 0x100000) = Some 0"
proof -
  let ?c = "NewCoreAt VsockDevice (NewRAM (replicate 64 0) 0) 0 5" and ?v = "NewVsock 3 []"
  have idle: "availChain lim vsockQueueRx ?c = (?c, None)" for lim
    by (simp add: availChain_def NewCoreAt_def VsockDevice_def vsockQueueRx_def zero_virtq_def numValid_def)
  have queues: "vsockQueueRx < length (queues ?c)" by (simp add: NewCoreAt_def VsockDevice_def vsockQueueRx_def)
  have flush: "tryFlush (?c, w) = Some (?c, w)" if "\<not> panicked w" for w
    using that idle queues by (subst tryFlush.simps) (simp add: flush_step_def Let_def split: option.split)
  obtain v' where i: "InjectConn 1024 (?c, ?v) = Some ((?c, v'), None)" "\<not> closing v'"
      "conns v' (connKey 1024 0x100000) = Some 0"
    using flush
    by (simp add: InjectConn_def NewVsock_def queuePending_def admit_def ring_Push_def ring_Full_def new_ring_def
        startWorkerLocked_def panicked_def vsock_ops vsock_consts pendingRingCapacity_def zero_hdr_def Let_def)
  have "vsock_reachable (NewRAM (replicate 64 0) 0) 3 (?c, v')"
    by (rule vsock_reachable.step [OF vsock_reachable.init vsock_trans.inject [OF i(1)]])
  from vsock_reachable.step [OF this vsock_trans.close_begin [OF i(2)]] i(3) show ?thesis
    by (intro exI [of _ "(?c, vsock_Close_begin v')"]) (simp add: vsock_Close_begin_def)
qed

theorem vsock_reachable_safe_witness:
  "\<exists>s. vsock_reachable (NewRAM (replicate 64 0) 0) 3 s \<and> closing (snd s) \<and>
     \<not> closed (arena (snd s) ! 0) \<and> MMIOWrite VsockDevice 0x050 1 s \<noteq> Panics"
proof -
  obtain s where s: "vsock_reachable (NewRAM (replicate 64 0) 0) 3 s" "closing (snd s)"
      "conns (snd s) (connKey 1024 0x100000) = Some 0"
    using vsock_closing_open by blast
  have "ram_ok (NewRAM (replicate 64 0) 0)" by (simp add: ram_ok_NewRAM)
  from vsock_reachable_safe [OF s(1) this, of "0x050" 1] s show ?thesis by blast
qed

section \<open>Credit\<close>

lemma arena_popPending [simp]: "arena (popPending v) = arena v"
  by (auto simp: popPending_def Let_def split: option.splits)

lemma arena_queuePending [simp]: "arena (fst (queuePending pkt v)) = arena v"
  by (auto simp: queuePending_def admit_def Let_def split: option.splits prod.splits)

text \<open>A view \<open>g\<close> of the connections that an update does not affect.\<close>

lemma map_upd:
  assumes "\<And>x. g (f x) = g x"
  shows "map g (arena (upd_conn i f v)) = map g (arena v)"
proof (cases "i < length (arena v)")
  case True
  then show ?thesis using assms by (simp add: upd_conn_def map_update list_update_same_conv)
qed (simp add: upd_conn_def list_update_beyond)

definition unmarked :: "vsockConn \<Rightarrow> vsockConn" where
  "unmarked x = x\<lparr>closed := False, ncClosed := False, doneClosed := False\<rparr>"

lemma unmarked_closeConn_mark: "map unmarked (arena (closeConn_mark i v)) = map unmarked (arena v)"
  using map_upd [of unmarked "\<lambda>c. c\<lparr>closed := True, ncClosed := True, doneClosed := True\<rparr>" i v]
  by (simp add: closeConn_mark_def shut_conn_def Let_def unmarked_def)

lemma unmarked_rxMiss: "map unmarked (arena (fst (rxMiss pkt c v))) = map unmarked (arena v)"
  using unmarked_closeConn_mark by (auto simp: rxMiss_def Let_def split: option.splits)

lemma unmarked_nth:
  assumes "map unmarked xs = map unmarked ys" and "i < length ys" and "\<And>x. g (unmarked x) = g x"
  shows "g (xs ! i) = g (ys ! i)"
proof -
  have "length xs = length ys" using assms(1) by (rule map_eq_imp_length_eq)
  then have "unmarked (xs ! i) = unmarked (ys ! i)" using assms(1,2) by (metis nth_map)
  then show ?thesis using assms(3) by metis
qed

text \<open>What an iteration of the flush can do to the connections.\<close>

lemma flush_step_arena:
  assumes "ring_Front (pending v) = Some (pkt, j)" and "flush_step (c, v) = Inr ((c', v'), again)"
  shows "\<not> rx_stalled pkt v" and
    "map unmarked (arena v') = map unmarked (arena v) \<or>
     arena v' = arena (count_tx pkt (of_nat (vsockHdrLen + length (payload pkt))) v)"
proof -
  show ns: "\<not> rx_stalled pkt v" using assms by (auto simp: flush_step_def)
  let ?r = "availChain (chainLimit (Some vsock_maxChainBytes) (mem c) vsockQueueRx) vsockQueueRx c"
  obtain c1 h chain where r: "?r = (c1, Some (h, chain))"
    using assms ns by (auto simp: flush_step_def split: prod.splits option.splits)
  let ?inn = "snd (splitChain chain)"
  obtain c2 n e where w: "writeChains ?inn (rx_frame pkt) c1 = (c2, n, e)" by (metis prod_cases3)
  let ?len = "vsockHdrLen + length (payload pkt)"
  have "v' = fst (rxMiss pkt c1 v) \<or> v' = fst (rxMiss pkt c2 v) \<or>
      n = of_nat ?len \<and> v' = popPending ((count_tx pkt n v)\<lparr>rxMissStreak := 0\<rparr>)"
    using assms ns r w by (auto simp: flush_step_def Let_def split_beta simp del: of_nat_add split: if_splits)
  with unmarked_rxMiss show "map unmarked (arena v') = map unmarked (arena v) \<or>
     arena v' = arena (count_tx pkt (of_nat ?len) v)" by (auto simp del: of_nat_add)
qed

text \<open>The bytes the device has sent that the guest has not consumed yet, modulo $2^{32}$.\<close>

definition in_flight :: "vsockConn \<Rightarrow> nat" where
  "in_flight x = unat (txCnt x - peerFwdCnt x)"

lemma rx_stalled_window:
  assumes "h_op (hdr pkt) = vsockOpRW" and "payload pkt \<noteq> []" and "length (payload pkt) \<le> 2048"
    and "conns v (pendingConnKey pkt) = Some i"
  shows "rx_stalled pkt v \<longleftrightarrow> unat (peerBufAlloc (arena v ! i)) < in_flight (arena v ! i) + length (payload pkt)"
proof -
  let ?x = "arena v ! i"
  have len: "unat (of_nat (length (payload pkt)) :: u32) = length (payload pkt)"
    using assms(3) by (simp add: unat_of_nat)
  show ?thesis
  proof (cases "peerBufAlloc ?x \<le> txCnt ?x - peerFwdCnt ?x")
    case True
    then have "unat (peerBufAlloc ?x) \<le> in_flight ?x" by (simp add: in_flight_def word_le_nat_alt)
    moreover have "0 < length (payload pkt)" using assms(2) by simp
    ultimately show ?thesis
      using True assms len by (simp add: rx_stalled_def peerCredit_def word_less_nat_alt del: length_greater_0_conv)
  next
    case False
    then have "unat (peerCredit ?x) = unat (peerBufAlloc ?x) - in_flight ?x" "in_flight ?x < unat (peerBufAlloc ?x)"
      by (simp_all add: peerCredit_def in_flight_def unat_diff_le word_le_nat_alt not_le)
    then show ?thesis using assms len by (auto simp: rx_stalled_def word_less_nat_alt)
  qed
qed

lemma rx_capacity_sum: "desc_bytes ds < 2 ^ 64 \<Longrightarrow> unat (rx_capacity ds) = desc_bytes ds"
proof (induction ds)
  case (Cons d ds)
  then show ?case by (simp add: rx_capacity_def unat_add_no_wrap)
qed (simp add: rx_capacity_def)

text \<open>The outcome of offering the front packet to a chain, by the room the chain has.\<close>

lemma flush_step_chain:
  assumes "core_ok c" and "ring_Front (pending v) = Some (pkt, j)" and "\<not> rx_stalled pkt v"
    and "length (payload pkt) \<le> 2048" and "splitChain chain = (out, inn)"
    and av: "availChain (chainLimit (Some vsock_maxChainBytes) (mem c) vsockQueueRx) vsockQueueRx c = (c1, Some (hd1, chain))"
  shows "desc_bytes inn < 44 + length (payload pkt) \<Longrightarrow>
      flush_step (c, v) = Inr ((pushUsed vsockQueueRx hd1 0 c1, fst (rxMiss pkt c1 v)), snd (rxMiss pkt c1 v))"
    and "44 + length (payload pkt) \<le> desc_bytes inn \<Longrightarrow>
      \<exists>c2. writeChains inn (rx_frame pkt) c1 = (c2, of_nat (44 + length (payload pkt)), None) \<and>
        flush_step (c, v) = Inr ((pushUsed vsockQueueRx hd1 (of_nat (44 + length (payload pkt))) c2,
          popPending ((count_tx pkt (of_nat (44 + length (payload pkt))) v)\<lparr>rxMissStreak := 0\<rparr>)), False)"
proof -
  have c1: "core_ok c1" "mem c1 = mem c"
    using core_ok_availChain [OF assms(1)] av availChain_Some(3) [OF av]
    by (metis fst_conv, simp add: bump_avail_def)
  have "desc_bytes chain < 2 ^ 64"
    using chain_facts(4) [OF av]
    by (simp add: chainLimit_def vsock_maxChainBytes_def vsockMaxChainBytes_def)
  then have cap: "unat (rx_capacity inn) = desc_bytes inn"
    using splitChain_append [OF assms(5)] by (intro rx_capacity_sum) simp
  have len: "unat (of_nat (44 + length (payload pkt)) :: u64) = 44 + length (payload pkt)"
    using assms(4) by (subst unat_of_nat) (simp add: take_bit_nat_eq_self_iff)
  have frame: "length (rx_frame pkt) = 44 + length (payload pkt)" by (simp add: rx_frame_def marshal_def)
  note go = flush_step_def [of "(c, v)"] Let_def vsockHdrLen_def
  show "flush_step (c, v) = Inr ((pushUsed vsockQueueRx hd1 0 c1, fst (rxMiss pkt c1 v)), snd (rxMiss pkt c1 v))"
    if "desc_bytes inn < 44 + length (payload pkt)"
  proof -
    have "rx_capacity inn < of_nat (44 + length (payload pkt))"
      using that cap len by (simp only: word_less_nat_alt)
    then show ?thesis using assms(2,3,5) av unfolding go by (simp add: split_beta del: of_nat_add)
  qed
  show "\<exists>c2. writeChains inn (rx_frame pkt) c1 = (c2, of_nat (44 + length (payload pkt)), None) \<and>
      flush_step (c, v) = Inr ((pushUsed vsockQueueRx hd1 (of_nat (44 + length (payload pkt))) c2,
        popPending ((count_tx pkt (of_nat (44 + length (payload pkt))) v)\<lparr>rxMissStreak := 0\<rparr>)), False)"
    if fits: "44 + length (payload pkt) \<le> desc_bytes inn"
  proof -
    have "\<forall>d \<in> set inn. contains (mem c1) (d_addr d) (ucast (d_len d))"
      using chain_facts(5) [OF av] splitChain_append [OF assms(5)] c1(2) by (auto simp: desc_ok_def)
    then obtain c2 where w: "writeChains inn (rx_frame pkt) c1 = (c2, of_nat (44 + length (payload pkt)), None)"
      using writeChains_fits [OF c1(1), of inn "rx_frame pkt"] frame fits assms(4) by auto
    have "\<not> rx_capacity inn < of_nat (44 + length (payload pkt))"
      using fits cap len by (simp only: word_less_nat_alt not_less)
    then show ?thesis using assms(2,3,5) av w unfolding go by (simp del: of_nat_add)
  qed
qed

lemma in_flight_add:
  assumes "in_flight x + n \<le> unat (peerBufAlloc x)" and "n \<le> 2048"
  shows "in_flight (x\<lparr>txCnt := txCnt x + of_nat n\<rparr>) = in_flight x + n"
proof -
  have n: "unat (of_nat n :: u32) = n" using assms(2) by (simp add: unat_of_nat)
  have "txCnt x + of_nat n - peerFwdCnt x = (txCnt x - peerFwdCnt x) + of_nat n" by simp
  moreover have "unat ((txCnt x - peerFwdCnt x) + of_nat n) = in_flight x + n"
    using assms(1) n unat_less_2p [of "peerBufAlloc x"]
    by (subst unat_add_no_wrap) (simp_all add: in_flight_def)
  moreover have "in_flight (x\<lparr>txCnt := txCnt x + of_nat n\<rparr>) = unat (txCnt x + of_nat n - peerFwdCnt x)"
    by (simp add: in_flight_def)
  ultimately show ?thesis by metis
qed

lemma popPending_items:
  assumes "ring_ok zero_pkt (pending v)" and "ring_Front (pending v) = Some (pkt, j)" and "pending w = pending v"
  shows "ring_items (pending (popPending w)) = tl (ring_items (pending v))"
  using assms ring_Pop_ok(2) [OF assms(1)] by (simp add: popPending_def Let_def)

lemma count_tx_counts:
  assumes "conns v (pendingConnKey pkt) = Some i" and "i < length (arena v)"
    and "payload pkt \<noteq> []" and "length (payload pkt) \<le> 2048"
  shows "arena (count_tx pkt (of_nat (44 + length (payload pkt))) v) ! i
    = (arena v ! i)\<lparr>txCnt := txCnt (arena v ! i) + of_nat (length (payload pkt))\<rparr>"
proof -
  have small: "unat (of_nat k :: u32) = k" if "k < 2 ^ 32" for k using that by (simp add: unat_of_nat)
  have "unat (of_nat (44 + length (payload pkt)) :: u32) = 44 + length (payload pkt)"
    using assms(4) by (intro small) simp
  moreover have "unat (44 :: u32) = 44" by simp
  ultimately have "(44 :: u32) < of_nat (44 + length (payload pkt))"
    using assms(3) by (simp only: word_less_nat_alt) simp
  then show ?thesis
    using assms(1,2) by (simp add: count_tx_def upd_conn_def vsockHdrLen_def)
qed

text \<open>C14. Delivery respects the window the guest advertises, and sends whenever it can. For a data packet
  at the front of the outbound queue of an open connection: if the bytes in flight and its payload together
  exceed the guest's receive buffer, the step sends nothing, changes nothing and ends the flush.
  Otherwise, if no chain is available, the flush ends with the packet still queued; if the chain is too small
  it is returned with length 0 and the sent counter stays; and if the chain has room, the whole frame is
  written to it, it is returned with the frame's length, the packet leaves the queue, the sent counter
  advances by exactly the payload, and the bytes in flight still fit the guest's buffer.\<close>

theorem flush_respects_credit:
  assumes "core_ok c" and "vsock_ok v" and front: "ring_Front (pending v) = Some (pkt, j)"
    and "h_op (hdr pkt) = vsockOpRW" and "payload pkt \<noteq> []" and "length (payload pkt) \<le> 2048"
    and i: "conns v (pendingConnKey pkt) = Some i"
  shows "if unat (peerBufAlloc (arena v ! i)) < in_flight (arena v ! i) + length (payload pkt)
    then flush_step (c, v) = Inl (c, v)
    else case availChain (chainLimit (Some vsock_maxChainBytes) (mem c) vsockQueueRx) vsockQueueRx c of
      (c1, None) \<Rightarrow> flush_step (c, v) = Inl (c1, v)
    | (c1, Some (hd1, chain)) \<Rightarrow>
        if desc_bytes (snd (splitChain chain)) < 44 + length (payload pkt)
        then \<exists>v' again. flush_step (c, v) = Inr ((pushUsed vsockQueueRx hd1 0 c1, v'), again) \<and>
          txCnt (arena v' ! i) = txCnt (arena v ! i)
        else \<exists>c2 v'. writeChains (snd (splitChain chain)) (rx_frame pkt) c1
            = (c2, of_nat (44 + length (payload pkt)), None) \<and>
          flush_step (c, v) = Inr ((pushUsed vsockQueueRx hd1 (of_nat (44 + length (payload pkt))) c2, v'), False) \<and>
          ring_items (pending v') = tl (ring_items (pending v)) \<and>
          txCnt (arena v' ! i) = txCnt (arena v ! i) + of_nat (length (payload pkt)) \<and>
          in_flight (arena v' ! i) = in_flight (arena v ! i) + length (payload pkt) \<and>
          in_flight (arena v' ! i) \<le> unat (peerBufAlloc (arena v' ! i))"
proof -
  let ?x = "arena v ! i" and ?n = "44 + length (payload pkt)"
  let ?av = "availChain (chainLimit (Some vsock_maxChainBytes) (mem c) vsockQueueRx) vsockQueueRx c"
  note stall = rx_stalled_window [OF assms(4-6) i]
  have il: "i < length (arena v)" using tableD [OF assms(2) i] by blast
  show ?thesis
  proof (cases "unat (peerBufAlloc ?x) < in_flight ?x + length (payload pkt)")
    case True
    then show ?thesis using stall front by (simp add: flush_step_def)
  next
    case False
    then have ns: "\<not> rx_stalled pkt v" using stall by simp
    obtain c1 res where av: "?av = (c1, res)" by (cases ?av)
    show ?thesis
    proof (cases res)
      case None
      then show ?thesis using False av front ns by (simp add: flush_step_def)
    next
      case (Some hc)
      obtain hd1 chain out inn where hc: "hc = (hd1, chain)" and sp: "splitChain chain = (out, inn)"
        by (metis surj_pair)
      note chain = flush_step_chain [OF assms(1) front ns assms(6) sp av [unfolded Some hc]]
      let ?w = "(count_tx pkt (of_nat ?n) v)\<lparr>rxMissStreak := 0\<rparr>"
      have x': "arena (popPending ?w) ! i = ?x\<lparr>txCnt := txCnt ?x + of_nat (length (payload pkt))\<rparr>"
        using count_tx_counts [OF i il assms(5,6)] by simp
      have fl: "in_flight (arena (popPending ?w) ! i) = in_flight ?x + length (payload pkt)"
        unfolding x' using False assms(6) by (simp add: in_flight_add)
      have "pending ?w = pending v" by (simp add: count_tx_def upd_conn_def split: option.split)
      then have items: "ring_items (pending (popPending ?w)) = tl (ring_items (pending v))"
        using assms(2) front by (intro popPending_items) (simp_all add: vsock_ok_def)
      have miss: "txCnt (arena (fst (rxMiss pkt c1 v)) ! i) = txCnt ?x"
        using unmarked_nth [OF unmarked_rxMiss il, where g = txCnt] by (simp add: unmarked_def)
      show ?thesis
      proof (cases "desc_bytes inn < ?n")
        case True
        then show ?thesis using False av Some hc sp chain(1) miss by auto
      next
        case fits: False
        then obtain c2 where "writeChains inn (rx_frame pkt) c1 = (c2, of_nat ?n, None)"
            "flush_step (c, v) = Inr ((pushUsed vsockQueueRx hd1 (of_nat ?n) c2, popPending ?w), False)"
          using chain(2) by auto
        then show ?thesis using False av Some hc sp fits x' fl items by (auto simp del: of_nat_add)
      qed
    qed
  qed
qed

text \<open>A queue whose one receive buffer holds a one-byte frame, and a device about to send it.\<close>

definition rx_ram :: RAM where
  "rx_ram = NewRAM ([40, 0, 0, 0, 0, 0, 0, 0, 45, 0, 0, 0, 2, 0, 0, 0,
     0, 0, 1, 0, 0, 0, 0, 0] @ replicate 61 0) 0"

definition rx_core :: Core where
  "rx_core = sample_core\<lparr>mem := rx_ram\<rparr>"

definition rx_desc :: desc where
  "rx_desc = \<lparr>d_addr = 40, d_len = 45, d_flags = 2, d_next = 0\<rparr>"

definition rx_pkt :: vsockPkt where
  "rx_pkt = rw_pkt 9 1025 0 [65] (NewVsock 3 [])"

definition rx_dev :: Vsock where
  "rx_dev = (NewVsock 3 [])\<lparr>arena := [new_conn (pendingConnKey rx_pkt) 100 0 True],
     conns := [pendingConnKey rx_pkt \<mapsto> 0], pending := fst (ring_Push rx_pkt (new_ring zero_pkt))\<rparr>"

lemma rx_rangeOff: "rangeOff rx_ram a n = (if a \<le> 85 \<and> n \<le> 85 - a then Some a else None)"
  by (simp add: rx_ram_def rangeOff_def NewRAM_def Let_def)

lemma rx_read: "readAt rx_ram a n =
    (if a \<le> 85 \<and> of_nat n \<le> 85 - a then (case slice (unat a) n (ram rx_ram) of
        None \<Rightarrow> Inl SlicePanic | Some p \<Rightarrow> Inr p) else Inl OutsideRAM)"
  by (simp add: readAt_def rx_rangeOff)

lemma rx_reads:
  "readAt rx_ram 16 2 = Inr [0, 0]" "readAt rx_ram 18 2 = Inr [1, 0]" "readAt rx_ram 20 2 = Inr [0, 0]"
  "readAt rx_ram 0 16 = Inr [40, 0, 0, 0, 0, 0, 0, 0, 45, 0, 0, 0, 2, 0, 0, 0]"
  unfolding rx_read by (simp_all add: rx_ram_def NewRAM_def slice_def)

lemma rx_avail: "availChain (chainLimit (Some vsock_maxChainBytes) (mem rx_core) 0) 0 rx_core =
    (bump_avail 0 rx_core, Some (0, [rx_desc]))"
  by (simp add: availChain_def rx_core_def sample_core_def sample_queue_def numValid_def rx_reads Let_def
      descAt_def vring_consts Uint16_def Uint32_def Uint64_def chainLimit_def vsock_maxChainBytes_def
      vsockMaxChainBytes_def contains_def rx_rangeOff chain_walk.simps bump_avail_def rx_desc_def)

lemma rx_dev_ok: "vsock_ok rx_dev"
proof -
  have empty: "ring_ok zero_pkt (new_ring zero_pkt)" by (rule pring.invar_empty)
  have room: "count (new_ring zero_pkt) < pendingRingCapacity" by (simp add: new_ring_def pendingRingCapacity_def)
  obtain q s b where p: "ring_Push rx_pkt (new_ring zero_pkt) = (q, s, b)" by (metis prod_cases3)
  have nc: "\<not> is_credit rx_pkt" by (simp add: is_credit_def rx_pkt_def rw_pkt_def vsock_ops)
  have "credit_ok (new_ring zero_pkt) Map.empty" by (simp add: credit_ok_def new_ring_def)
  from credit_ok_push [OF empty this room _ p] nc have "credit_ok q Map.empty" by simp
  moreover have "ring_ok zero_pkt q" using ring_Push_ok(1) [OF empty room, of rx_pkt] p by simp
  ultimately show ?thesis
    using p by (simp add: vsock_ok_def rx_dev_def NewVsock_def table_ok_def new_conn_def conn_ok_def vsock_consts)
qed

theorem flush_respects_credit_witness:
  "\<exists>c' v'. flush_step (rx_core, rx_dev) = Inr ((c', v'), False) \<and> txCnt (arena v' ! 0) = 1 \<and>
    in_flight (arena v' ! 0) \<le> unat (peerBufAlloc (arena v' ! 0)) \<and> ring_items (pending v') = []"
proof -
  have front: "ring_Front (pending rx_dev) = Some (rx_pkt, 0)" and items: "tl (ring_items (pending rx_dev)) = []"
    by (simp_all add: rx_dev_def ring_Front_def ring_Push_def ring_Full_def new_ring_def Let_def
        pendingRingCapacity_def ring_items_def)
  have conn: "conns rx_dev (pendingConnKey rx_pkt) = Some 0" "arena rx_dev ! 0 = new_conn (pendingConnKey rx_pkt) 100 0 True"
    by (simp_all add: rx_dev_def)
  have pay: "payload rx_pkt = [65]" "h_op (hdr rx_pkt) = vsockOpRW" by (simp_all add: rx_pkt_def rw_pkt_def)
  have ok: "core_ok rx_core"
    using sample_core_ok by (simp add: rx_core_def core_ok_def rx_ram_def ram_ok_NewRAM)
  have window: "\<not> unat (peerBufAlloc (arena rx_dev ! 0)) < in_flight (arena rx_dev ! 0) + length (payload rx_pkt)"
    by (simp add: conn pay new_conn_def in_flight_def)
  have fits: "\<not> desc_bytes (snd (splitChain [rx_desc])) < 44 + length (payload rx_pkt)"
    by (simp add: splitChain_def rx_desc_def vring_consts pay)
  have "txCnt (arena rx_dev ! 0) + of_nat (length (payload rx_pkt)) = 1" by (simp add: conn pay new_conn_def)
  then show ?thesis
    using flush_respects_credit [OF ok rx_dev_ok front pay(2) _ _ conn(1)] window fits items
    by (auto simp: rx_avail [folded vsockQueueRx_def] pay(1))
qed

section \<open>Byte streams\<close>

text \<open>
  The guest's bytes on their way to the host socket: written, being written, and queued.
\<close>

definition stream :: "vsockConn \<Rightarrow> bytes" where
  "stream x = ncOut x @ (case sending x of None \<Rightarrow> [] | Some p \<Rightarrow> p) @ concat (outQ x)"

lemma stream_unmarked: "stream (unmarked x) = stream x"
  by (simp add: stream_def unmarked_def)

lemma map_stream_unmarked: "map unmarked xs = map unmarked ys \<Longrightarrow> map stream xs = map stream ys"
  by (metis (no_types, lifting) list.map_comp list.map_cong0 comp_apply stream_unmarked)

lemma streams_count_tx: "map stream (arena (count_tx pkt n v)) = map stream (arena v)"
  by (auto simp: count_tx_def stream_def intro!: map_upd split: option.splits)

lemma flush_step_streams:
  "case flush_step s of Inl r \<Rightarrow> map stream (arena (snd r)) = map stream (arena (snd s))
    | Inr (r, again) \<Rightarrow> map stream (arena (snd r)) = map stream (arena (snd s))"
proof (cases "flush_step s")
  case (Inl r)
  then have "snd r = snd s"
    by (auto simp: flush_step_def Let_def split: option.splits prod.splits if_splits)
  with Inl show ?thesis by simp
next
  case (Inr ra)
  then obtain c2 v2 again where ra: "ra = ((c2, v2), again)" by (metis surj_pair)
  obtain pkt j where f: "ring_Front (pending (snd s)) = Some (pkt, j)"
    using Inr by (cases "ring_Front (pending (snd s))") (auto simp: flush_step_def)
  from flush_step_arena(2) [OF f, of "fst s" c2 v2 again] Inr ra
  have "map unmarked (arena v2) = map unmarked (arena (snd s)) \<or>
      arena v2 = arena (count_tx pkt (of_nat (vsockHdrLen + length (payload pkt))) (snd s))" by simp
  then have "map stream (arena v2) = map stream (arena (snd s))"
    using map_stream_unmarked streams_count_tx by metis
  with Inr ra show ?thesis by simp
qed

lemma tryFlush_streams:
  assumes "tryFlush (c, v) = Some (c', v')"
  shows "map stream (arena v') = map stream (arena v)"
proof -
  have "map stream (arena (snd (c', v'))) = map stream (arena v)"
  proof (rule tryFlush_induct [where P = "\<lambda>s. map stream (arena (snd s)) = map stream (arena v)", OF _ _ assms])
    fix s :: "Core \<times> Vsock"
    assume "map stream (arena (snd s)) = map stream (arena v)"
    then show "case flush_step s of Inl r \<Rightarrow> map stream (arena (snd r)) = map stream (arena v)
      | Inr (r, again) \<Rightarrow> map stream (arena (snd r)) = map stream (arena v)"
      using flush_step_streams [of s] by (auto split: sum.splits)
  qed simp_all
  then show ?thesis by simp
qed

lemma enqueueCtrl_streams:
  "enqueueCtrlWithFwd h opc fl fwd (c, v) = Some ((c', v'), queued) \<Longrightarrow>
    map stream (arena v') = map stream (arena v)"
  using tryFlush_streams
  by (fastforce simp: enqueueCtrlWithFwd_def split: prod.splits if_splits dest: arg_cong [where f = fst])

lemma closeConn_streams:
  assumes "closeConn i h b (c, v) = Some (c', v')"
  shows "map stream (arena v') = map stream (arena v)"
proof -
  have m: "map stream (arena (closeConn_mark i v)) = map stream (arena v)"
    by (rule map_stream_unmarked [OF unmarked_closeConn_mark])
  show ?thesis
    using assms m enqueueCtrl_streams [of h vsockOpRST 0 "rxCnt (arena v ! i)" c "closeConn_mark i v" c' v']
    by (auto simp: closeConn_def Let_def split: if_splits)
qed

text \<open>A connection, once closed, stays closed.\<close>

lemma closed_upd:
  assumes "closed (arena v ! i)" and "\<And>x. closed x \<Longrightarrow> closed (f x)"
  shows "closed (arena (upd_conn j f v) ! i)"
  using assms by (cases "j < length (arena v)") (auto simp: upd_conn_def nth_list_update list_update_beyond)

lemma closed_rxMiss: "closed (arena v ! i) \<Longrightarrow> closed (arena (fst (rxMiss pkt c v)) ! i)"
proof -
  assume "closed (arena v ! i)"
  then have "closed (arena (closeConn_mark j (popPending (v\<lparr>rxMissStreak := 0\<rparr>))) ! i)" for j
    using closed_upd [of "popPending (v\<lparr>rxMissStreak := 0\<rparr>)" i] by (simp add: closeConn_mark_def shut_conn_def Let_def)
  with \<open>closed (arena v ! i)\<close> show ?thesis by (auto simp: rxMiss_def Let_def split: option.splits)
qed

lemma tryFlush_closed:
  assumes "tryFlush (c, v) = Some (c', v')" and "closed (arena v ! i)"
  shows "closed (arena v' ! i)"
proof -
  have ct: "closed (arena w ! i) \<Longrightarrow> closed (arena (count_tx pkt n w) ! i)" for pkt n w
    by (auto simp: count_tx_def intro!: closed_upd split: option.splits)
  have "closed (arena (snd (c', v')) ! i)"
  proof (rule tryFlush_induct [where P = "\<lambda>s. closed (arena (snd s) ! i)", OF _ _ assms(1)])
    fix s :: "Core \<times> Vsock"
    assume "closed (arena (snd s) ! i)"
    then show "case flush_step s of Inl r \<Rightarrow> closed (arena (snd r) ! i) | Inr (r, again) \<Rightarrow> closed (arena (snd r) ! i)"
      using closed_rxMiss ct
      by (auto simp: flush_step_def Let_def split: option.splits prod.splits if_splits)
        (metis fst_conv)+
  qed (simp_all add: assms)
  then show ?thesis by simp
qed

lemma closeConn_closed:
  assumes "closeConn i h b (c, v) = Some (c', v')" and "i < length (arena v)"
  shows "closed (arena v' ! i)"
proof (cases "closed (arena v ! i)")
  case True
  with assms show ?thesis by (simp add: closeConn_def)
next
  case False
  have m: "closed (arena (closeConn_mark i v) ! i)"
    using assms(2) by (simp add: closeConn_mark_def shut_conn_def upd_conn_def Let_def)
  obtain v1 q where q: "queuePending (ctrl_pkt h vsockOpRST 0 (rxCnt (arena v ! i)) (closeConn_mark i v)) (closeConn_mark i v) = (v1, q)"
    by (metis surj_pair)
  have "closed (arena v1 ! i)" using m q arena_queuePending by (metis fst_conv)
  then show ?thesis
    using assms(1) False m q tryFlush_closed [of c v1 c' v' i]
    by (auto simp: closeConn_def enqueueCtrlWithFwd_def Let_def split: if_splits)
qed

lemma rw_streams:
  assumes "vsock_ok v" and "conns v (tx_key h) = Some i" and rw: "tx_rw h data (c, v) = Some (c', v')"
    and "\<not> closed (arena v' ! i)"
  shows "map stream (arena v') = (map stream (arena v))[i := stream (arena v ! i) @ data]"
proof -
  note t = tableD [OF assms(1,2)]
  let ?v1 = "upd_conn i (set_peer h) v"
  let ?v2 = "upd_conn i (\<lambda>x. x\<lparr>guestTx := guestTx x + of_nat (length data)\<rparr>) ?v1"
  have v1: "map stream (arena ?v1) = map stream (arena v)"
    by (rule map_upd) (simp add: stream_def set_peer_def)
  have "map stream (arena ?v2) = map stream (arena ?v1)" by (rule map_upd) (simp add: stream_def)
  with v1 have v2: "map stream (arena ?v2) = map stream (arena v)" by simp
  have at: "stream (arena ?v2 ! i) = stream (arena v ! i)"
    using arg_cong [OF v2, of "\<lambda>xs. xs ! i"] t by simp
  have q: "map stream (arena (upd_conn i (rw_queue data) ?v2)) =
      (map stream (arena ?v2))[i := stream (arena ?v2 ! i) @ data]"
    by (simp add: upd_conn_def [of i "rw_queue data"] map_update rw_queue_def stream_def)
  show ?thesis
  proof (cases "length data = 0")
    case True
    then have "v' = ?v1" using rw assms(2) t by (simp add: tx_rw_def Let_def)
    with v1 True t list_update_id [of "map stream (arena v)" i] show ?thesis by simp
  next
    case False
    have "\<not> rw_beyond data (arena ?v2 ! i)"
      using rw assms(2,4) t False closeConn_closed [of i h True c ?v2 c' v']
      by (auto simp: tx_rw_def Let_def split: if_splits)
    then have "v' = upd_conn i (rw_queue data) ?v2"
      using rw assms(2) t False by (simp add: tx_rw_def Let_def)
    with q v2 at show ?thesis by simp
  qed
qed

text \<open>C13. The guest's data reaches the host socket in order and without loss: a data packet the
  device accepts is appended to the connection's stream of written, in-flight and queued bytes,
  the pump's taking and completing a write leave that stream unchanged, and neither affects any
  other connection.\<close>

theorem vsock_stream_order:
  assumes "vsock_ok v" and "conns v (tx_key h) = Some i"
  shows "(tx_rw h data (c, v) = Some (c', v') \<longrightarrow> \<not> closed (arena v' ! i) \<longrightarrow>
      map stream (arena v') = (map stream (arena v))[i := stream (arena v ! i) @ data]) \<and>
    (sending (arena v ! i) = None \<longrightarrow> pumpOut_next i (c, v) = Some (c', v') \<longrightarrow>
      map stream (arena v') = map stream (arena v)) \<and>
    (pumpOut_wrote i (c, v) = Some (c', v') \<longrightarrow> map stream (arena v') = map stream (arena v))"
proof (intro conjI impI)
  note t = tableD [OF assms]
  show "map stream (arena v') = map stream (arena v)"
    if "sending (arena v ! i) = None" "pumpOut_next i (c, v) = Some (c', v')"
  proof (cases "outQ (arena v ! i)")
    case Nil
    have "map stream (arena (upd_conn i (\<lambda>y. y\<lparr>outSig := False\<rparr>) v)) = map stream (arena v)"
      by (rule map_upd) (simp add: stream_def)
    with that Nil closeConn_streams show ?thesis
      by (auto simp: pumpOut_next_def Let_def split: if_splits)
  next
    case (Cons p ps)
    with that t show ?thesis
      by (auto simp: pumpOut_next_def Let_def upd_conn_def map_update stream_def list_update_same_conv)
  qed
  show "map stream (arena v') = map stream (arena v)" if "pumpOut_wrote i (c, v) = Some (c', v')"
  proof (cases "sending (arena v ! i)")
    case None
    with that show ?thesis by (simp add: pumpOut_wrote_def)
  next
    case (Some p)
    let ?v1 = "upd_conn i (\<lambda>y. y\<lparr>sending := None, ncOut := ncOut y @ p\<rparr>) v"
    let ?v2 = "upd_conn i (\<lambda>y. y\<lparr>rxCnt := rxCnt y + of_nat (length p)\<rparr>) ?v1"
    have v1: "map stream (arena ?v1) = map stream (arena v)"
      using Some t by (simp add: upd_conn_def map_update stream_def list_update_same_conv)
    have "map stream (arena ?v2) = map stream (arena ?v1)" by (rule map_upd) (simp add: stream_def)
    with v1 that Some enqueueCtrl_streams show ?thesis
      by (fastforce simp: pumpOut_wrote_def enqueueCtrl_def Let_def split: if_splits)
  qed
  assume rw: "tx_rw h data (c, v) = Some (c', v')" and op1: "\<not> closed (arena v' ! i)"
  show "map stream (arena v') = (map stream (arena v))[i := stream (arena v ! i) @ data]"
    using rw_streams [OF assms rw op1] .
qed

definition guest_hdr :: vsockHdr where
  "guest_hdr = zero_hdr\<lparr>srcPort := 9, dstPort := 1025, h_op := vsockOpRW, bufAlloc := 100\<rparr>"

theorem vsock_stream_order_witness:
  "\<exists>v'. tx_rw guest_hdr [72, 105] (rx_core, rx_dev) = Some (rx_core, v') \<and> map stream (arena v') = [[72, 105]]"
proof -
  have conn: "conns rx_dev (tx_key guest_hdr) = Some 0"
    by (simp add: rx_dev_def tx_key_def guest_hdr_def pendingConnKey_def rx_pkt_def rw_pkt_def)
  have ar: "arena rx_dev = [new_conn (pendingConnKey rx_pkt) 100 0 True]" by (simp add: rx_dev_def)
  obtain v' where v': "tx_rw guest_hdr [72, 105] (rx_core, rx_dev) = Some (rx_core, v')" "\<not> closed (arena v' ! 0)"
    using conn ar
    by (simp add: tx_rw_def Let_def upd_conn_def rw_beyond_def rw_queue_def set_peer_def new_conn_def vsock_consts)
  from vsock_stream_order [OF rx_dev_ok conn, of "[72, 105]" rx_core rx_core v'] v' ar show ?thesis
    by (auto simp: stream_def new_conn_def)
qed

section \<open>Admission\<close>

lemma ring_items_set: "p \<in> set (ring_items q) \<longleftrightarrow> (\<exists>j < count q. p = ring_at q j)"
  by (auto simp: ring_items_def)

lemma admit_ok:
  assumes "vsock_ok v"
  shows "snd (admit pkt v) = (count (pending v) < (if h_op (hdr pkt) = vsockOpRW then 240 else 256))"
    and "snd (admit pkt v) \<Longrightarrow> ring_items (pending (fst (admit pkt v))) = ring_items (pending v) @ [pkt]"
proof -
  have ok: "ring_ok zero_pkt (pending v)" using assms by (simp add: vsock_ok_def)
  have full: "\<not> snd (admit pkt v)" if "\<not> count (pending v) < (if h_op (hdr pkt) = vsockOpRW then 240 else 256)"
    using that by (simp add: admit_def Let_def vsock_consts pendingRingCapacity_def split: if_splits)
  have room: "snd (admit pkt v) \<and> ring_items (pending (fst (admit pkt v))) = ring_items (pending v) @ [pkt]"
    if c: "count (pending v) < (if h_op (hdr pkt) = vsockOpRW then 240 else 256)"
  proof -
    have lt: "count (pending v) < pendingRingCapacity" using c by (simp add: pendingRingCapacity_def split: if_splits)
    obtain q i where p: "ring_Push pkt (pending v) = (q, i, True)" using ring_Push_room [OF ok lt] by metis
    have "ring_items q = ring_items (pending v) @ [pkt]" using ring_Push_ok(2) [OF ok lt, of pkt] p by simp
    with p c show ?thesis
      by (auto simp: admit_def Let_def vsock_consts vsock_ops pendingRingCapacity_def split: if_splits)
  qed
  show "snd (admit pkt v) = (count (pending v) < (if h_op (hdr pkt) = vsockOpRW then 240 else 256))"
    using full room by blast
  show "snd (admit pkt v) \<Longrightarrow> ring_items (pending (fst (admit pkt v))) = ring_items (pending v) @ [pkt]"
    using full room by blast
qed

text \<open>Admission to the outbound queue: data stops at 240 packets, leaving 16 slots to control
  packets; a credit update of a connection that already has one queued is always accepted, replaces
  the older one in place and does not lengthen the queue; whatever is accepted is in the queue.\<close>

theorem queue_admission:
  assumes "vsock_ok v"
  shows "(let coalesce = is_credit pkt \<and>
        (\<exists>p \<in> set (ring_items (pending v)). is_credit p \<and> pendingConnKey p = pendingConnKey pkt);
      v' = fst (queuePending pkt v) in
    snd (queuePending pkt v) = (coalesce \<or> count (pending v) < (if h_op (hdr pkt) = vsockOpRW then 240 else 256)) \<and>
    (snd (queuePending pkt v) \<longrightarrow> pkt \<in> set (ring_items (pending v'))) \<and>
    (coalesce \<longrightarrow> length (ring_items (pending v')) = length (ring_items (pending v))))"
proof (cases "is_credit pkt \<and> (\<exists>p \<in> set (ring_items (pending v)). is_credit p \<and> pendingConnKey p = pendingConnKey pkt)")
  case True
  have ok: "ring_ok zero_pkt (pending v)" and cr: "credit_ok (pending v) (pendingCredit v)"
    using assms by (simp_all add: vsock_ok_def)
  from True obtain j where j: "j < count (pending v)" "is_credit (ring_at (pending v) j)"
      "pendingConnKey (ring_at (pending v) j) = pendingConnKey pkt" by (auto simp: ring_items_set)
  have "pendingCredit v (pendingConnKey pkt) = Some (slot_of (pending v) j)" using cr j by (auto simp: credit_ok_def)
  then have q: "queuePending pkt v = (v\<lparr>pending := ring_set (slot_of (pending v) j) pkt (pending v)\<rparr>, True)"
    using True j slot_less [OF ok, of j] by (simp add: queuePending_def is_credit_def slot_at Let_def)
  have jc: "j < pendingRingCapacity" using j ok by (simp add: ring_ok_def)
  have cnt: "count (ring_set i x r) = count r" for i x and r :: "vsockPkt pendingRing" by (simp add: ring_set_def)
  have "pkt \<in> set (ring_items (ring_set (slot_of (pending v) j) pkt (pending v)))"
    using ring_set_at [OF ok jc jc, of pkt] j(1) cnt by (auto simp: ring_items_set)
  with True q cnt show ?thesis by (simp add: Let_def)
next
  case False
  have cr: "credit_ok (pending v) (pendingCredit v)" using assms by (simp add: vsock_ok_def)
  have "is_credit pkt \<Longrightarrow> pendingCredit v (pendingConnKey pkt) = None"
    using False cr unfolding credit_ok_def by (metis ring_items_set option.exhaust)
  then have "queuePending pkt v = admit pkt v"
    by (auto simp: queuePending_def is_credit_def split: option.splits)
  with False admit_ok [OF assms, of pkt] show ?thesis by (auto simp: Let_def)
qed

theorem queue_admission_witness:
  "vsock_ok rx_dev \<and> snd (queuePending rx_pkt rx_dev) \<and> rx_pkt \<in> set (ring_items (pending (fst (queuePending rx_pkt rx_dev))))"
proof -
  have "count (pending rx_dev) = 1" "h_op (hdr rx_pkt) = vsockOpRW"
    by (simp_all add: rx_dev_def ring_Push_def ring_Full_def new_ring_def Let_def pendingRingCapacity_def
        rx_pkt_def rw_pkt_def)
  with queue_admission [OF rx_dev_ok, of rx_pkt] rx_dev_ok show ?thesis by (simp add: Let_def)
qed

end
