(* ===== verification/Netpol_Flows.thy ===== *)
theory Netpol_Flows
  imports Gantry_Prelude "HOL-Library.AList"
begin

text \<open>
  The packet side of the egress policy (\<open>internal/netpol/policy.go\<close>): Ethernet/IPv4 frame
  parsing and the table of host-published TCP flows.  The table is the Go one, a map from
  the flow to a list element beside a doubly linked list in order of last trusted ingress
  activity; elements are identified by numbers, and dereferencing an element that is not in
  the list is the value \<open>None\<close>.  Instants are nanoseconds as integers.
\<close>

unbundle bit_operations_syntax

section \<open>Frames\<close>

type_synonym Time = int

datatype ip4 = IP4 u8 u8 u8 u8

primrec ip4_bytes :: "ip4 \<Rightarrow> bytes" where
  "ip4_bytes (IP4 a b c d) = [a, b, c, d]"

definition ip4_of :: "bytes \<Rightarrow> ip4" where
  "ip4_of bs = IP4 (bs ! 0) (bs ! 1) (bs ! 2) (bs ! 3)"

definition etherTypeIPv4 :: u16 where "etherTypeIPv4 = 0x0800"
definition etherTypeARP :: u16 where "etherTypeARP = 0x0806"
definition protoICMP :: u8 where "protoICMP = 1"
definition protoTCP :: u8 where "protoTCP = 6"
definition protoUDP :: u8 where "protoUDP = 17"
definition tcpFIN :: u8 where "tcpFIN = 0x01"
definition tcpSYN :: u8 where "tcpSYN = 0x02"
definition tcpRST :: u8 where "tcpRST = 0x04"
definition tcpACK :: u8 where "tcpACK = 0x10"

definition gatewayIPv4 :: ip4 where "gatewayIPv4 = IP4 192 168 127 1"
definition guestIPv4 :: ip4 where "guestIPv4 = IP4 192 168 127 2"
definition subnetBroadcast :: ip4 where "subnetBroadcast = IP4 192 168 127 255"

definition Second :: Time where "Second = 1000000000"
definition publishedFlowPendingTTL :: Time where "publishedFlowPendingTTL = 30 * Second"
definition publishedFlowIdleTTL :: Time where "publishedFlowIdleTTL = 24 * 3600 * Second"
definition maxPublishedFlows :: nat where "maxPublishedFlows = 4096"

record parsedPacket =
  pp_src :: ip4
  pp_dst :: ip4
  pp_proto :: u8
  pp_sport :: u16
  pp_dport :: u16
  pp_l4 :: bytes
  pp_isUDP :: bool
  pp_srcIsDNS :: bool
  pp_fragmented :: bool

definition zero_packet :: parsedPacket where
  "zero_packet = \<lparr> pp_src = IP4 0 0 0 0, pp_dst = IP4 0 0 0 0, pp_proto = 0, pp_sport = 0,
     pp_dport = 0, pp_l4 = [], pp_isUDP = False, pp_srcIsDNS = False, pp_fragmented = False \<rparr>"

text \<open>The header of an IPv4 packet, and the ports where the packet carries them.\<close>

definition parse_ip :: "bytes \<Rightarrow> nat \<Rightarrow> parsedPacket" where
  "parse_ip ip ihl =
    (let frag = BEUint16 (take 2 (drop 6 ip));
         off = unat (frag AND 0x1fff) * 8;
         l4 = drop ihl ip;
         pp = zero_packet \<lparr> pp_proto := ip ! 9,
                pp_src := ip4_of (take 4 (drop 12 ip)),
                pp_dst := ip4_of (take 4 (drop 16 ip)),
                pp_fragmented := frag AND 0x3fff \<noteq> 0,
                pp_l4 := l4 \<rparr>
     in if off = 0 \<and> 4 \<le> length l4
        then pp \<lparr> pp_sport := BEUint16 (take 2 l4),
                  pp_dport := BEUint16 (take 2 (drop 2 l4)),
                  pp_isUDP := pp_proto pp = protoUDP,
                  pp_srcIsDNS := BEUint16 (take 2 l4) = 53 \<rparr>
        else pp)"

definition parseFrame :: "bytes \<Rightarrow> parsedPacket \<times> bool \<times> bool" where
  "parseFrame frame =
    (if length frame < 14 + 20 then (zero_packet, False, False)
     else let et = BEUint16 (take 2 (drop 12 frame)) in
       if et = etherTypeARP then (zero_packet, True, False)
       else if et \<noteq> etherTypeIPv4 then (zero_packet, False, False)
       else let ip = drop 14 frame; ihl = unat (ip ! 0 AND 0x0f) * 4 in
         if ihl < 20 \<or> length ip < ihl \<or> drop_bit 4 (ip ! 0) \<noteq> 4
         then (zero_packet, False, False)
         else (parse_ip ip ihl, False, True))"

text \<open>The data offset of a TCP header, in bytes.\<close>

definition tcp_off :: "parsedPacket \<Rightarrow> nat" where
  "tcp_off pp = unat (drop_bit 4 (pp_l4 pp ! 12)) * 4"

definition tcpTupleValid :: "parsedPacket \<Rightarrow> bool" where
  "tcpTupleValid pp =
    (if pp_fragmented pp \<or> pp_sport pp = 0 \<or> pp_dport pp = 0 then False
     else if pp_proto pp \<noteq> protoTCP \<or> length (pp_l4 pp) < 20 then False
     else 20 \<le> tcp_off pp \<and> tcp_off pp \<le> length (pp_l4 pp))"

text \<open>
  The DNS payload of a packet, \<open>None\<close> for the nil slice, and whether the packet has any
  transport payload.
\<close>

definition dnsPayload :: "parsedPacket \<Rightarrow> bytes option \<times> bool" where
  "dnsPayload pp =
    (if pp_proto pp = protoUDP then
       (if length (pp_l4 pp) < 8 then (None, True) else (Some (drop 8 (pp_l4 pp)), True))
     else if pp_proto pp = protoTCP \<and> 13 \<le> length (pp_l4 pp) then
       (let off = tcp_off pp in
        if off < 20 \<or> length (pp_l4 pp) < off then (None, True)
        else if length (pp_l4 pp) = off then (None, False)
        else if off + 2 \<le> length (pp_l4 pp) then (Some (drop (off + 2) (pp_l4 pp)), True)
        else (None, True))
     else (None, True))"

section \<open>Published flows\<close>

record publishedFlow =
  pf_guestIP :: ip4
  pf_gatewayIP :: ip4
  pf_proto :: u8
  pf_guestPort :: u16
  pf_gatewayPort :: u16

datatype publishedFlowState = publishedFlowPending | publishedFlowEstablished

record publishedFlowEntry =
  fe_flow :: publishedFlow
  fe_expiry :: Time
  fe_state :: publishedFlowState

record publishedFlowTable =
  ft_entries :: "(publishedFlow \<times> nat) list"
  ft_lru :: "(nat \<times> publishedFlowEntry) list"
  ft_fresh :: nat

definition newPublishedFlowTable :: publishedFlowTable where
  "newPublishedFlowTable = \<lparr> ft_entries = [], ft_lru = [], ft_fresh = 0 \<rparr>"

definition publishedFlowFromIngress :: "parsedPacket \<Rightarrow> (publishedFlow \<times> u8) option" where
  "publishedFlowFromIngress pp =
    (if pp_src pp \<noteq> gatewayIPv4 \<or> pp_dst pp \<noteq> guestIPv4 \<or> \<not> tcpTupleValid pp
        \<or> pp_sport pp = 53 \<or> pp_sport pp = 67 then None
     else Some (\<lparr> pf_guestIP = pp_dst pp, pf_gatewayIP = pp_src pp, pf_proto = pp_proto pp,
                  pf_guestPort = pp_dport pp, pf_gatewayPort = pp_sport pp \<rparr>, pp_l4 pp ! 13))"

definition publishedFlowFromReturn :: "parsedPacket \<Rightarrow> (publishedFlow \<times> u8) option" where
  "publishedFlowFromReturn pp =
    (if pp_src pp \<noteq> guestIPv4 \<or> pp_dst pp \<noteq> gatewayIPv4 \<or> \<not> tcpTupleValid pp then None
     else Some (\<lparr> pf_guestIP = pp_src pp, pf_gatewayIP = pp_dst pp, pf_proto = pp_proto pp,
                  pf_guestPort = pp_sport pp, pf_gatewayPort = pp_dport pp \<rparr>, pp_l4 pp ! 13))"

definition initialSYN :: "u8 \<Rightarrow> bool" where
  "initialSYN flags \<longleftrightarrow> flags AND tcpSYN \<noteq> 0 \<and> flags AND (tcpACK OR tcpRST OR tcpFIN) = 0"

definition flow_remove :: "nat \<Rightarrow> publishedFlowTable \<Rightarrow> publishedFlowTable option" where
  "flow_remove el t = (case map_of (ft_lru t) el of
      None \<Rightarrow> None
    | Some en \<Rightarrow> Some (t \<lparr> ft_entries := AList.delete (fe_flow en) (ft_entries t),
                         ft_lru := AList.delete el (ft_lru t) \<rparr>))"

text \<open>An assignment through the element's entry pointer.\<close>

definition flow_update ::
  "nat \<Rightarrow> (publishedFlowEntry \<Rightarrow> publishedFlowEntry) \<Rightarrow> publishedFlowTable \<Rightarrow> publishedFlowTable option"
where
  "flow_update el f t = (case map_of (ft_lru t) el of
      None \<Rightarrow> None
    | Some en \<Rightarrow> Some (t \<lparr> ft_lru := AList.update el (f en) (ft_lru t) \<rparr>))"

definition flow_touch :: "nat \<Rightarrow> Time \<Rightarrow> Time \<Rightarrow> publishedFlowTable \<Rightarrow> publishedFlowTable option" where
  "flow_touch el now ttl t = (case map_of (ft_lru t) el of
      None \<Rightarrow> None
    | Some en \<Rightarrow> Some (t \<lparr> ft_lru := AList.delete el (ft_lru t) @ [(el, en \<lparr> fe_expiry := now + ttl \<rparr>)] \<rparr>))"

definition flow_push :: "publishedFlow \<Rightarrow> Time \<Rightarrow> publishedFlowTable \<Rightarrow> publishedFlowTable" where
  "flow_push flow now t =
     t \<lparr> ft_entries := AList.update flow (ft_fresh t) (ft_entries t),
         ft_lru := ft_lru t @ [(ft_fresh t,
           \<lparr> fe_flow = flow, fe_expiry = now + publishedFlowPendingTTL, fe_state = publishedFlowPending \<rparr>)],
         ft_fresh := Suc (ft_fresh t) \<rparr>"

definition flow_admit ::
  "publishedFlow \<Rightarrow> u8 \<Rightarrow> Time \<Rightarrow> publishedFlowTable \<Rightarrow> publishedFlowTable option"
where
  "flow_admit flow flags now t =
    (if \<not> initialSYN flags then Some t
     else if maxPublishedFlows \<le> length (ft_entries t) then
       (case ft_lru t of
          [] \<Rightarrow> None
        | (el, _) # _ \<Rightarrow> map_option (flow_push flow now) (flow_remove el t))
     else Some (flow_push flow now t))"

definition flow_refresh ::
  "nat \<Rightarrow> publishedFlowEntry \<Rightarrow> u8 \<Rightarrow> Time \<Rightarrow> publishedFlowTable \<Rightarrow> publishedFlowTable option"
where
  "flow_refresh el en flags now t =
    (if flags AND tcpRST \<noteq> 0 then flow_remove el t
     else if initialSYN flags then
       Option.bind (flow_update el (\<lambda>en. en \<lparr> fe_state := publishedFlowPending \<rparr>) t)
         (flow_touch el now publishedFlowPendingTTL)
     else if fe_state en = publishedFlowPending then
       (if flags AND tcpACK = 0 \<or> flags AND tcpSYN \<noteq> 0 then Some t
        else Option.bind (flow_update el (\<lambda>en. en \<lparr> fe_state := publishedFlowEstablished \<rparr>) t)
               (flow_touch el now publishedFlowIdleTTL))
     else flow_touch el now publishedFlowIdleTTL t)"

definition flow_observe ::
  "publishedFlow \<Rightarrow> u8 \<Rightarrow> Time \<Rightarrow> publishedFlowTable \<Rightarrow> publishedFlowTable option"
where
  "flow_observe flow flags now t =
    (case map_of (ft_entries t) flow of
       Some el \<Rightarrow>
         (case map_of (ft_lru t) el of
            None \<Rightarrow> None
          | Some en \<Rightarrow>
              if \<not> now < fe_expiry en
              then Option.bind (flow_remove el t) (flow_admit flow flags now)
              else flow_refresh el en flags now t)
     | None \<Rightarrow> flow_admit flow flags now t)"

text \<open>The flags a packet from the guest may carry on cached state.\<close>

definition return_flags_ok :: "publishedFlowState \<Rightarrow> u8 \<Rightarrow> bool" where
  "return_flags_ok st flags =
    (if flags AND tcpSYN \<noteq> 0 \<and> flags AND tcpACK = 0 then False
     else flags AND tcpRST \<noteq> 0 \<or>
       (if st = publishedFlowPending
        then flags AND tcpSYN \<noteq> 0 \<and> flags AND tcpACK \<noteq> 0 \<and> flags AND tcpFIN = 0
        else flags AND tcpACK \<noteq> 0))"

definition flow_match ::
  "publishedFlow \<Rightarrow> u8 \<Rightarrow> Time \<Rightarrow> publishedFlowTable \<Rightarrow> (bool \<times> publishedFlowTable) option"
where
  "flow_match flow flags now t =
    (case map_of (ft_entries t) flow of
       None \<Rightarrow> Some (False, t)
     | Some el \<Rightarrow>
         (case map_of (ft_lru t) el of
            None \<Rightarrow> None
          | Some en \<Rightarrow>
              if \<not> now < fe_expiry en then map_option (Pair False) (flow_remove el t)
              else if \<not> return_flags_ok (fe_state en) flags then Some (False, t)
              else if flags AND tcpRST \<noteq> 0 then map_option (Pair True) (flow_remove el t)
              else Some (True, t)))"

definition observePublishedIngress ::
  "parsedPacket \<Rightarrow> Time \<Rightarrow> publishedFlowTable \<Rightarrow> publishedFlowTable option"
where
  "observePublishedIngress pp now t =
    (case publishedFlowFromIngress pp of
       None \<Rightarrow> Some t
     | Some (flow, flags) \<Rightarrow> flow_observe flow flags now t)"

definition matchPublishedReturn ::
  "parsedPacket \<Rightarrow> Time \<Rightarrow> publishedFlowTable \<Rightarrow> (bool \<times> publishedFlowTable) option"
where
  "matchPublishedReturn pp now t =
    (case publishedFlowFromReturn pp of
       None \<Rightarrow> Some (False, t)
     | Some (flow, flags) \<Rightarrow> flow_match flow flags now t)"

definition invalidatePublishedReturnSYN ::
  "parsedPacket \<Rightarrow> publishedFlowTable \<Rightarrow> publishedFlowTable option"
where
  "invalidatePublishedReturnSYN pp t =
    (case publishedFlowFromReturn pp of
       None \<Rightarrow> Some t
     | Some (flow, flags) \<Rightarrow>
         if flags AND tcpSYN = 0 \<or> flags AND tcpACK \<noteq> 0 then Some t
         else (case map_of (ft_entries t) flow of
                 None \<Rightarrow> Some t
               | Some el \<Rightarrow> flow_remove el t))"

section \<open>Specification: one list of entries in order of activity\<close>

definition sp_rest :: "publishedFlow \<Rightarrow> publishedFlowEntry list \<Rightarrow> publishedFlowEntry list" where
  "sp_rest flow es = filter (\<lambda>en. fe_flow en \<noteq> flow) es"

definition sp_find :: "publishedFlow \<Rightarrow> publishedFlowEntry list \<Rightarrow> publishedFlowEntry option" where
  "sp_find flow es = find (\<lambda>en. fe_flow en = flow) es"

definition sp_entry :: "publishedFlow \<Rightarrow> Time \<Rightarrow> publishedFlowState \<Rightarrow> publishedFlowEntry" where
  "sp_entry flow expiry st = \<lparr> fe_flow = flow, fe_expiry = expiry, fe_state = st \<rparr>"

definition sp_admit ::
  "publishedFlow \<Rightarrow> u8 \<Rightarrow> Time \<Rightarrow> publishedFlowEntry list \<Rightarrow> publishedFlowEntry list"
where
  "sp_admit flow flags now es =
    (if initialSYN flags
     then (if maxPublishedFlows \<le> length es then tl es else es)
          @ [sp_entry flow (now + publishedFlowPendingTTL) publishedFlowPending]
     else es)"

definition sp_observe ::
  "publishedFlow \<Rightarrow> u8 \<Rightarrow> Time \<Rightarrow> publishedFlowEntry list \<Rightarrow> publishedFlowEntry list"
where
  "sp_observe flow flags now es =
    (case sp_find flow es of
       None \<Rightarrow> sp_admit flow flags now es
     | Some en \<Rightarrow>
         if fe_expiry en \<le> now then sp_admit flow flags now (sp_rest flow es)
         else if flags AND tcpRST \<noteq> 0 then sp_rest flow es
         else if initialSYN flags
           then sp_rest flow es @ [sp_entry flow (now + publishedFlowPendingTTL) publishedFlowPending]
         else if fe_state en = publishedFlowPending \<and> (flags AND tcpACK = 0 \<or> flags AND tcpSYN \<noteq> 0)
           then es
         else sp_rest flow es @ [sp_entry flow (now + publishedFlowIdleTTL) publishedFlowEstablished])"

definition sp_match ::
  "publishedFlow \<Rightarrow> u8 \<Rightarrow> Time \<Rightarrow> publishedFlowEntry list \<Rightarrow> bool \<times> publishedFlowEntry list"
where
  "sp_match flow flags now es =
    (case sp_find flow es of
       None \<Rightarrow> (False, es)
     | Some en \<Rightarrow>
         if fe_expiry en \<le> now then (False, sp_rest flow es)
         else if \<not> return_flags_ok (fe_state en) flags then (False, es)
         else (True, if flags AND tcpRST \<noteq> 0 then sp_rest flow es else es))"

definition flow_abs :: "publishedFlowTable \<Rightarrow> publishedFlowEntry list" where
  "flow_abs t = map snd (ft_lru t)"

definition flows_ok :: "publishedFlowTable \<Rightarrow> bool" where
  "flows_ok t \<longleftrightarrow>
     distinct (map fst (ft_lru t)) \<and> (\<forall>el \<in> set (map fst (ft_lru t)). el < ft_fresh t) \<and>
     distinct (map fe_flow (flow_abs t)) \<and> distinct (map fst (ft_entries t)) \<and>
     set (ft_entries t) = (\<lambda>(el, en). (fe_flow en, el)) ` set (ft_lru t) \<and>
     length (ft_lru t) \<le> maxPublishedFlows"

section \<open>The table implements the list\<close>

lemma flows_ok_lookup:
  assumes "flows_ok t"
  shows "map_of (ft_entries t) flow = Some el \<longleftrightarrow> (\<exists>en. map_of (ft_lru t) el = Some en \<and> fe_flow en = flow)"
proof -
  have "map_of (ft_entries t) flow = Some el \<longleftrightarrow> (flow, el) \<in> set (ft_entries t)"
    using assms by (simp add: flows_ok_def)
  also have "\<dots> \<longleftrightarrow> (\<exists>en. (el, en) \<in> set (ft_lru t) \<and> fe_flow en = flow)"
    using assms by (auto simp: flows_ok_def)
  also have "\<dots> \<longleftrightarrow> (\<exists>en. map_of (ft_lru t) el = Some en \<and> fe_flow en = flow)"
    using assms by (simp add: flows_ok_def)
  finally show ?thesis .
qed

lemma flows_ok_length:
  assumes "flows_ok t"
  shows "length (ft_entries t) = length (ft_lru t)"
proof -
  have "inj_on (\<lambda>(el, en). (fe_flow en, el)) (set (ft_lru t))"
    using assms by (auto simp: flows_ok_def inj_on_def dest: eq_key_imp_eq_value)
  then have "card (set (ft_entries t)) = card (set (ft_lru t))"
    using assms by (simp add: flows_ok_def card_image)
  moreover have "distinct (ft_entries t)" "distinct (ft_lru t)"
    using assms by (simp_all add: flows_ok_def distinct_map)
  ultimately show ?thesis by (simp add: distinct_card)
qed

text \<open>In a list with distinct flows, an element's number and its flow say the same thing.\<close>

lemma lru_delete_abs:
  assumes "distinct (map fst xs)" "distinct (map (fe_flow \<circ> snd) xs)" "map_of xs el = Some en"
  shows "map snd (AList.delete el xs) = sp_rest (fe_flow en) (map snd xs)"
  using assms
proof (induction xs)
  case (Cons x xs)
  show ?case
  proof (cases "fst x = el")
    case True
    then have "en = snd x" using Cons.prems by simp
    moreover have "el \<notin> fst ` set xs" using Cons.prems True by auto
    moreover have "filter (\<lambda>e. fe_flow e \<noteq> fe_flow (snd x)) (map snd xs) = map snd xs"
      using Cons.prems by (auto simp: filter_id_conv image_iff)
    ultimately show ?thesis
      using True by (simp add: sp_rest_def AList.delete_idem)
  next
    case False
    then have in_xs: "map_of xs el = Some en" using Cons.prems by (cases x) simp
    then have "fe_flow en \<in> (fe_flow \<circ> snd) ` set xs"
      by (force dest: map_of_SomeD)
    moreover have "fe_flow (snd x) \<notin> (fe_flow \<circ> snd) ` set xs" using Cons.prems(2) by simp
    ultimately have "fe_flow (snd x) \<noteq> fe_flow en" by metis
    then show ?thesis
      using Cons in_xs False by (simp add: sp_rest_def)
  qed
qed simp

lemma sp_find_abs:
  assumes "flows_ok t"
  shows "sp_find flow (flow_abs t) =
    (case map_of (ft_entries t) flow of None \<Rightarrow> None | Some el \<Rightarrow> map_of (ft_lru t) el)"
proof (cases "map_of (ft_entries t) flow")
  case None
  then have "flow \<notin> fst ` set (ft_entries t)" by (simp add: map_of_eq_None_iff)
  then have "\<forall>en \<in> set (flow_abs t). fe_flow en \<noteq> flow"
    using assms by (force simp: flows_ok_def flow_abs_def image_iff)
  then show ?thesis using None by (simp add: sp_find_def find_None_iff)
next
  case (Some el)
  then obtain en where en: "map_of (ft_lru t) el = Some en" "fe_flow en = flow"
    using flows_ok_lookup [OF assms] by blast
  have mem: "en \<in> set (flow_abs t)" using en(1) by (force simp: flow_abs_def dest: map_of_SomeD)
  then obtain en' where f: "sp_find flow (flow_abs t) = Some en'"
    using en(2) by (cases "sp_find flow (flow_abs t)") (auto simp: sp_find_def find_None_iff)
  then have "en' \<in> set (flow_abs t)" "fe_flow en' = flow"
    by (auto simp: sp_find_def find_Some_iff)
  then have "en' = en"
    using mem en(2) assms by (auto simp: flows_ok_def distinct_map inj_on_def)
  then show ?thesis using f Some en by simp
qed

lemma flow_remove_ok:
  assumes "flows_ok t" "map_of (ft_lru t) el = Some en"
  shows "\<exists>t'. flow_remove el t = Some t' \<and> flows_ok t' \<and> flow_abs t' = sp_rest (fe_flow en) (flow_abs t)"
proof -
  define t' where "t' = t \<lparr> ft_entries := AList.delete (fe_flow en) (ft_entries t),
                            ft_lru := AList.delete el (ft_lru t) \<rparr>"
  have abs: "flow_abs t' = sp_rest (fe_flow en) (flow_abs t)"
    using assms lru_delete_abs [of "ft_lru t" el en]
    by (simp add: t'_def flow_abs_def flows_ok_def)
  have mem: "(el, en) \<in> set (ft_lru t)" using assms(2) by (rule map_of_SomeD)
  have uniq: "k = el \<longleftrightarrow> fe_flow e = fe_flow en" if "(k, e) \<in> set (ft_lru t)" for k e
  proof
    assume "k = el"
    with that assms(2) have "e = en" using assms(1) by (auto simp: flows_ok_def)
    then show "fe_flow e = fe_flow en" by simp
  next
    assume "fe_flow e = fe_flow en"
    moreover have "inj_on (fe_flow \<circ> snd) (set (ft_lru t))"
      using assms(1) by (simp add: flows_ok_def flow_abs_def distinct_map comp_def)
    ultimately have "(k, e) = (el, en)"
      using that mem inj_onD [of "fe_flow \<circ> snd" "set (ft_lru t)" "(k, e)" "(el, en)"] by simp
    then show "k = el" by simp
  qed
  have "set (ft_entries t') = {x \<in> (\<lambda>(el, en). (fe_flow en, el)) ` set (ft_lru t). fst x \<noteq> fe_flow en}"
    using assms(1) by (auto simp: t'_def flows_ok_def AList.delete_eq)
  also have "\<dots> = (\<lambda>(el, en). (fe_flow en, el)) ` {x \<in> set (ft_lru t). fst x \<noteq> el}"
    unfolding Compr_image_eq by (intro arg_cong [where f = "image _"]) (auto simp: uniq dest: uniq [THEN iffD1, OF _ refl])
  finally have "set (ft_entries t') = (\<lambda>(el, en). (fe_flow en, el)) ` set (ft_lru t')"
    by (simp add: t'_def AList.delete_eq case_prod_beta' eq_commute [of el])
  moreover have "distinct (map fe_flow (flow_abs t'))"
    using assms(1) by (simp add: abs sp_rest_def flows_ok_def distinct_map_filter)
  moreover have "length (ft_lru t') \<le> length (ft_lru t)"
    by (simp add: t'_def AList.delete_eq)
  moreover have "distinct (map fst (ft_lru t'))" "distinct (map fst (ft_entries t'))"
    using assms(1) by (simp_all add: t'_def flows_ok_def AList.distinct_delete)
  moreover have "\<forall>k \<in> set (map fst (ft_lru t')). k < ft_fresh t'"
    using assms(1) by (auto simp: t'_def flows_ok_def AList.delete_eq)
  moreover have "length (ft_lru t) \<le> maxPublishedFlows" using assms(1) by (simp add: flows_ok_def)
  ultimately have "flows_ok t'" by (simp add: flows_ok_def)
  moreover have "flow_remove el t = Some t'"
    using assms(2) by (simp add: flow_remove_def t'_def)
  ultimately show ?thesis using abs by blast
qed

lemma flow_push_ok:
  assumes ok: "flows_ok t" and new: "flow \<notin> fe_flow ` set (flow_abs t)"
    and room: "length (ft_lru t) < maxPublishedFlows"
  shows "flows_ok (flow_push flow now t)"
    and "flow_abs (flow_push flow now t) =
           flow_abs t @ [sp_entry flow (now + publishedFlowPendingTTL) publishedFlowPending]"
proof -
  have fresh: "ft_fresh t \<notin> fst ` set (ft_lru t)" using ok by (auto simp: flows_ok_def)
  have notin: "flow \<notin> fst ` set (ft_entries t)"
    using ok new by (auto simp: flows_ok_def flow_abs_def image_iff)
  have upd: "AList.update flow n xs = xs @ [(flow, n)]" if "flow \<notin> fst ` set xs" for n :: nat and xs
    using that by (induction xs) auto
  show "flow_abs (flow_push flow now t) =
           flow_abs t @ [sp_entry flow (now + publishedFlowPendingTTL) publishedFlowPending]"
    by (simp add: flow_push_def flow_abs_def sp_entry_def)
  show "flows_ok (flow_push flow now t)"
    using ok new fresh room notin upd [OF notin]
    by (auto simp: flows_ok_def flow_push_def flow_abs_def less_Suc_eq)
qed

lemma flow_touch_ok:
  assumes ok: "flows_ok t" and en: "map_of (ft_lru t) el = Some en"
  shows "\<exists>t'. flow_touch el now ttl t = Some t' \<and> flows_ok t'
    \<and> flow_abs t' = sp_rest (fe_flow en) (flow_abs t) @ [sp_entry (fe_flow en) (now + ttl) (fe_state en)]"
proof -
  define t' where "t' = t \<lparr> ft_lru := AList.delete el (ft_lru t) @ [(el, en \<lparr> fe_expiry := now + ttl \<rparr>)] \<rparr>"
  have mem: "(el, en) \<in> set (ft_lru t)" using en by (rule map_of_SomeD)
  have rest: "map snd (AList.delete el (ft_lru t)) = sp_rest (fe_flow en) (flow_abs t)"
    using ok en lru_delete_abs [of "ft_lru t" el en] by (simp add: flow_abs_def flows_ok_def)
  have entry: "en \<lparr> fe_expiry := now + ttl \<rparr> = sp_entry (fe_flow en) (now + ttl) (fe_state en)"
    by (simp add: sp_entry_def)
  have abs: "flow_abs t' = sp_rest (fe_flow en) (flow_abs t) @ [sp_entry (fe_flow en) (now + ttl) (fe_state en)]"
    using rest entry by (simp add: t'_def flow_abs_def)
  have same: "e = en" if "(el, e) \<in> set (ft_lru t)" for e
    using that mem ok by (auto simp: flows_ok_def dest: eq_key_imp_eq_value)
  define A where "A = {x \<in> set (ft_lru t). fst x \<noteq> el}"
  have "set (ft_lru t') = A \<union> {(el, en \<lparr> fe_expiry := now + ttl \<rparr>)}"
    by (auto simp: t'_def A_def AList.delete_eq)
  moreover have "set (ft_lru t) = A \<union> {(el, en)}"
    using mem by (auto simp: A_def dest: same)
  ultimately have "(\<lambda>(el, en). (fe_flow en, el)) ` set (ft_lru t') = (\<lambda>(el, en). (fe_flow en, el)) ` set (ft_lru t)"
    by simp
  moreover have "distinct (map fe_flow (flow_abs t'))"
    using ok by (auto simp: abs sp_rest_def flows_ok_def distinct_map_filter sp_entry_def)
  moreover have "distinct (map fst (ft_lru t'))"
    using ok by (auto simp: t'_def flows_ok_def AList.distinct_delete AList.delete_eq distinct_map_filter)
  moreover have "\<forall>k \<in> set (map fst (ft_lru t')). k < ft_fresh t'"
    using ok mem by (auto simp: t'_def flows_ok_def AList.delete_eq)
  moreover have "length (ft_lru t') \<le> length (ft_lru t)"
    using mem length_filter_less [of "(el, en)" "ft_lru t" "\<lambda>(k, _). el \<noteq> k"]
    by (simp add: t'_def AList.delete_eq)
  moreover have "ft_entries t' = ft_entries t" by (simp add: t'_def)
  ultimately have "flows_ok t'"
    using ok unfolding flows_ok_def by simp
  then show ?thesis
    using abs en by (auto simp: flow_touch_def t'_def)
qed

lemma flow_update_ok:
  assumes ok: "flows_ok t" and en: "map_of (ft_lru t) el = Some en" and flow: "fe_flow (f en) = fe_flow en"
  shows "\<exists>t'. Option.bind (flow_update el f t) (flow_touch el now ttl) = Some t' \<and> flows_ok t'
    \<and> flow_abs t' = sp_rest (fe_flow en) (flow_abs t) @ [sp_entry (fe_flow en) (now + ttl) (fe_state (f en))]"
proof -
  obtain t' where t': "flow_touch el now ttl t = Some t'" "flows_ok t'"
    "flow_abs t' = sp_rest (fe_flow en) (flow_abs t) @ [sp_entry (fe_flow en) (now + ttl) (fe_state en)]"
    using flow_touch_ok [OF ok en] by blast
  define s where "s = t' \<lparr> ft_lru := butlast (ft_lru t') @ [(el, f en \<lparr> fe_expiry := now + ttl \<rparr>)] \<rparr>"
  have lru: "ft_lru t' = AList.delete el (ft_lru t) @ [(el, en \<lparr> fe_expiry := now + ttl \<rparr>)]"
    using t'(1) en by (auto simp: flow_touch_def)
  have "AList.delete el (AList.update el v xs) = AList.delete el xs" for v :: publishedFlowEntry and xs
    by (induction xs) auto
  then have run: "Option.bind (flow_update el f t) (flow_touch el now ttl) = Some s"
    using t'(1) en by (auto simp: flow_update_def flow_touch_def s_def lru AList.update_conv')
  have "flow_abs s = sp_rest (fe_flow en) (flow_abs t) @ [sp_entry (fe_flow en) (now + ttl) (fe_state (f en))]"
    using t'(3) flow by (simp add: s_def lru flow_abs_def sp_entry_def)
  moreover have "flows_ok s"
    using t'(2) flow unfolding flows_ok_def by (simp add: s_def lru flow_abs_def)
  ultimately show ?thesis using run by blast
qed

lemma flow_admit_ok:
  assumes ok: "flows_ok t" and new: "flow \<notin> fe_flow ` set (flow_abs t)"
  shows "\<exists>t'. flow_admit flow flags now t = Some t' \<and> flows_ok t'
    \<and> flow_abs t' = sp_admit flow flags now (flow_abs t)"
proof -
  have len: "length (ft_entries t) = length (flow_abs t)"
    using flows_ok_length [OF ok] by (simp add: flow_abs_def)
  consider "\<not> initialSYN flags" | "initialSYN flags" "length (flow_abs t) < maxPublishedFlows"
    | "initialSYN flags" "maxPublishedFlows \<le> length (flow_abs t)"
    by linarith
  then show ?thesis
  proof cases
    case 1
    then show ?thesis using ok by (simp add: flow_admit_def sp_admit_def)
  next
    case 2
    then show ?thesis
      using flow_push_ok [OF ok new, of now] len by (auto simp: flow_admit_def sp_admit_def flow_abs_def)
  next
    case 3
    then obtain el en rest where lru: "ft_lru t = (el, en) # rest"
      by (cases "ft_lru t") (auto simp: flow_abs_def maxPublishedFlows_def)
    obtain t' where t': "flow_remove el t = Some t'" "flows_ok t'" "flow_abs t' = sp_rest (fe_flow en) (flow_abs t)"
      using flow_remove_ok [OF ok, of el en] lru by auto
    have "fe_flow en \<notin> fe_flow ` set (map snd rest)"
      using ok lru by (simp add: flows_ok_def flow_abs_def image_image)
    then have tl: "flow_abs t' = tl (flow_abs t)"
      unfolding t'(3) using lru
      by (auto simp: flow_abs_def sp_rest_def filter_id_conv) (metis image_eqI snd_conv)
    then have "flow \<notin> fe_flow ` set (flow_abs t')"
      using new lru by (auto simp: flow_abs_def)
    moreover have "length (ft_lru t') < maxPublishedFlows"
    proof -
      have "length (ft_lru t') = length (flow_abs t')" by (simp add: flow_abs_def)
      also have "\<dots> < length (ft_lru t)" using tl lru by (simp add: flow_abs_def)
      finally show ?thesis using ok by (simp add: flows_ok_def)
    qed
    ultimately show ?thesis
      using flow_push_ok [OF t'(2), of flow now] 3 len tl t'(1)
      by (simp add: flow_admit_def sp_admit_def lru)
  qed
qed

lemma flow_observe_ok:
  assumes ok: "flows_ok t"
  shows "\<exists>t'. flow_observe flow flags now t = Some t' \<and> flows_ok t'
    \<and> flow_abs t' = sp_observe flow flags now (flow_abs t)"
proof (cases "map_of (ft_entries t) flow")
  case None
  then have find: "sp_find flow (flow_abs t) = None" using sp_find_abs [OF ok, of flow] by simp
  then have "flow \<notin> fe_flow ` set (flow_abs t)" by (auto simp: sp_find_def find_None_iff)
  then show ?thesis
    using flow_admit_ok [OF ok] None find by (simp add: flow_observe_def sp_observe_def)
next
  case (Some el)
  then obtain en where en: "map_of (ft_lru t) el = Some en" "fe_flow en = flow"
    using flows_ok_lookup [OF ok] by blast
  have find: "sp_find flow (flow_abs t) = Some en"
    using sp_find_abs [OF ok, of flow] Some en by simp
  obtain r where r: "flow_remove el t = Some r" "flows_ok r" "flow_abs r = sp_rest flow (flow_abs t)"
    using flow_remove_ok [OF ok en(1)] en(2) by blast
  have new: "flow \<notin> fe_flow ` set (flow_abs r)" by (auto simp: r(3) sp_rest_def)
  show ?thesis
  proof (cases "fe_expiry en \<le> now")
    case True
    then show ?thesis
      using flow_admit_ok [OF r(2) new] Some en find r
      by (simp add: flow_observe_def sp_observe_def not_less)
  next
    case False
    note run = flow_observe_def flow_refresh_def sp_observe_def not_less
    show ?thesis
      using False Some en find r ok flow_touch_ok [OF ok en(1), of now publishedFlowIdleTTL]
        flow_update_ok [OF ok en(1), of "\<lambda>en. en \<lparr> fe_state := publishedFlowPending \<rparr>" now publishedFlowPendingTTL]
        flow_update_ok [OF ok en(1), of "\<lambda>en. en \<lparr> fe_state := publishedFlowEstablished \<rparr>" now publishedFlowIdleTTL]
      by (cases "fe_state en") (simp_all add: run)
  qed
qed

lemma flow_match_ok:
  assumes ok: "flows_ok t"
  shows "\<exists>b t'. flow_match flow flags now t = Some (b, t') \<and> flows_ok t'
    \<and> (b, flow_abs t') = sp_match flow flags now (flow_abs t)"
proof (cases "map_of (ft_entries t) flow")
  case None
  then show ?thesis
    using sp_find_abs [OF ok, of flow] ok by (auto simp: flow_match_def sp_match_def)
next
  case (Some el)
  then obtain en where en: "map_of (ft_lru t) el = Some en" "fe_flow en = flow"
    using flows_ok_lookup [OF ok] by blast
  have find: "sp_find flow (flow_abs t) = Some en"
    using sp_find_abs [OF ok, of flow] Some en by simp
  obtain r where r: "flow_remove el t = Some r" "flows_ok r" "flow_abs r = sp_rest flow (flow_abs t)"
    using flow_remove_ok [OF ok en(1)] en(2) by blast
  show ?thesis
    using Some en find r ok by (simp add: flow_match_def sp_match_def not_less ex_bool_eq)
qed

lemma invalidate_ok:
  assumes ok: "flows_ok t"
  shows "\<exists>t'. invalidatePublishedReturnSYN pp t = Some t' \<and> flows_ok t' \<and>
    flow_abs t' = (case publishedFlowFromReturn pp of
        None \<Rightarrow> flow_abs t
      | Some (flow, flags) \<Rightarrow>
          if flags AND tcpSYN = 0 \<or> flags AND tcpACK \<noteq> 0 then flow_abs t else sp_rest flow (flow_abs t))"
proof (cases "publishedFlowFromReturn pp")
  case None
  then show ?thesis using ok by (simp add: invalidatePublishedReturnSYN_def)
next
  case (Some ff)
  obtain flow flags where ff: "ff = (flow, flags)" by (cases ff)
  show ?thesis
  proof (cases "map_of (ft_entries t) flow")
    case None
    then have "sp_find flow (flow_abs t) = None" using sp_find_abs [OF ok, of flow] by simp
    then have "sp_rest flow (flow_abs t) = flow_abs t"
      by (auto simp: sp_find_def find_None_iff sp_rest_def filter_id_conv)
    then show ?thesis using None Some ff ok by (simp add: invalidatePublishedReturnSYN_def)
  next
    case (Some el)
    then obtain en where en: "map_of (ft_lru t) el = Some en" "fe_flow en = flow"
      using flows_ok_lookup [OF ok] by blast
    then show ?thesis
      using flow_remove_ok [OF ok en(1)] Some ff ok \<open>publishedFlowFromReturn pp = Some ff\<close>
      by (simp add: invalidatePublishedReturnSYN_def)
  qed
qed

lemma newPublishedFlowTable_ok [simp]: "flows_ok newPublishedFlowTable" "flow_abs newPublishedFlowTable = []"
  by (simp_all add: flows_ok_def newPublishedFlowTable_def flow_abs_def)

end
