(* ===== verification/Go_Text.thy ===== *)
theory Go_Text
  imports Gantry_Prelude
begin

text \<open>
  The parts of Go's \<open>strings\<close>, \<open>strconv\<close> and \<open>net\<close> packages the sources use, on strings of
  ASCII bytes: case folding, trimming, splitting and joining, unsigned decimal numbers, and
  IPv4/IPv6 networks as the byte slices Go keeps.  Case folding and white space of characters
  outside ASCII are not modelled.
\<close>

unbundle bit_operations_syntax

section \<open>Strings\<close>

definition lower_char :: "char \<Rightarrow> char" where
  "lower_char c = (let n = of_char c :: nat in if 65 \<le> n \<and> n \<le> 90 then char_of (n + 32) else c)"

definition ToLower :: "string \<Rightarrow> string" where
  "ToLower s = map lower_char s"

definition HasPrefix :: "string \<Rightarrow> string \<Rightarrow> bool" where
  "HasPrefix s p \<longleftrightarrow> take (length p) s = p"

definition HasSuffix :: "string \<Rightarrow> string \<Rightarrow> bool" where
  "HasSuffix s suf \<longleftrightarrow> length suf \<le> length s \<and> drop (length s - length suf) s = suf"

definition TrimPrefix :: "string \<Rightarrow> string \<Rightarrow> string" where
  "TrimPrefix s p = (if HasPrefix s p then drop (length p) s else s)"

definition TrimSuffix :: "string \<Rightarrow> string \<Rightarrow> string" where
  "TrimSuffix s suf = (if HasSuffix s suf then take (length s - length suf) s else s)"

definition is_space :: "char \<Rightarrow> bool" where
  "is_space c = (let n = of_char c :: nat in n = 32 \<or> (9 \<le> n \<and> n \<le> 13))"

definition TrimSpace :: "string \<Rightarrow> string" where
  "TrimSpace s = rev (dropWhile is_space (rev (dropWhile is_space s)))"

text \<open>\<open>strings.Split\<close> at a one-byte separator and \<open>strings.Join\<close>.\<close>

fun Split :: "char \<Rightarrow> string \<Rightarrow> string list" where
  "Split sep [] = [[]]"
| "Split sep (c # cs) =
    (if c = sep then [] # Split sep cs
     else (case Split sep cs of [] \<Rightarrow> [[c]] | w # ws \<Rightarrow> (c # w) # ws))"

fun Join :: "char \<Rightarrow> string list \<Rightarrow> string" where
  "Join sep [] = []"
| "Join sep [w] = w"
| "Join sep (w # v # ws) = w @ sep # Join sep (v # ws)"

definition is_digit :: "char \<Rightarrow> bool" where
  "is_digit c = (let n = of_char c :: nat in 48 \<le> n \<and> n \<le> 57)"

definition digit_val :: "char \<Rightarrow> nat" where
  "digit_val c = of_char c - 48"

definition dec_value :: "string \<Rightarrow> nat" where
  "dec_value s = foldl (\<lambda>n c. n * 10 + digit_val c) 0 s"

text \<open>\<open>strconv.ParseUint(s, 10, 16)\<close>.\<close>

definition ParseUint16 :: "string \<Rightarrow> u16 option" where
  "ParseUint16 s =
    (if s = [] \<or> \<not> list_all is_digit s \<or> 65535 < dec_value s then None
     else Some (of_nat (dec_value s)))"

text \<open>\<open>strconv.Itoa\<close> of a natural number.\<close>

fun Itoa :: "nat \<Rightarrow> string" where
  "Itoa n = (if n < 10 then [char_of (48 + n)] else Itoa (n div 10) @ [char_of (48 + n mod 10)])"

declare Itoa.simps [simp del]

section \<open>Networks\<close>

record IPNet =
  net_IP :: bytes
  net_Mask :: bytes

definition To4 :: "bytes \<Rightarrow> bytes option" where
  "To4 ip =
    (if length ip = 4 then Some ip
     else if length ip = 16 \<and> take 12 ip = replicate 10 0 @ [0xff, 0xff] then Some (drop 12 ip)
     else None)"

definition networkNumberAndMask :: "IPNet \<Rightarrow> (bytes \<times> bytes) option" where
  "networkNumberAndMask n =
    (let ip = (case To4 (net_IP n) of Some x \<Rightarrow> x | None \<Rightarrow> net_IP n); m = net_Mask n in
     if length ip \<noteq> 4 \<and> length ip \<noteq> 16 then None
     else if length m = 4 then (if length ip \<noteq> 4 then None else Some (ip, m))
     else if length m = 16 then Some (ip, if length ip = 4 then drop 12 m else m)
     else None)"

definition Contains :: "IPNet \<Rightarrow> bytes \<Rightarrow> bool" where
  "Contains n ip =
    (case networkNumberAndMask n of
       None \<Rightarrow> ip = []
     | Some (nn, m) \<Rightarrow>
         (let ip = (case To4 ip of Some x \<Rightarrow> x | None \<Rightarrow> ip) in
          length ip = length nn \<and>
          list_all (\<lambda>(a, b, k). a AND k = b AND k) (zip nn (zip ip m))))"

text \<open>\<open>net.CIDRMask\<close> of a whole number of bytes, and \<open>net.ParseCIDR\<close> of an IPv4 network.\<close>

fun CIDRMask :: "nat \<Rightarrow> nat \<Rightarrow> bytes" where
  "CIDRMask ones 0 = []"
| "CIDRMask ones (Suc n) =
    (if 8 \<le> ones then 0xff # CIDRMask (ones - 8) n
     else NOT (drop_bit ones 0xff) # CIDRMask 0 n)"

definition CIDR4 :: "bytes \<Rightarrow> nat \<Rightarrow> IPNet" where
  "CIDR4 ip ones = \<lparr> net_IP = map2 (AND) ip (CIDRMask ones 4), net_Mask = CIDRMask ones 4 \<rparr>"

section \<open>Laws\<close>

lemma of_char_char_of_nat: "n < 256 \<Longrightarrow> of_char (char_of n :: char) = (n :: nat)"
  by (simp add: of_char_mod_256 of_char_of)

lemma is_digit_char_of [simp]: "d < 10 \<Longrightarrow> is_digit (char_of (48 + d :: nat))"
  by (simp add: is_digit_def of_char_char_of_nat Let_def)

lemma digit_val_char_of [simp]: "d < 10 \<Longrightarrow> digit_val (char_of (48 + d :: nat)) = d"
  by (simp add: digit_val_def of_char_char_of_nat)

lemma Itoa_digits: "list_all is_digit (Itoa n)"
proof (induction n rule: Itoa.induct)
  case (1 n)
  then show ?case by (subst Itoa.simps) (auto simp del: of_nat_add)
qed

lemma Itoa_nonempty [simp]: "Itoa n \<noteq> []"
  by (subst Itoa.simps) simp

lemma dec_value_Itoa [simp]: "dec_value (Itoa n) = n"
proof (induction n rule: Itoa.induct)
  case (1 n)
  show ?case
  proof (cases "n < 10")
    case True
    then show ?thesis by (subst Itoa.simps) (simp add: dec_value_def)
  next
    case False
    have "dec_value (Itoa n) = dec_value (Itoa (n div 10)) * 10 + n mod 10"
      using False by (subst Itoa.simps) (simp add: dec_value_def)
    then show ?thesis using 1 False by simp
  qed
qed

lemma ParseUint16_Itoa [simp]: "ParseUint16 (Itoa (unat w)) = Some w"
  using Itoa_digits [of "unat w"] unat_less_2p [of w]
  by (simp add: ParseUint16_def)

lemma Split_nonempty [simp]: "Split sep s \<noteq> []"
  by (induction sep s rule: Split.induct) (auto split: list.splits)

lemma Split_plain: "sep \<notin> set w \<Longrightarrow> Split sep w = [w]"
  by (induction w) auto

lemma Split_append: "sep \<notin> set w \<Longrightarrow> Split sep (w @ sep # s) = w # Split sep s"
  by (induction w) auto

lemma Split_Join: "ws \<noteq> [] \<Longrightarrow> (\<forall>w \<in> set ws. sep \<notin> set w) \<Longrightarrow> Split sep (Join sep ws) = ws"
  by (induction sep ws rule: Join.induct) (auto simp: Split_plain Split_append)

lemma HasSuffix_iff: "HasSuffix s suf \<longleftrightarrow> (\<exists>pre. s = pre @ suf)"
proof
  assume h: "HasSuffix s suf"
  have "s = take (length s - length suf) s @ drop (length s - length suf) s" by simp
  then show "\<exists>pre. s = pre @ suf" using h by (metis HasSuffix_def)
qed (auto simp: HasSuffix_def)

lemma HasPrefix_iff: "HasPrefix s p \<longleftrightarrow> (\<exists>suf. s = p @ suf)"
  unfolding HasPrefix_def by (metis append_eq_conv_conj append_take_drop_id)

lemma TrimSpace_id:
  assumes "w \<noteq> []" "\<not> is_space (hd w)" "\<not> is_space (last w)"
  shows "TrimSpace w = w"
  using assms dropWhile_eq_self_iff [of is_space w] dropWhile_eq_self_iff [of is_space "rev w"]
  by (simp add: TrimSpace_def hd_rev)

lemma lower_char_idem [simp]: "lower_char (lower_char c) = lower_char c"
proof -
  have "(of_char c :: nat) < 256" by simp
  then show ?thesis by (auto simp: lower_char_def Let_def of_char_char_of_nat)
qed

lemma ToLower_idem [simp]: "ToLower (ToLower s) = ToLower s"
  by (simp add: ToLower_def)

lemma length_CIDRMask [simp]: "length (CIDRMask k n) = n"
  by (induction k n rule: CIDRMask.induct) auto

end
