(* ===== verification/Netpol_Policy.thy ===== *)
theory Netpol_Policy
  imports Netpol_Flows Go_Text
begin

text \<open>
  The decisions of the egress policy (\<open>internal/netpol/policy.go\<close>, \<open>guard.go\<close>): the rule list,
  the local-network wall, the organization guard, the domain filter, DNS-learned allowances,
  and the two entry points a frame goes through, \<open>MatchTX\<close> and \<open>ObserveRX\<close>.  Policies and flow
  tables live in a store, because a replacement policy shares its predecessor's flow table and
  every entry point follows the \<open>active\<close> pointer.  A table that is allocated on first use is
  allocated when the entry point is entered, which no later step can observe.  One instant \<open>now\<close> stands for the clock readings
  of one call.  Unpacking a DNS message belongs to a third-party package and is a parameter.
\<close>

unbundle bit_operations_syntax

section \<open>Rules and guards\<close>

record PortRange =
  pr_Lo :: u16
  pr_Hi :: u16

record Rule =
  Deny :: bool
  CIDR :: "IPNet option"
  Proto :: u8
  Ports :: "PortRange list"

record GuardRule =
  gr_ID :: string
  gr_Effect :: string
  gr_CIDR :: string
  gr_Protocol :: string
  gr_Ports :: "u16 list"

record GuardSpec =
  gs_Organization :: string
  gs_Revision :: string
  gs_ExpiresAt :: Time
  gs_Rules :: "GuardRule list"
  gs_DNS :: "string list"

record networkGuard =
  g_spec :: GuardSpec
  g_rules :: "Rule list"

record Policy =
  p_guard :: "networkGuard option"
  DefaultAllow :: bool
  Rules :: "Rule list"
  AllowDomains :: "string list"
  ResolveDomains :: "string list"
  AllowLocal :: bool
  hasPortScopedDeny :: bool
  p_dynamic :: "(ip4 \<times> Time) list"
  p_publishedFlows :: "nat option"
  p_active :: "nat option"

definition localCIDRs :: "IPNet list" where
  "localCIDRs =
    [CIDR4 [10, 0, 0, 0] 8, CIDR4 [172, 16, 0, 0] 12, CIDR4 [192, 168, 0, 0] 16,
     CIDR4 [169, 254, 0, 0] 16, CIDR4 [127, 0, 0, 0] 8, CIDR4 [100, 64, 0, 0] 10,
     CIDR4 [224, 0, 0, 0] 4, CIDR4 [240, 0, 0, 0] 4, CIDR4 [0, 0, 0, 0] 8]"

definition isLocal :: "ip4 \<Rightarrow> bool" where
  "isLocal dst = list_ex (\<lambda>c. Contains c (ip4_bytes dst)) localCIDRs"

definition IsLocalIP :: "bytes \<Rightarrow> bool" where
  "IsLocalIP ip = (case To4 ip of None \<Rightarrow> False | Some v4 \<Rightarrow> isLocal (ip4_of v4))"

text \<open>Whether one rule of the list speaks about a destination; the loop body's three tests.\<close>

definition rule_matches :: "Rule \<Rightarrow> ip4 \<Rightarrow> u8 \<Rightarrow> u16 \<Rightarrow> bool" where
  "rule_matches r dst proto dport =
    ((case CIDR r of None \<Rightarrow> True | Some c \<Rightarrow> Contains c (ip4_bytes dst)) \<and>
     (Proto r = 0 \<or> Proto r = proto) \<and>
     (Ports r = [] \<or> list_ex (\<lambda>pr. pr_Lo pr \<le> dport \<and> dport \<le> pr_Hi pr) (Ports r)))"

text \<open>The first matching rule decides; \<open>None\<close> when no rule matches.\<close>

fun explicitRuleVerdict :: "Rule list \<Rightarrow> ip4 \<Rightarrow> u8 \<Rightarrow> u16 \<Rightarrow> bool option" where
  "explicitRuleVerdict [] dst proto dport = None"
| "explicitRuleVerdict (r # rs) dst proto dport =
    (if rule_matches r dst proto dport then Some (\<not> Deny r)
     else explicitRuleVerdict rs dst proto dport)"

definition guard_valid :: "networkGuard option \<Rightarrow> Time \<Rightarrow> bool" where
  "guard_valid g now = (case g of None \<Rightarrow> True | Some g \<Rightarrow> now < gs_ExpiresAt (g_spec g))"

definition guard_rule_matches :: "Rule \<Rightarrow> ip4 \<Rightarrow> u8 \<Rightarrow> u16 \<Rightarrow> bool" where
  "guard_rule_matches r dst proto port =
    ((case CIDR r of None \<Rightarrow> False | Some c \<Rightarrow> Contains c (ip4_bytes dst)) \<and>
     (Proto r = 0 \<or> Proto r = proto) \<and>
     (Ports r = [] \<or> list_ex (\<lambda>pr. pr_Lo pr = port) (Ports r)))"

fun guard_loop :: "Rule list \<Rightarrow> ip4 \<Rightarrow> u8 \<Rightarrow> u16 \<Rightarrow> bool \<Rightarrow> bool" where
  "guard_loop [] dst proto port allowed = allowed"
| "guard_loop (r # rs) dst proto port allowed =
    (if \<not> guard_rule_matches r dst proto port then guard_loop rs dst proto port allowed
     else if Deny r then False
     else guard_loop rs dst proto port True)"

definition guard_allows :: "networkGuard option \<Rightarrow> Time \<Rightarrow> ip4 \<Rightarrow> u8 \<Rightarrow> u16 \<Rightarrow> bool" where
  "guard_allows g now dst proto port =
    (case g of
       None \<Rightarrow> True
     | Some gd \<Rightarrow> if \<not> guard_valid g now then False
                  else guard_loop (g_rules gd) dst proto port False)"

section \<open>Domains\<close>

fun domain_loop :: "string list \<Rightarrow> string \<Rightarrow> bool" where
  "domain_loop [] name = False"
| "domain_loop (d # ds) name =
    (if HasPrefix d ''*.''
     then (let suf = drop 2 d in
           if name = suf \<or> HasSuffix name (''.'' @ suf) then True else domain_loop ds name)
     else if name = d then True
     else domain_loop ds name)"

definition domainMatches :: "string list \<Rightarrow> string \<Rightarrow> bool" where
  "domainMatches domains name = domain_loop domains (ToLower (TrimSuffix name ''.''))"

definition guard_domainAllowed :: "networkGuard option \<Rightarrow> Time \<Rightarrow> string \<Rightarrow> bool" where
  "guard_domainAllowed g now name =
    (case g of
       None \<Rightarrow> True
     | Some gd \<Rightarrow>
         if \<not> guard_valid g now then False
         else if ''*'' \<in> set (gs_DNS (g_spec gd)) then True
         else domainMatches (gs_DNS (g_spec gd)) name)"

definition domainAllowed :: "Policy \<Rightarrow> string \<Rightarrow> bool" where
  "domainAllowed p name = domainMatches (AllowDomains p) name"

definition DomainAllowed :: "Policy \<Rightarrow> Time \<Rightarrow> string \<Rightarrow> bool" where
  "DomainAllowed p now name =
    (if \<not> guard_domainAllowed (p_guard p) now name then False
     else if AllowDomains p = [] then True
     else domainAllowed p name)"

definition dnsDomainAllowed :: "Policy \<Rightarrow> Time \<Rightarrow> string \<Rightarrow> bool" where
  "dnsDomainAllowed p now name =
    (((AllowDomains p = [] \<and> ResolveDomains p = [])
      \<or> domainMatches (AllowDomains p) name \<or> domainMatches (ResolveDomains p) name)
     \<and> guard_domainAllowed (p_guard p) now name)"

definition dnsFilterActive :: "Policy \<Rightarrow> bool" where
  "dnsFilterActive p \<longleftrightarrow> p_guard p \<noteq> None \<or> AllowDomains p \<noteq> [] \<or> ResolveDomains p \<noteq> []"

datatype dnsRR = RR_A bytes u32 | RR_other

record dnsMsg =
  Response :: bool
  Question :: "string list"
  Answer :: "dnsRR list"

type_synonym unpack = "bytes \<Rightarrow> dnsMsg option"

definition dnsQueryAllowed :: "unpack \<Rightarrow> Policy \<Rightarrow> Time \<Rightarrow> parsedPacket \<Rightarrow> bool" where
  "dnsQueryAllowed Unpack p now pp =
    (case dnsPayload pp of
       (payload, hasData) \<Rightarrow>
         if \<not> hasData then True
         else (case payload of
             None \<Rightarrow> False
           | Some bs \<Rightarrow>
               if pp_proto pp = protoTCP
                  \<and> unat (BEUint16 (take 2 (drop (tcp_off pp) (pp_l4 pp)))) \<noteq> length bs then False
               else (case Unpack bs of
                   None \<Rightarrow> False
                 | Some msg \<Rightarrow>
                     if Response msg \<or> Question msg = [] then False
                     else list_all (dnsDomainAllowed p now) (Question msg))))"

definition matchGatewayDNS :: "unpack \<Rightarrow> Policy \<Rightarrow> Time \<Rightarrow> parsedPacket \<Rightarrow> bool" where
  "matchGatewayDNS Unpack p now pp =
    (if pp_fragmented pp \<and> dnsFilterActive p \<and> (pp_proto pp = protoUDP \<or> pp_proto pp = protoTCP)
     then False
     else if dnsFilterActive p then dnsQueryAllowed Unpack p now pp
     else True)"

section \<open>The verdict on a destination\<close>

definition Allows :: "Policy \<Rightarrow> Time \<Rightarrow> ip4 \<Rightarrow> u8 \<Rightarrow> u16 \<Rightarrow> bool \<times> Policy" where
  "Allows p now dst proto dport =
    (if \<not> guard_allows (p_guard p) now dst proto dport then (False, p)
     else case explicitRuleVerdict (Rules p) dst proto dport of
       Some allowed \<Rightarrow> (allowed, p)
     | None \<Rightarrow>
         if \<not> AllowLocal p \<and> isLocal dst then (False, p)
         else (case map_of (p_dynamic p) dst of
             Some exp \<Rightarrow>
               if now < exp then (True, p)
               else (DefaultAllow p, p \<lparr> p_dynamic := AList.delete dst (p_dynamic p) \<rparr>)
           | None \<Rightarrow> (DefaultAllow p, p)))"

text \<open>The gateway part of \<open>MatchTX\<close>, after the DHCP and broadcast cases.\<close>

definition match_gateway ::
  "unpack \<Rightarrow> Time \<Rightarrow> parsedPacket \<Rightarrow> Policy \<Rightarrow> publishedFlowTable
    \<Rightarrow> (bool \<times> Policy \<times> publishedFlowTable) option"
where
  "match_gateway Unpack now pp p t =
    (if pp_proto pp = protoTCP \<and> \<not> tcpTupleValid pp then Some (False, p, t)
     else case invalidatePublishedReturnSYN pp t of
       None \<Rightarrow> None
     | Some t1 \<Rightarrow>
         if (pp_proto pp = protoUDP \<or> pp_proto pp = protoTCP) \<and> pp_dport pp = 53
         then Some (matchGatewayDNS Unpack p now pp, p, t1)
         else (case explicitRuleVerdict (Rules p) (pp_dst pp) (pp_proto pp) (pp_dport pp) of
             Some allowed \<Rightarrow>
               Some (allowed \<and> guard_allows (p_guard p) now (pp_dst pp) (pp_proto pp) (pp_dport pp), p, t1)
           | None \<Rightarrow>
               (case Allows p now (pp_dst pp) (pp_proto pp) (pp_dport pp) of
                  (True, p1) \<Rightarrow> Some (True, p1, t1)
                | (False, p1) \<Rightarrow>
                    map_option (\<lambda>(b, t2). (b, p1, t2)) (matchPublishedReturn pp now t1))))"

definition is_broadcast :: "ip4 \<Rightarrow> bool" where
  "is_broadcast dst \<longleftrightarrow> dst = IP4 255 255 255 255 \<or> dst = subnetBroadcast"

definition dhcp_request :: "parsedPacket \<Rightarrow> bool" where
  "dhcp_request pp \<longleftrightarrow> pp_proto pp = protoUDP \<and> pp_sport pp = 68 \<and> pp_dport pp = 67"

definition match_tx ::
  "unpack \<Rightarrow> Time \<Rightarrow> bytes \<Rightarrow> Policy \<Rightarrow> publishedFlowTable
    \<Rightarrow> (bool \<times> Policy \<times> publishedFlowTable) option"
where
  "match_tx Unpack now frame p t =
    (case parseFrame frame of (pp, arp, ok) \<Rightarrow>
       if \<not> guard_valid (p_guard p) now \<or> p_guard p \<noteq> None \<and> pp_fragmented pp then Some (False, p, t)
       else if arp then Some (True, p, t)
       else if \<not> ok then Some (False, p, t)
       else
         let isGateway = pp_dst pp = gatewayIPv4;
             isBroadcast = is_broadcast (pp_dst pp);
             zeroSourceDHCP = pp_src pp = IP4 0 0 0 0 \<and> dhcp_request pp \<and> (isGateway \<or> isBroadcast)
         in if pp_src pp \<noteq> guestIPv4 \<and> \<not> zeroSourceDHCP then Some (False, p, t)
            else if pp_fragmented pp \<and> pp_sport pp = 0 \<and> pp_dport pp = 0
                    \<and> DefaultAllow p \<and> hasPortScopedDeny p then Some (False, p, t)
            else if isGateway \<or> isBroadcast then
              (if dhcp_request pp then Some (True, p, t)
               else if isBroadcast then Some (False, p, t)
               else match_gateway Unpack now pp p t)
            else (case Allows p now (pp_dst pp) (pp_proto pp) (pp_dport pp) of
                    (b, p1) \<Rightarrow> Some (b, p1, t)))"

section \<open>Learning from ingress\<close>

definition dnsMaxTTL :: Time where "dnsMaxTTL = 5 * 60 * Second"
definition maxDynamic :: nat where "maxDynamic = 4096"

definition answer_ttl :: "u32 \<Rightarrow> Time" where
  "answer_ttl secs =
    (let ttl = int (unat secs) * Second;
         ttl = (if dnsMaxTTL < ttl then dnsMaxTTL else ttl)
     in if ttl = 0 then 60 * Second else ttl)"

fun learn :: "Time \<Rightarrow> dnsRR list \<Rightarrow> (ip4 \<times> Time) list \<Rightarrow> (ip4 \<times> Time) list" where
  "learn now [] dyn = dyn"
| "learn now (RR_other # rrs) dyn = learn now rrs dyn"
| "learn now (RR_A ip secs # rrs) dyn =
    (case To4 ip of
       None \<Rightarrow> learn now rrs dyn
     | Some v4 \<Rightarrow>
         learn now rrs (if length dyn < maxDynamic
                        then AList.update (ip4_of v4) (now + answer_ttl secs) dyn else dyn))"

definition snoop_dns :: "unpack \<Rightarrow> Time \<Rightarrow> parsedPacket \<Rightarrow> Policy \<Rightarrow> Policy" where
  "snoop_dns Unpack now pp p =
    (if AllowDomains p = [] \<or> \<not> pp_srcIsDNS pp \<or> pp_src pp \<noteq> gatewayIPv4 \<or> pp_dst pp \<noteq> guestIPv4 then p
     else case fst (dnsPayload pp) of
       None \<Rightarrow> p
     | Some bs \<Rightarrow>
         (case Unpack bs of
            None \<Rightarrow> p
          | Some msg \<Rightarrow>
              if \<not> Response msg then p
              else if \<not> list_ex (domainAllowed p) (Question msg) then p
              else p \<lparr> p_dynamic := learn now (Answer msg) (p_dynamic p) \<rparr>))"

definition observe_rx ::
  "unpack \<Rightarrow> Time \<Rightarrow> bytes \<Rightarrow> Policy \<Rightarrow> publishedFlowTable \<Rightarrow> (Policy \<times> publishedFlowTable) option"
where
  "observe_rx Unpack now frame p t =
    (case parseFrame frame of (pp, arp, ok) \<Rightarrow>
       if \<not> ok then Some (p, t)
       else map_option (\<lambda>t1. (snoop_dns Unpack now pp p, t1)) (observePublishedIngress pp now t))"

section \<open>Policies in the store\<close>

record NetStore =
  ns_policy :: "nat \<Rightarrow> Policy"
  ns_table :: "nat \<Rightarrow> publishedFlowTable"
  ns_fresh :: nat

definition current :: "NetStore \<Rightarrow> nat \<Rightarrow> nat" where
  "current s p = (case p_active (ns_policy s p) of Some c \<Rightarrow> c | None \<Rightarrow> p)"

text \<open>Every entry point first hands over to the current generation, as often as it takes.\<close>

partial_function (option) resolve :: "NetStore \<Rightarrow> nat \<Rightarrow> nat option" where
  "resolve s p = (if current s p \<noteq> p then resolve s (current s p) else Some p)"

definition policy_table :: "NetStore \<Rightarrow> nat \<Rightarrow> NetStore \<times> nat" where
  "policy_table s p =
    (case p_publishedFlows (ns_policy s p) of
       Some r \<Rightarrow> (s, r)
     | None \<Rightarrow>
         (s \<lparr> ns_policy := (ns_policy s)(p := ns_policy s p \<lparr> p_publishedFlows := Some (ns_fresh s) \<rparr>),
              ns_table := (ns_table s)(ns_fresh s := newPublishedFlowTable),
              ns_fresh := Suc (ns_fresh s) \<rparr>, ns_fresh s))"

definition InheritGuard :: "NetStore \<Rightarrow> nat option \<Rightarrow> nat option \<Rightarrow> NetStore" where
  "InheritGuard s nxt cur =
    (case (nxt, cur) of
       (Some n, Some c) \<Rightarrow>
         (case p_guard (ns_policy s (current s c)) of
            None \<Rightarrow> s
          | Some g \<Rightarrow> s \<lparr> ns_policy := (ns_policy s)(n := ns_policy s n \<lparr> p_guard := Some g \<rparr>) \<rparr>)
     | _ \<Rightarrow> s)"

definition policy_replace :: "bool \<Rightarrow> NetStore \<Rightarrow> nat option \<Rightarrow> nat option \<Rightarrow> NetStore option" where
  "policy_replace inheritGuard s p nxt =
    (case (p, nxt) of
       (Some p, Some nxt) \<Rightarrow>
         let cur = current s p;
             rep = current s nxt;
             s1 = (if inheritGuard then InheritGuard s (Some rep) (Some cur) else s)
         in case policy_table s1 cur of
           (s2, r) \<Rightarrow>
             let s3 = s2 \<lparr> ns_policy := (ns_policy s2)(rep := ns_policy s2 rep \<lparr> p_publishedFlows := Some r \<rparr>) \<rparr>
             in Some (s3 \<lparr> ns_policy := (ns_policy s3)(p := ns_policy s3 p \<lparr> p_active := Some rep \<rparr>) \<rparr>)
     | _ \<Rightarrow> None)"

definition Replace :: "NetStore \<Rightarrow> nat option \<Rightarrow> nat option \<Rightarrow> NetStore option" where
  "Replace = policy_replace True"

definition ReplaceExact :: "NetStore \<Rightarrow> nat option \<Rightarrow> nat option \<Rightarrow> NetStore option" where
  "ReplaceExact = policy_replace False"

definition put_back :: "NetStore \<Rightarrow> nat \<Rightarrow> Policy \<Rightarrow> nat \<Rightarrow> publishedFlowTable \<Rightarrow> NetStore" where
  "put_back s q pol r t = s \<lparr> ns_policy := (ns_policy s)(q := pol), ns_table := (ns_table s)(r := t) \<rparr>"

definition MatchTX :: "unpack \<Rightarrow> Time \<Rightarrow> bytes \<Rightarrow> NetStore \<Rightarrow> nat \<Rightarrow> (bool \<times> NetStore) option" where
  "MatchTX Unpack now frame s p =
    Option.bind (resolve s p) (\<lambda>q.
      case policy_table s q of (s1, r) \<Rightarrow>
        map_option (\<lambda>(b, pol, t). (b, put_back s1 q pol r t))
          (match_tx Unpack now frame (ns_policy s1 q) (ns_table s1 r)))"

definition ObserveRX :: "unpack \<Rightarrow> Time \<Rightarrow> bytes \<Rightarrow> NetStore \<Rightarrow> nat \<Rightarrow> NetStore option" where
  "ObserveRX Unpack now frame s p =
    Option.bind (resolve s p) (\<lambda>q.
      case policy_table s q of (s1, r) \<Rightarrow>
        map_option (\<lambda>(pol, t). put_back s1 q pol r t)
          (observe_rx Unpack now frame (ns_policy s1 q) (ns_table s1 r)))"

section \<open>Questions about a policy\<close>

definition MayAllowLoopback :: "Policy \<Rightarrow> bool" where
  "MayAllowLoopback p =
    (AllowLocal p \<or>
     list_ex (\<lambda>r. \<not> Deny r \<and> (case CIDR r of None \<Rightarrow> True | Some c \<Rightarrow> Contains c [127, 0, 0, 1])) (Rules p))"

definition GatewayUDPFirstReplyPort :: nat where "GatewayUDPFirstReplyPort = 16000"
definition GatewayUDPLastReplyPort :: nat where "GatewayUDPLastReplyPort = 65535"

definition reply_port_allowed :: "Policy \<Rightarrow> Time \<Rightarrow> u16 \<Rightarrow> bool" where
  "reply_port_allowed p now port =
    (if \<not> guard_allows (p_guard p) now gatewayIPv4 protoUDP port then False
     else case explicitRuleVerdict (Rules p) gatewayIPv4 protoUDP port of
       Some allowed \<Rightarrow> allowed
     | None \<Rightarrow> AllowLocal p \<and> DefaultAllow p)"

definition AllowsGatewayUDPReplies :: "Policy \<Rightarrow> Time \<Rightarrow> bool" where
  "AllowsGatewayUDPReplies p now =
    list_all (\<lambda>port. reply_port_allowed p now (of_nat port))
      [GatewayUDPFirstReplyPort ..< Suc GatewayUDPLastReplyPort]"

definition ValidateUDPPortPublishing :: "Policy option \<Rightarrow> Time \<Rightarrow> bool" where
  "ValidateUDPPortPublishing p now =
    (case p of None \<Rightarrow> False | Some p \<Rightarrow> AllowsGatewayUDPReplies p now)"

text \<open>Allocating a policy together with the flow table its constructor stores in it.\<close>

definition new_policy :: "Policy \<Rightarrow> NetStore \<Rightarrow> NetStore \<times> nat" where
  "new_policy pol s =
    (s \<lparr> ns_policy := (ns_policy s)(ns_fresh s := pol \<lparr> p_publishedFlows := Some (ns_fresh s), p_active := None \<rparr>),
         ns_table := (ns_table s)(ns_fresh s := newPublishedFlowTable),
         ns_fresh := Suc (ns_fresh s) \<rparr>, ns_fresh s)"

definition zero_policy :: Policy where
  "zero_policy = \<lparr> p_guard = None, DefaultAllow = False, Rules = [], AllowDomains = [],
     ResolveDomains = [], AllowLocal = False, hasPortScopedDeny = False, p_dynamic = [],
     p_publishedFlows = None, p_active = None \<rparr>"

definition DefaultPolicy :: "NetStore \<Rightarrow> NetStore \<times> nat" where
  "DefaultPolicy = new_policy (zero_policy \<lparr> DefaultAllow := True \<rparr>)"

end
