(* ===== verification/Go_Netip.thy ===== *)
theory Go_Netip
  imports Go_Text
begin

text \<open>
  Textual IP networks, as Go's \<open>net\<close> and \<open>net/netip\<close> packages read and print them:
  \<open>net.ParseCIDR\<close> for IPv4 and IPv6 addresses without zones, \<open>IPNet.String\<close>, and the IPv4 part of
  \<open>netip.ParsePrefix\<close>.  An IPv4 network survives printing and parsing.
\<close>

unbundle bit_operations_syntax

section \<open>Parsing\<close>

definition octet :: "string \<Rightarrow> byte option" where
  "octet w = (if w \<noteq> [] \<and> list_all is_digit w \<and> (length w = 1 \<or> hd w \<noteq> CHR ''0'') \<and> dec_value w \<le> 255
              then Some (of_nat (dec_value w)) else None)"

definition parseIPv4 :: "string \<Rightarrow> bytes option" where
  "parseIPv4 s = (case map octet (Split CHR ''.'' s) of
      [Some a, Some b, Some c, Some d] \<Rightarrow> Some [a, b, c, d]
    | _ \<Rightarrow> None)"

definition hex_val :: "char \<Rightarrow> nat option" where
  "hex_val c = (let n = of_char c :: nat in
     if 48 \<le> n \<and> n \<le> 57 then Some (n - 48)
     else if 97 \<le> n \<and> n \<le> 102 then Some (n - 97 + 10)
     else if 65 \<le> n \<and> n \<le> 70 then Some (n - 65 + 10)
     else None)"

definition is_hex :: "char \<Rightarrow> bool" where
  "is_hex c \<longleftrightarrow> hex_val c \<noteq> None"

definition hex_group :: "string \<Rightarrow> nat" where
  "hex_group w = foldl (\<lambda>n c. n * 16 + the (hex_val c)) 0 w"

text \<open>
  One round of the loop over colon-separated groups, on the unread text, the bytes so far and where
  \<open>::\<close> stood; the flag says whether the loop goes on.  A round adds at least two bytes and the loop ends
  at sixteen, so eight rounds are enough.
\<close>

definition ip6_next ::
  "string \<Rightarrow> bytes \<Rightarrow> nat option \<Rightarrow> (bool \<times> string \<times> bytes \<times> nat option) option"
where
  "ip6_next rest ip el =
    (if rest = [] then Some (False, [], ip, el)
     else if hd rest \<noteq> CHR '':'' \<or> tl rest = [] then None
     else if hd (tl rest) \<noteq> CHR '':'' then Some (True, tl rest, ip, el)
     else if el \<noteq> None then None
     else Some (tl (tl rest) \<noteq> [], tl (tl rest), ip, Some (length ip)))"

definition ip6_group ::
  "string \<Rightarrow> bytes \<Rightarrow> nat option \<Rightarrow> (bool \<times> string \<times> bytes \<times> nat option) option"
where
  "ip6_group s ip el =
    (let digs = takeWhile is_hex s; rest = dropWhile is_hex s; v = hex_group digs in
     if 4 < length digs \<or> digs = [] then None
     else if rest \<noteq> [] \<and> hd rest = CHR ''.'' then
       (if el = None \<and> length ip \<noteq> 12 \<or> 16 < length ip + 4 then None
        else map_option (\<lambda>v4. (False, [], ip @ v4, el)) (parseIPv4 s))
     else ip6_next rest (ip @ [of_nat (v div 256), of_nat v]) el)"

primrec ip6_loop :: "nat \<Rightarrow> string \<Rightarrow> bytes \<Rightarrow> nat option \<Rightarrow> (string \<times> bytes \<times> nat option) option" where
  "ip6_loop 0 s ip el = Some (s, ip, el)"
| "ip6_loop (Suc n) s ip el =
    (if 16 \<le> length ip then Some (s, ip, el)
     else Option.bind (ip6_group s ip el)
       (\<lambda>(more, s1, ip1, el1). if more then ip6_loop n s1 ip1 el1 else Some (s1, ip1, el1)))"

definition parseIPv6 :: "string \<Rightarrow> bytes option" where
  "parseIPv6 s =
    (let lead = HasPrefix s ''::''; s1 = (if lead then drop 2 s else s); el = (if lead then Some 0 else None) in
     if CHR ''%'' \<in> set s then None
     else if lead \<and> s1 = [] then Some (replicate 16 0)
     else case ip6_loop 8 s1 [] el of
       None \<Rightarrow> None
     | Some (s2, ip, el) \<Rightarrow>
         if s2 \<noteq> [] then None
         else if length ip < 16 then
           (case el of
              None \<Rightarrow> None
            | Some e \<Rightarrow> Some (take e ip @ replicate (16 - length ip) 0 @ drop e ip))
         else if el \<noteq> None then None
         else Some ip)"

text \<open>The first of \<open>.\<close>, \<open>:\<close> and \<open>%\<close> decides the family.\<close>

definition ParseAddr :: "string \<Rightarrow> bytes option" where
  "ParseAddr s =
    (case dropWhile (\<lambda>c. c \<notin> set ''.:%'') s of
       [] \<Rightarrow> None
     | c # _ \<Rightarrow> if c = CHR ''.'' then parseIPv4 s else if c = CHR '':'' then parseIPv6 s else None)"

definition v4InV6Prefix :: bytes where
  "v4InV6Prefix = replicate 10 0 @ [0xff, 0xff]"

definition ParseCIDR :: "string \<Rightarrow> IPNet option" where
  "ParseCIDR s =
    (if CHR ''/'' \<notin> set s then None
     else
       let addr = takeWhile (\<lambda>c. c \<noteq> CHR ''/'') s; mask = tl (dropWhile (\<lambda>c. c \<noteq> CHR ''/'') s) in
       case ParseAddr addr of
         None \<Rightarrow> None
       | Some ip \<Rightarrow>
           if mask = [] \<or> \<not> list_all is_digit mask \<or> 8 * length ip < dec_value mask then None
           else Some \<lparr> net_IP = map2 (AND) ip (CIDRMask (dec_value mask) (length ip)),
                       net_Mask = CIDRMask (dec_value mask) (length ip) \<rparr>)"

text \<open>\<open>netip.ParsePrefix\<close> where the address is IPv4: the address bytes and the prefix length.\<close>

definition ParsePrefix4 :: "string \<Rightarrow> (bytes \<times> nat) option" where
  "ParsePrefix4 s =
    (if CHR ''/'' \<notin> set s then None
     else
       let bits = rev (takeWhile (\<lambda>c. c \<noteq> CHR ''/'') (rev s));
           addr = take (length s - length bits - 1) s in
       case ParseAddr addr of
         None \<Rightarrow> None
       | Some ip \<Rightarrow>
           if length ip \<noteq> 4 \<or> bits = [] \<or> \<not> list_all is_digit bits
              \<or> 1 < length bits \<and> hd bits = CHR ''0'' \<or> 32 < dec_value bits then None
           else Some (ip, dec_value bits))"

section \<open>Printing\<close>

text \<open>The number of leading ones of a mask, \<open>None\<close> when ones follow a zero.\<close>

fun simpleMaskLength :: "bytes \<Rightarrow> nat option" where
  "simpleMaskLength [] = Some 0"
| "simpleMaskLength (v # ms) =
    (if v = 0xff then map_option ((+) 8) (simpleMaskLength ms)
     else
       case find (\<lambda>k. v = NOT (drop_bit k 0xff)) [0 ..< 8] of
         Some k \<Rightarrow> if list_all (\<lambda>b. b = 0) ms then Some k else None
       | None \<Rightarrow> None)"

definition hex_digit :: "nat \<Rightarrow> char" where
  "hex_digit d = (if d < 10 then char_of (48 + d) else char_of (97 + d - 10))"

fun hex_string :: "nat \<Rightarrow> string" where
  "hex_string n = (if n < 16 then [hex_digit n] else hex_string (n div 16) @ [hex_digit (n mod 16)])"

declare hex_string.simps [simp del]

definition zero_run :: "nat list \<Rightarrow> nat \<Rightarrow> nat" where
  "zero_run gs i = length (takeWhile (\<lambda>g. g = 0) (drop i gs))"

text \<open>The longest run of at least two zero groups, the first such: its start and end.\<close>

definition longest_zeros :: "nat list \<Rightarrow> (nat \<times> nat) option" where
  "longest_zeros gs =
    foldl (\<lambda>best i. let l = zero_run gs i in
             if 2 \<le> l \<and> (case best of None \<Rightarrow> True | Some (a, b) \<Rightarrow> b - a < l) then Some (i, i + l) else best)
      None [0 ..< 8]"

fun groups_of :: "bytes \<Rightarrow> nat list" where
  "groups_of (a # b # bs) = (unat a * 256 + unat b) # groups_of bs"
| "groups_of _ = []"

definition string6 :: "bytes \<Rightarrow> string" where
  "string6 ip =
    (let gs = groups_of ip in
     case longest_zeros gs of
       None \<Rightarrow> Join CHR '':'' (map hex_string gs)
     | Some (a, b) \<Rightarrow>
         Join CHR '':'' (map hex_string (take a gs)) @ ''::'' @ Join CHR '':'' (map hex_string (drop b gs)))"

definition ip_string :: "bytes \<Rightarrow> string" where
  "ip_string ip =
    (case To4 ip of
       Some v4 \<Rightarrow> Join CHR ''.'' (map (\<lambda>b. Itoa (unat b)) v4)
     | None \<Rightarrow> string6 ip)"

definition hex_byte :: "byte \<Rightarrow> string" where
  "hex_byte b = [hex_digit (unat b div 16), hex_digit (unat b mod 16)]"

definition IPNet_String :: "IPNet \<Rightarrow> string" where
  "IPNet_String n =
    (case networkNumberAndMask n of
       None \<Rightarrow> ''<nil>''
     | Some (nn, m) \<Rightarrow>
         ip_string nn @ ''/'' @
         (case simpleMaskLength m of Some l \<Rightarrow> Itoa l | None \<Rightarrow> concat (map hex_byte m)))"

section \<open>IPv4 networks survive\<close>

definition net4 :: "IPNet \<Rightarrow> bool" where
  "net4 n \<longleftrightarrow> (\<exists>ip k. length ip = 4 \<and> k \<le> 32 \<and> n = CIDR4 ip k)"

lemma is_digit_not:
  "is_digit c \<Longrightarrow> c \<noteq> CHR ''.'' \<and> c \<noteq> CHR ''/'' \<and> c \<noteq> CHR '':'' \<and> c \<noteq> CHR ''%'' \<and> c \<noteq> CHR '','' \<and> c \<noteq> CHR ''-'' \<and> \<not> is_space c"
  by (auto simp: is_digit_def is_space_def Let_def)

lemma Itoa_set: "c \<in> set (Itoa n) \<Longrightarrow> is_digit c"
  using Itoa_digits [of n] by (simp add: list_all_iff)

lemma Itoa_no_dot: "CHR ''.'' \<notin> set (Itoa n)"
  using Itoa_set is_digit_not by blast

lemma Itoa_hd: "hd (Itoa n) = CHR ''0'' \<Longrightarrow> n = 0"
proof (induction n rule: Itoa.induct)
  case (1 n)
  show ?case
  proof (cases "n < 10")
    case True
    then have "char_of (48 + n) = (CHR ''0'' :: char)" using 1(2) by (subst (asm) Itoa.simps) simp
    then have "of_char (char_of (48 + n) :: char) = (of_char (CHR ''0'') :: nat)" by (rule arg_cong)
    then show ?thesis using True by (simp add: of_char_char_of_nat)
  next
    case False
    then have "hd (Itoa (n div 10)) = CHR ''0''"
      using 1(2) by (subst (asm) Itoa.simps) simp
    then show ?thesis using 1(1) False by simp
  qed
qed

lemma octet_Itoa [simp]: "octet (Itoa (unat b)) = Some b"
proof -
  have "unat b \<le> 255" using unat_less_2p [of b] by simp
  moreover have "length (Itoa (unat b)) = 1" if "hd (Itoa (unat b)) = CHR ''0''"
    using Itoa_hd [OF that] by (subst Itoa.simps) simp
  ultimately show ?thesis using Itoa_digits [of "unat b"] by (auto simp: octet_def)
qed

lemma parseIPv4_print:
  "parseIPv4 (Join CHR ''.'' (map (\<lambda>b. Itoa (unat b)) [a, b, c, d])) = Some [a, b, c, d]"
proof -
  have "Split CHR ''.'' (Join CHR ''.'' (map (\<lambda>b. Itoa (unat b)) [a, b, c, d]))
    = map (\<lambda>b. Itoa (unat b)) [a, b, c, d]"
    using Itoa_no_dot by (intro Split_Join) auto
  then show ?thesis by (simp add: parseIPv4_def del: Join.simps)
qed

lemma CIDRMask_0: "CIDRMask 0 n = replicate n 0"
  by (induction n) simp_all

lemma simpleMaskLength_CIDRMask: "k \<le> 8 * n \<Longrightarrow> simpleMaskLength (CIDRMask k n) = Some k"
proof (induction k n rule: CIDRMask.induct)
  case (2 k n)
  show ?case
  proof (cases "8 \<le> k")
    case True
    then show ?thesis using 2 by simp
  next
    case False
    then have "k \<in> {0, 1, 2, 3, 4, 5, 6, 7}" by auto
    then show ?thesis
      by (auto simp: CIDRMask_0 list_all_iff upt_rec)
  qed
qed simp

lemma map2_AND_idem: "map2 (AND) (map2 (AND) xs ms) ms = map2 (AND) xs (ms :: bytes)"
  by (induction xs ms rule: list_induct2') (simp_all add: ac_simps)

lemma CIDR4_number:
  assumes "length ip = 4"
  shows "networkNumberAndMask (CIDR4 ip k) = Some (map2 (AND) ip (CIDRMask k 4), CIDRMask k 4)"
  using assms by (simp add: networkNumberAndMask_def CIDR4_def To4_def Let_def)

definition dotted :: "bytes \<Rightarrow> string" where
  "dotted v4 = Join CHR ''.'' (map (\<lambda>b. Itoa (unat b)) v4)"

lemma ParseAddr_dotted:
  assumes "length v4 = 4"
  shows "ParseAddr (dotted v4) = Some v4" and "CHR ''/'' \<notin> set (dotted v4)"
proof -
  obtain a b c d where v4: "v4 = [a, b, c, d]"
    using assms by (auto simp: length_Suc_conv numeral_eq_Suc)
  have plain: "c \<notin> set ''.:%''" if "c \<in> set (Itoa n)" for c n
    using is_digit_not [OF Itoa_set [OF that]] by simp
  have "dropWhile (\<lambda>c. c \<notin> set ''.:%'') (dotted v4) =
      CHR ''.'' # Itoa (unat b) @ CHR ''.'' # Itoa (unat c) @ CHR ''.'' # Itoa (unat d)"
    unfolding dotted_def v4 list.map Join.simps using plain
    by (subst dropWhile_append2) (blast, simp)
  then show "ParseAddr (dotted v4) = Some v4"
    using parseIPv4_print [of a b c d] by (simp add: ParseAddr_def v4 dotted_def del: Join.simps)
  have "CHR ''/'' \<notin> set (Itoa n)" for n
    using is_digit_not Itoa_set by blast
  then show "CHR ''/'' \<notin> set (dotted v4)" by (simp add: dotted_def v4)
qed

lemma ParseCIDR_String:
  assumes "net4 n"
  shows "ParseCIDR (IPNet_String n) = Some n"
proof -
  obtain ip k where n: "length ip = 4" "k \<le> 32" "n = CIDR4 ip k"
    using assms by (auto simp: net4_def)
  define nn where "nn = map2 (AND) ip (CIDRMask k 4)"
  have len: "length nn = 4" using n(1) by (simp add: nn_def)
  have str: "IPNet_String n = dotted nn @ CHR ''/'' # Itoa k"
    using n CIDR4_number [OF n(1), of k] simpleMaskLength_CIDRMask [of k 4] len
    by (simp add: IPNet_String_def ip_string_def dotted_def nn_def To4_def)
  have slash: "\<And>c. c \<in> set (dotted nn) \<Longrightarrow> c \<noteq> CHR ''/''"
    using ParseAddr_dotted(2) [OF len] by blast
  have "takeWhile (\<lambda>c. c \<noteq> CHR ''/'') (dotted nn @ CHR ''/'' # Itoa k) = dotted nn"
    using slash by (subst takeWhile_append2) auto
  moreover have "dropWhile (\<lambda>c. c \<noteq> CHR ''/'') (dotted nn @ CHR ''/'' # Itoa k) = CHR ''/'' # Itoa k"
    using slash by (subst dropWhile_append2) auto
  ultimately show ?thesis
    unfolding str ParseCIDR_def
    using ParseAddr_dotted(1) [OF len] n len map2_AND_idem [of ip "CIDRMask k 4"] Itoa_digits [of k]
    by (simp add: CIDR4_def nn_def)
qed

end
