(* ===== verification/Netpol_Config.thy ===== *)
theory Netpol_Config
  imports Netpol_Policy Go_Netip
begin

text \<open>
  The configuration side of the egress policy (\<open>internal/netpol/policy.go\<close>, \<open>guard.go\<close>): the file form
  of a policy, \<open>Parse\<close> and \<open>Marshal\<close> between it and the enforced form, guard validation, the edits
  \<open>WithRule\<close>, \<open>WithoutRule\<close>, \<open>WithDomain\<close> and their like, and the dashboard's summaries.  The JSON text
  layer itself is not modelled: the file form is the decoded \<open>filePolicy\<close> structure.
\<close>

section \<open>File form\<close>

record fileRule =
  fr_Action :: string
  fr_CIDR :: string
  fr_Proto :: string
  fr_Ports :: string

record filePolicy =
  fp_Guard :: "GuardSpec option"
  fp_Default :: string
  fp_AllowLocal :: "bool option"
  fp_Rules :: "fileRule list"
  fp_AllowDomains :: "string list"
  fp_ResolveDomains :: "string list"

datatype policy_error =
    BadDefault string
  | BadAction string
  | BadCIDR
  | BadProto string
  | BadPort string
  | BadPortRange string
  | EmptyDomain
  | GuardIdentity
  | GuardLimit
  | GuardRuleID
  | GuardEffect string
  | GuardCIDR string
  | GuardPortsProtocol string
  | GuardProtocol string
  | GuardTooManyPorts string
  | GuardPortZero string
  | GuardDomain string
  | SpecAction string
  | SpecProtocol string
  | SpecPorts string
  | NoMatchingRule
  | NoSuchRule int
  | NoSuchDomain string

definition normalizeDomain :: "string \<Rightarrow> policy_error + string" where
  "normalizeDomain domain =
    (let d = ToLower (TrimSuffix (TrimSpace domain) ''.'') in if d = [] then Inl EmptyDomain else Inr d)"

definition parsePortRange :: "string \<Rightarrow> policy_error + PortRange" where
  "parsePortRange spec =
    (let has = CHR ''-'' \<in> set spec;
         lo = (if has then takeWhile (\<lambda>c. c \<noteq> CHR ''-'') spec else spec);
         hi = (if has then tl (dropWhile (\<lambda>c. c \<noteq> CHR ''-'') spec) else spec)
     in case ParseUint16 lo of
          None \<Rightarrow> Inl (BadPort spec)
        | Some l \<Rightarrow>
            (case ParseUint16 hi of
               None \<Rightarrow> Inl (BadPortRange spec)
             | Some h \<Rightarrow> if h < l then Inl (BadPortRange spec) else Inr \<lparr> pr_Lo = l, pr_Hi = h \<rparr>))"

text \<open>The loops of the parser that stop at the first error.\<close>

fun map_err :: "('a \<Rightarrow> 'e + 'b) \<Rightarrow> 'a list \<Rightarrow> 'e + 'b list" where
  "map_err f [] = Inr []"
| "map_err f (x # xs) =
    (case f x of
       Inl e \<Rightarrow> Inl e
     | Inr y \<Rightarrow> (case map_err f xs of Inl e \<Rightarrow> Inl e | Inr ys \<Rightarrow> Inr (y # ys)))"

definition parse_action :: "string \<Rightarrow> policy_error + bool" where
  "parse_action a = (if a = '''' \<or> a = ''allow'' then Inr False else if a = ''deny'' then Inr True
     else Inl (BadAction a))"

definition parse_proto :: "string \<Rightarrow> policy_error + u8" where
  "parse_proto s = (if s = '''' \<or> s = ''any'' then Inr 0 else if s = ''tcp'' then Inr protoTCP
     else if s = ''udp'' then Inr protoUDP else if s = ''icmp'' then Inr protoICMP else Inl (BadProto s))"

definition parse_cidr :: "string \<Rightarrow> policy_error + IPNet option" where
  "parse_cidr s = (if s = [] then Inr None
     else case ParseCIDR s of None \<Rightarrow> Inl BadCIDR | Some c \<Rightarrow> Inr (Some c))"

definition parse_ports :: "string \<Rightarrow> policy_error + PortRange list" where
  "parse_ports s = (if s = [] then Inr []
     else map_err (\<lambda>spec. parsePortRange (TrimSpace spec)) (Split CHR '','' s))"

definition parse_rule :: "fileRule \<Rightarrow> policy_error + Rule" where
  "parse_rule fr =
    (case parse_action (fr_Action fr) of Inl e \<Rightarrow> Inl e | Inr deny \<Rightarrow>
     (case parse_cidr (fr_CIDR fr) of Inl e \<Rightarrow> Inl e | Inr cidr \<Rightarrow>
      (case parse_proto (fr_Proto fr) of Inl e \<Rightarrow> Inl e | Inr proto \<Rightarrow>
       (case parse_ports (fr_Ports fr) of Inl e \<Rightarrow> Inl e | Inr ports \<Rightarrow>
        Inr \<lparr> Deny = deny, CIDR = cidr, Proto = proto, Ports = ports \<rparr>))))"

definition port_scoped_deny :: "Rule list \<Rightarrow> bool" where
  "port_scoped_deny rs = list_ex (\<lambda>r. Deny r \<and> Ports r \<noteq> []) rs"

section \<open>The organization guard\<close>

definition label_ok :: "string \<Rightarrow> bool" where
  "label_ok l \<longleftrightarrow> l \<noteq> [] \<and> length l \<le> 63 \<and> hd l \<noteq> CHR ''-'' \<and> last l \<noteq> CHR ''-'' \<and>
     list_all (\<lambda>c. (97 \<le> (of_char c :: nat) \<and> (of_char c :: nat) \<le> 122) \<or> is_digit c \<or> c = CHR ''-'') l"

definition ValidGuardDomain :: "string \<Rightarrow> bool" where
  "ValidGuardDomain domain =
    (if domain = ''*'' then True
     else let name = TrimPrefix domain ''*.'' in
       if name = [] \<or> 253 < length name \<or> name \<noteq> ToLower name then False
       else list_all label_ok (Split CHR ''.'' name))"

definition validate_guard_rule :: "GuardRule \<Rightarrow> policy_error option" where
  "validate_guard_rule r =
    (if gr_Effect r \<noteq> ''allow'' \<and> gr_Effect r \<noteq> ''deny'' then Some (GuardEffect (gr_ID r))
     else case ParsePrefix4 (gr_CIDR r) of
       None \<Rightarrow> Some (GuardCIDR (gr_ID r))
     | Some (ip, bits) \<Rightarrow>
         if map2 (AND) ip (CIDRMask bits 4) \<noteq> ip then Some (GuardCIDR (gr_ID r))
         else if gr_Protocol r \<notin> {''tcp'', ''udp'', ''any'', ''icmp''} then Some (GuardProtocol (gr_ID r))
         else if gr_Protocol r \<in> {''any'', ''icmp''} \<and> gr_Ports r \<noteq> [] then Some (GuardPortsProtocol (gr_ID r))
         else if 64 < length (gr_Ports r) then Some (GuardTooManyPorts (gr_ID r))
         else if 0 \<in> set (gr_Ports r) then Some (GuardPortZero (gr_ID r))
         else None)"

fun validate_guard_rules :: "string list \<Rightarrow> GuardRule list \<Rightarrow> policy_error option" where
  "validate_guard_rules seen [] = None"
| "validate_guard_rules seen (r # rs) =
    (if gr_ID r = [] \<or> 128 < length (gr_ID r) \<or> gr_ID r \<in> set seen then Some GuardRuleID
     else case validate_guard_rule r of
       Some e \<Rightarrow> Some e
     | None \<Rightarrow> validate_guard_rules (gr_ID r # seen) rs)"

definition ValidateGuard :: "GuardSpec \<Rightarrow> policy_error option" where
  "ValidateGuard spec =
    (if gs_Organization spec = [] \<or> 128 < length (gs_Organization spec)
        \<or> gs_Revision spec = [] \<or> 128 < length (gs_Revision spec) \<or> gs_ExpiresAt spec = 0
     then Some GuardIdentity
     else if 256 < length (gs_Rules spec) \<or> 256 < length (gs_DNS spec) then Some GuardLimit
     else case validate_guard_rules [] (gs_Rules spec) of
       Some e \<Rightarrow> Some e
     | None \<Rightarrow> map_option GuardDomain (find (\<lambda>d. \<not> ValidGuardDomain d) (gs_DNS spec)))"

definition guard_rule :: "GuardRule \<Rightarrow> Rule" where
  "guard_rule r =
    \<lparr> Deny = (gr_Effect r = ''deny''), CIDR = ParseCIDR (gr_CIDR r),
      Proto = (if gr_Protocol r = ''tcp'' then protoTCP else if gr_Protocol r = ''udp'' then protoUDP
               else if gr_Protocol r = ''icmp'' then protoICMP else 0),
      Ports = map (\<lambda>p. \<lparr> pr_Lo = p, pr_Hi = p \<rparr>) (gr_Ports r) \<rparr>"

definition parseGuard :: "GuardSpec \<Rightarrow> policy_error + networkGuard" where
  "parseGuard spec =
    (case ValidateGuard spec of
       Some e \<Rightarrow> Inl e
     | None \<Rightarrow> Inr \<lparr> g_spec = spec, g_rules = map guard_rule (gs_Rules spec) \<rparr>)"

definition parse_guard_opt :: "GuardSpec option \<Rightarrow> policy_error + networkGuard option" where
  "parse_guard_opt g = (case g of
      None \<Rightarrow> Inr None
    | Some spec \<Rightarrow> (case parseGuard spec of Inl e \<Rightarrow> Inl e | Inr gd \<Rightarrow> Inr (Some gd)))"

definition parse_default :: "string \<Rightarrow> policy_error + bool" where
  "parse_default d = (if d = '''' \<or> d = ''allow'' then Inr True else if d = ''deny'' then Inr False
     else Inl (BadDefault d))"

section \<open>Parsing and printing a policy\<close>

definition Parse :: "filePolicy \<Rightarrow> policy_error + Policy" where
  "Parse fp =
    (case parse_guard_opt (fp_Guard fp) of Inl e \<Rightarrow> Inl e | Inr g \<Rightarrow>
     (case parse_default (fp_Default fp) of Inl e \<Rightarrow> Inl e | Inr dflt \<Rightarrow>
      (case map_err parse_rule (fp_Rules fp) of Inl e \<Rightarrow> Inl e | Inr rs \<Rightarrow>
       (case map_err normalizeDomain (fp_AllowDomains fp) of Inl e \<Rightarrow> Inl e | Inr ad \<Rightarrow>
        (case map_err normalizeDomain (fp_ResolveDomains fp) of Inl e \<Rightarrow> Inl e | Inr rd \<Rightarrow>
         Inr (zero_policy
           \<lparr> p_guard := g, DefaultAllow := dflt, Rules := rs, AllowDomains := ad, ResolveDomains := rd,
             AllowLocal := (case fp_AllowLocal fp of None \<Rightarrow> False | Some b \<Rightarrow> b),
             hasPortScopedDeny := port_scoped_deny rs \<rparr>))))))"

definition print_port :: "PortRange \<Rightarrow> string" where
  "print_port pr = (if pr_Lo pr = pr_Hi pr then Itoa (unat (pr_Lo pr))
     else Itoa (unat (pr_Lo pr)) @ ''-'' @ Itoa (unat (pr_Hi pr)))"

definition print_proto :: "u8 \<Rightarrow> string" where
  "print_proto proto = (if proto = protoTCP then ''tcp'' else if proto = protoUDP then ''udp''
     else if proto = protoICMP then ''icmp'' else '''')"

definition print_rule :: "Rule \<Rightarrow> fileRule" where
  "print_rule r =
    \<lparr> fr_Action = (if Deny r then ''deny'' else ''''),
      fr_CIDR = (case CIDR r of None \<Rightarrow> '''' | Some c \<Rightarrow> IPNet_String c),
      fr_Proto = print_proto (Proto r),
      fr_Ports = Join CHR '','' (map print_port (Ports r)) \<rparr>"

definition Marshal :: "Policy \<Rightarrow> filePolicy" where
  "Marshal p =
    \<lparr> fp_Guard = map_option g_spec (p_guard p),
      fp_Default = (if DefaultAllow p then '''' else ''deny''),
      fp_AllowLocal = (if AllowLocal p then Some True else None),
      fp_Rules = map print_rule (Rules p),
      fp_AllowDomains = AllowDomains p,
      fp_ResolveDomains = ResolveDomains p \<rparr>"

definition clonePolicy :: "Policy \<Rightarrow> policy_error + Policy" where
  "clonePolicy p = Parse (Marshal p)"

definition FailClosedPolicy :: "bool \<Rightarrow> policy_error + Policy" where
  "FailClosedPolicy allowGatewayUDPReplies =
    Parse \<lparr> fp_Guard = None, fp_Default = ''deny'', fp_AllowLocal = None,
      fp_Rules = (if allowGatewayUDPReplies
        then [\<lparr> fr_Action = ''allow'', fr_CIDR = ''192.168.127.1/32'', fr_Proto = ''udp'',
                fr_Ports = Itoa GatewayUDPFirstReplyPort @ ''-'' @ Itoa GatewayUDPLastReplyPort \<rparr>]
        else []),
      fp_AllowDomains = [], fp_ResolveDomains = [] \<rparr>"

section \<open>Edits\<close>

record RuleSpec =
  rs_Action :: string
  rs_CIDR :: string
  rs_Protocol :: string
  rs_Ports :: string

definition sameRuleSelector :: "Rule \<Rightarrow> Rule \<Rightarrow> bool" where
  "sameRuleSelector a b =
    (if Proto a \<noteq> Proto b \<or> length (Ports a) \<noteq> length (Ports b) then False
     else case (CIDR a, CIDR b) of
       (None, None) \<Rightarrow> Ports a = Ports b
     | (Some x, Some y) \<Rightarrow> IPNet_String x = IPNet_String y \<and> Ports a = Ports b
     | _ \<Rightarrow> False)"

definition refreshPortScopedDeny :: "Policy \<Rightarrow> Policy" where
  "refreshPortScopedDeny p = p \<lparr> hasPortScopedDeny := port_scoped_deny (Rules p) \<rparr>"

definition with_rules :: "Policy \<Rightarrow> Rule list \<Rightarrow> Policy" where
  "with_rules p rs = refreshPortScopedDeny (p \<lparr> Rules := rs \<rparr>)"

definition parse_spec :: "RuleSpec \<Rightarrow> policy_error + Rule" where
  "parse_spec spec =
    (if rs_Action spec \<noteq> ''allow'' \<and> rs_Action spec \<noteq> ''deny'' then Inl (SpecAction (rs_Action spec))
     else if rs_Protocol spec \<notin> {''any'', ''tcp'', ''udp'', ''icmp''} then Inl (SpecProtocol (rs_Protocol spec))
     else if rs_Ports spec \<noteq> [] \<and> rs_Protocol spec \<noteq> ''tcp'' \<and> rs_Protocol spec \<noteq> ''udp''
       then Inl (SpecPorts (rs_Protocol spec))
     else case Parse \<lparr> fp_Guard = None, fp_Default = '''', fp_AllowLocal = None,
         fp_Rules = [\<lparr> fr_Action = rs_Action spec, fr_CIDR = rs_CIDR spec, fr_Proto = rs_Protocol spec,
                       fr_Ports = rs_Ports spec \<rparr>],
         fp_AllowDomains = [], fp_ResolveDomains = [] \<rparr> of
       Inl e \<Rightarrow> Inl e
     | Inr parsed \<Rightarrow> Inr (hd (Rules parsed)))"

definition WithRule :: "Policy \<Rightarrow> RuleSpec \<Rightarrow> policy_error + Policy" where
  "WithRule p spec =
    (case parse_spec spec of Inl e \<Rightarrow> Inl e | Inr rule \<Rightarrow>
     (case clonePolicy p of Inl e \<Rightarrow> Inl e | Inr clone \<Rightarrow>
      Inr (with_rules clone (rule # filter (\<lambda>existing. \<not> sameRuleSelector existing rule) (Rules clone)))))"

definition WithoutMatchingRule :: "Policy \<Rightarrow> RuleSpec \<Rightarrow> policy_error + Policy" where
  "WithoutMatchingRule p spec =
    (case WithRule (zero_policy \<lparr> DefaultAllow := True \<rparr>) spec of Inl e \<Rightarrow> Inl e | Inr canonical \<Rightarrow>
     (case clonePolicy p of Inl e \<Rightarrow> Inl e | Inr clone \<Rightarrow>
      (let want = hd (Rules canonical) in
       if \<not> list_ex (\<lambda>existing. sameRuleSelector existing want) (Rules clone) then Inl NoMatchingRule
       else Inr (with_rules clone (filter (\<lambda>existing. \<not> sameRuleSelector existing want) (Rules clone))))))"

definition WithoutRule :: "Policy \<Rightarrow> int \<Rightarrow> policy_error + Policy" where
  "WithoutRule p index =
    (case clonePolicy p of Inl e \<Rightarrow> Inl e | Inr clone \<Rightarrow>
      if index < 0 \<or> int (length (Rules clone)) \<le> index then Inl (NoSuchRule (index + 1))
      else Inr (with_rules clone (take (nat index) (Rules clone) @ drop (Suc (nat index)) (Rules clone))))"

definition WithDomain :: "Policy \<Rightarrow> string \<Rightarrow> policy_error + Policy" where
  "WithDomain p domain =
    (case normalizeDomain domain of Inl e \<Rightarrow> Inl e | Inr d \<Rightarrow>
     (case clonePolicy p of Inl e \<Rightarrow> Inl e | Inr clone \<Rightarrow>
      if d \<in> set (AllowDomains clone) then Inr clone
      else Inr (clone \<lparr> AllowDomains := AllowDomains clone @ [d] \<rparr>)))"

definition WithResolveDomain :: "Policy \<Rightarrow> string \<Rightarrow> policy_error + Policy" where
  "WithResolveDomain p domain =
    (case normalizeDomain domain of Inl e \<Rightarrow> Inl e | Inr d \<Rightarrow>
     (case clonePolicy p of Inl e \<Rightarrow> Inl e | Inr clone \<Rightarrow>
      if d \<in> set (ResolveDomains clone) then Inr clone
      else Inr (clone \<lparr> ResolveDomains := ResolveDomains clone @ [d] \<rparr>)))"

definition WithoutDomain :: "Policy \<Rightarrow> string \<Rightarrow> policy_error + Policy" where
  "WithoutDomain p domain =
    (case normalizeDomain domain of Inl e \<Rightarrow> Inl e | Inr d \<Rightarrow>
     (case clonePolicy p of Inl e \<Rightarrow> Inl e | Inr clone \<Rightarrow>
      if d \<notin> set (AllowDomains clone) then Inl (NoSuchDomain d)
      else Inr (clone \<lparr> AllowDomains := filter (\<lambda>e. e \<noteq> d) (AllowDomains clone) \<rparr>)))"

definition WithGuard :: "Policy \<Rightarrow> GuardSpec \<Rightarrow> policy_error + Policy" where
  "WithGuard p spec =
    (case parseGuard spec of Inl e \<Rightarrow> Inl e | Inr g \<Rightarrow>
     (case clonePolicy p of Inl e \<Rightarrow> Inl e | Inr clone \<Rightarrow> Inr (clone \<lparr> p_guard := Some g \<rparr>)))"

definition WithoutGuard :: "Policy \<Rightarrow> policy_error + Policy" where
  "WithoutGuard p =
    (case Parse (Marshal p) of Inl e \<Rightarrow> Inl e | Inr cloned \<Rightarrow> Inr (cloned \<lparr> p_guard := None \<rparr>))"

section \<open>Summaries\<close>

record RuleSummary =
  su_Action :: string
  su_Target :: string
  su_Protocol :: string
  su_Ports :: string
  su_Source :: string

definition protocolLabel :: "u8 \<Rightarrow> string" where
  "protocolLabel proto = (if proto = protoTCP then ''tcp'' else if proto = protoUDP then ''udp''
     else if proto = protoICMP then ''icmp'' else ''any'')"

definition summary :: "string \<Rightarrow> string \<Rightarrow> string \<Rightarrow> string \<Rightarrow> string \<Rightarrow> RuleSummary" where
  "summary a t p ps s = \<lparr> su_Action = a, su_Target = t, su_Protocol = p, su_Ports = ps, su_Source = s \<rparr>"

definition rule_summary :: "nat \<times> Rule \<Rightarrow> RuleSummary" where
  "rule_summary ir = (case ir of (i, r) \<Rightarrow>
     summary (if Deny r then ''deny'' else ''allow'')
       (case CIDR r of None \<Rightarrow> ''all destinations'' | Some c \<Rightarrow> IPNet_String c)
       (protocolLabel (Proto r)) (Join CHR '','' (map print_port (Ports r))) (''rule '' @ Itoa (i + 1)))"

definition guard_summaries :: "networkGuard \<Rightarrow> RuleSummary list" where
  "guard_summaries g =
    (let org = ''org:'' @ gs_Organization (g_spec g) in
     map (\<lambda>r. summary (gr_Effect r) (gr_CIDR r) (gr_Protocol r)
            (Join CHR '','' (map (\<lambda>p. Itoa (unat p)) (gr_Ports r))) (org @ '':'' @ gr_ID r)) (gs_Rules (g_spec g))
     @ [summary ''deny'' ''unmatched organization egress'' ''any'' '''' org]
     @ map (\<lambda>d. summary ''resolve'' d ''dns'' '''' org) (gs_DNS (g_spec g)))"

definition RuleSummaries :: "Policy \<Rightarrow> RuleSummary list" where
  "RuleSummaries p =
     [summary ''deny'' ''IPv6 and non-IPv4 traffic'' ''ether'' '''' ''built-in'']
     @ map rule_summary (enumerate 0 (Rules p))
     @ map (\<lambda>d. summary ''allow'' d ''dns'' '''' ''domain'') (AllowDomains p)
     @ map (\<lambda>d. summary ''resolve'' d ''dns'' '''' ''DNS only'') (ResolveDomains p)
     @ [summary (if AllowLocal p then ''allow'' else ''deny'') ''local networks'' ''any'' '''' ''built-in'',
        summary (if DefaultAllow p then ''allow'' else ''deny'') ''public internet'' ''any'' '''' ''default'']
     @ (case p_guard p of None \<Rightarrow> [] | Some g \<Rightarrow> guard_summaries g)"

definition Summarize :: "bytes \<Rightarrow> string" where
  "Summarize frame =
    (case parseFrame frame of (pp, arp, ok) \<Rightarrow>
       if arp then ''arp''
       else if \<not> ok then ''non-ipv4''
       else
         let proto = (if pp_proto pp = protoTCP then ''tcp'' else if pp_proto pp = protoUDP then ''udp''
                      else if pp_proto pp = protoICMP then ''icmp'' else ''ip'') in
         if pp_proto pp = protoTCP \<or> pp_proto pp = protoUDP
         then proto @ '' '' @ dotted (ip4_bytes (pp_dst pp)) @ '':'' @ Itoa (unat (pp_dport pp))
         else proto @ '' '' @ dotted (ip4_bytes (pp_dst pp)))"

end
