(* ===== verification/Netpol_Correct.thy ===== *)
theory Netpol_Correct
  imports Netpol_Policy
begin

text \<open>
  What the egress policy guarantees: the flow table is a bounded list in order of activity, a
  packet admitted on cached state has a trusted handshake behind it, an admitted frame satisfies
  the guard, the rules, the wall and the domain filter, learning is bounded, and a policy
  replacement keeps established flows and the organization guard.
\<close>

unbundle bit_operations_syntax

section \<open>Runs of the flow table\<close>

datatype flow_op =
    ObserveFlow publishedFlow u8 Time
  | MatchFlow publishedFlow u8 Time
  | InvalidateFlow parsedPacket

fun flow_step :: "flow_op \<Rightarrow> publishedFlowTable \<Rightarrow> (bool option \<times> publishedFlowTable) option" where
  "flow_step (ObserveFlow f fl n) t = map_option (Pair None) (flow_observe f fl n t)"
| "flow_step (MatchFlow f fl n) t = map_option (\<lambda>(b, t). (Some b, t)) (flow_match f fl n t)"
| "flow_step (InvalidateFlow pp) t = map_option (Pair None) (invalidatePublishedReturnSYN pp t)"

fun flow_run :: "flow_op list \<Rightarrow> publishedFlowTable \<Rightarrow> (bool option list \<times> publishedFlowTable) option" where
  "flow_run [] t = Some ([], t)"
| "flow_run (x # xs) t =
    Option.bind (flow_step x t) (\<lambda>(r, t1). map_option (\<lambda>(rs, t2). (r # rs, t2)) (flow_run xs t1))"

definition sp_invalidate :: "parsedPacket \<Rightarrow> publishedFlowEntry list \<Rightarrow> publishedFlowEntry list" where
  "sp_invalidate pp es = (case publishedFlowFromReturn pp of
      None \<Rightarrow> es
    | Some (flow, flags) \<Rightarrow>
        if flags AND tcpSYN = 0 \<or> flags AND tcpACK \<noteq> 0 then es else sp_rest flow es)"

fun sp_step :: "flow_op \<Rightarrow> publishedFlowEntry list \<Rightarrow> bool option \<times> publishedFlowEntry list" where
  "sp_step (ObserveFlow f fl n) es = (None, sp_observe f fl n es)"
| "sp_step (MatchFlow f fl n) es = (case sp_match f fl n es of (b, es') \<Rightarrow> (Some b, es'))"
| "sp_step (InvalidateFlow pp) es = (None, sp_invalidate pp es)"

fun sp_run :: "flow_op list \<Rightarrow> publishedFlowEntry list \<Rightarrow> bool option list \<times> publishedFlowEntry list" where
  "sp_run [] es = ([], es)"
| "sp_run (x # xs) es = (case sp_step x es of (r, es1) \<Rightarrow> case sp_run xs es1 of (rs, es2) \<Rightarrow> (r # rs, es2))"

lemma flow_step_ok:
  assumes "flows_ok t"
  shows "\<exists>r t'. flow_step x t = Some (r, t') \<and> flows_ok t' \<and> (r, flow_abs t') = sp_step x (flow_abs t)"
proof (cases x)
  case (ObserveFlow f fl n)
  then show ?thesis using flow_observe_ok [OF assms, of f fl n] by auto
next
  case (MatchFlow f fl n)
  obtain b t' where "flow_match f fl n t = Some (b, t')" "flows_ok t'" "(b, flow_abs t') = sp_match f fl n (flow_abs t)"
    using flow_match_ok [OF assms, of f fl n] by blast
  then show ?thesis using MatchFlow by (auto split: prod.split)
next
  case (InvalidateFlow pp)
  then show ?thesis using invalidate_ok [OF assms, of pp] by (auto simp: sp_invalidate_def)
qed

lemma flow_run_ok:
  assumes "flows_ok t"
  shows "\<exists>rs t'. flow_run xs t = Some (rs, t') \<and> flows_ok t' \<and> (rs, flow_abs t') = sp_run xs (flow_abs t)"
  using assms
proof (induction xs arbitrary: t)
  case (Cons x xs)
  obtain r t1 where 1: "flow_step x t = Some (r, t1)" "flows_ok t1" "(r, flow_abs t1) = sp_step x (flow_abs t)"
    using flow_step_ok [OF Cons.prems] by blast
  obtain rs t2 where "flow_run xs t1 = Some (rs, t2)" "flows_ok t2" "(rs, flow_abs t2) = sp_run xs (flow_abs t1)"
    using Cons.IH [OF 1(2)] by blast
  then show ?case using 1(1) by (auto simp: 1(3) [symmetric] split: prod.split)
qed simp

text \<open>C5. The published-flow table refines a plain list. Whatever sequence of trusted ingress
  packets, guest packets and SYN invalidations reaches a new table, no step dereferences a missing
  list element, every verdict is the verdict of the specification, which keeps one list of entries
  in order of last trusted activity, and the table never holds more than 4096 flows.\<close>

theorem flow_table_refines:
  "\<exists>rs t. flow_run ops newPublishedFlowTable = Some (rs, t) \<and>
     (rs, flow_abs t) = sp_run ops [] \<and>
     length (ft_entries t) = length (flow_abs t) \<and> length (ft_entries t) \<le> maxPublishedFlows"
proof -
  obtain rs t where "flow_run ops newPublishedFlowTable = Some (rs, t)" "flows_ok t"
    "(rs, flow_abs t) = sp_run ops []"
    using flow_run_ok [of newPublishedFlowTable ops] by auto
  then show ?thesis
    using flows_ok_length [of t] by (auto simp: flows_ok_def flow_abs_def)
qed

section \<open>A handshake behind every cached admission\<close>

text \<open>What the trace must contain for an entry to be in the table.\<close>

definition ingress :: "flow_op list \<Rightarrow> publishedFlow \<Rightarrow> (u8 \<Rightarrow> Time \<Rightarrow> bool) \<Rightarrow> bool" where
  "ingress xs f P \<longleftrightarrow> (\<exists>fl n. ObserveFlow f fl n \<in> set xs \<and> P fl n)"

definition progress :: "flow_op list \<Rightarrow> Time \<Rightarrow> publishedFlowEntry \<Rightarrow> bool" where
  "progress post start en =
    (case fe_state en of
       publishedFlowPending \<Rightarrow> fe_expiry en = start + publishedFlowPendingTTL
     | publishedFlowEstablished \<Rightarrow>
         ingress post (fe_flow en) (\<lambda>fl n. fl AND tcpACK \<noteq> 0) \<and>
         ingress post (fe_flow en) (\<lambda>fl n. fe_expiry en = n + publishedFlowIdleTTL))"

definition handshake :: "flow_op list \<Rightarrow> publishedFlowEntry \<Rightarrow> bool" where
  "handshake ops en \<longleftrightarrow>
    (\<exists>pre syn start post. ops = pre @ ObserveFlow (fe_flow en) syn start # post \<and> initialSYN syn \<and>
       \<not> ingress post (fe_flow en) (\<lambda>fl n. fl AND tcpRST \<noteq> 0) \<and> progress post start en)"

lemma ingress_snoc:
  "ingress (xs @ [x]) f P \<longleftrightarrow> ingress xs f P \<or> (\<exists>fl n. x = ObserveFlow f fl n \<and> P fl n)"
  by (auto simp: ingress_def)

lemma ingress_mono: "ingress xs f P \<Longrightarrow> (\<And>fl n. P fl n \<Longrightarrow> Q fl n) \<Longrightarrow> ingress xs f Q"
  by (auto simp: ingress_def)

lemma handshakeE:
  assumes "handshake ops en"
  obtains pre syn start post where "ops = pre @ ObserveFlow (fe_flow en) syn start # post" "initialSYN syn"
    "\<not> ingress post (fe_flow en) (\<lambda>fl n. fl AND tcpRST \<noteq> 0)" "progress post start en"
  using assms unfolding handshake_def by blast

lemma handshake_snoc:
  assumes "handshake ops en" "\<not> (\<exists>fl n. x = ObserveFlow (fe_flow en) fl n \<and> fl AND tcpRST \<noteq> 0)"
  shows "handshake (ops @ [x]) en"
  using assms(1)
proof (rule handshakeE)
  fix pre syn start post
  assume h: "ops = pre @ ObserveFlow (fe_flow en) syn start # post" "initialSYN syn"
    "\<not> ingress post (fe_flow en) (\<lambda>fl n. fl AND tcpRST \<noteq> 0)" "progress post start en"
  have "ops @ [x] = pre @ ObserveFlow (fe_flow en) syn start # (post @ [x])" using h(1) by simp
  moreover have "\<not> ingress (post @ [x]) (fe_flow en) (\<lambda>fl n. fl AND tcpRST \<noteq> 0)"
    using h(3) assms(2) by (simp add: ingress_snoc)
  moreover have "progress (post @ [x]) start en"
    using h(4) by (auto simp: progress_def ingress_snoc split: publishedFlowState.splits)
  ultimately show ?thesis using h(2) unfolding handshake_def by blast
qed

lemma handshake_new:
  assumes "initialSYN fl"
  shows "handshake (ops @ [ObserveFlow f fl n]) (sp_entry f (n + publishedFlowPendingTTL) publishedFlowPending)"
proof -
  let ?en = "sp_entry f (n + publishedFlowPendingTTL) publishedFlowPending"
  have "ops @ [ObserveFlow f fl n] = ops @ ObserveFlow (fe_flow ?en) fl n # []" by (simp add: sp_entry_def)
  moreover have "progress [] n ?en" by (simp add: progress_def sp_entry_def)
  moreover have "\<not> ingress [] (fe_flow ?en) (\<lambda>fl n. fl AND tcpRST \<noteq> 0)" by (simp add: ingress_def)
  ultimately show ?thesis using assms unfolding handshake_def by blast
qed

lemma handshake_established:
  assumes h: "handshake ops en" and rst: "fl AND tcpRST = 0"
    and ack: "fe_state en = publishedFlowPending \<longrightarrow> fl AND tcpACK \<noteq> 0"
  shows "handshake (ops @ [ObserveFlow (fe_flow en) fl n])
    (sp_entry (fe_flow en) (n + publishedFlowIdleTTL) publishedFlowEstablished)"
  using h
proof (rule handshakeE)
  fix pre syn start post
  assume o: "ops = pre @ ObserveFlow (fe_flow en) syn start # post" "initialSYN syn"
    "\<not> ingress post (fe_flow en) (\<lambda>fl n. fl AND tcpRST \<noteq> 0)" "progress post start en"
  let ?x = "ObserveFlow (fe_flow en) fl n"
  let ?en = "sp_entry (fe_flow en) (n + publishedFlowIdleTTL) publishedFlowEstablished"
  have flow: "fe_flow ?en = fe_flow en" by (simp add: sp_entry_def)
  have "ops @ [?x] = pre @ ObserveFlow (fe_flow ?en) syn start # (post @ [?x])" using o(1) flow by simp
  moreover have "\<not> ingress (post @ [?x]) (fe_flow ?en) (\<lambda>fl n. fl AND tcpRST \<noteq> 0)"
    using o(3) rst by (simp add: ingress_snoc flow)
  moreover have "ingress (post @ [?x]) (fe_flow en) (\<lambda>fl n. fl AND tcpACK \<noteq> 0)"
    using o(4) ack by (cases "fe_state en") (auto simp: progress_def ingress_snoc)
  then have "progress (post @ [?x]) start ?en"
    by (simp add: progress_def ingress_snoc sp_entry_def)
  ultimately show ?thesis using o(2) unfolding handshake_def by blast
qed

lemma sp_find_SomeD: "sp_find f es = Some en \<Longrightarrow> en \<in> set es \<and> fe_flow en = f"
  by (auto simp: sp_find_def find_Some_iff)

lemma sp_restD: "en \<in> set (sp_rest f es) \<Longrightarrow> en \<in> set es \<and> fe_flow en \<noteq> f"
  by (simp add: sp_rest_def)

lemma sp_admit_memD:
  assumes "en \<in> set (sp_admit f fl n es)"
  shows "en \<in> set es \<or> initialSYN fl \<and> en = sp_entry f (n + publishedFlowPendingTTL) publishedFlowPending"
  using assms by (auto simp: sp_admit_def split: if_splits dest: list.set_sel(2)) (metis list.set_sel(2) tl_Nil)

lemma sp_observe_handshake:
  assumes inv: "\<forall>en \<in> set es. handshake ops en" and mem: "en \<in> set (sp_observe f fl n es)"
  shows "handshake (ops @ [ObserveFlow f fl n]) en"
proof -
  have keep: "handshake (ops @ [ObserveFlow f fl n]) e"
    if "e \<in> set es" "fe_flow e \<noteq> f \<or> fl AND tcpRST = 0" for e
    using that inv by (intro handshake_snoc) auto
  have admit: "handshake (ops @ [ObserveFlow f fl n]) en"
    if "en \<in> set (sp_admit f fl n xs)" "\<forall>e \<in> set xs. e \<in> set es \<and> fe_flow e \<noteq> f" for xs
    using sp_admit_memD [OF that(1)] that(2) keep handshake_new by auto
  show ?thesis
  proof (cases "sp_find f es")
    case None
    then have "\<forall>e \<in> set es. fe_flow e \<noteq> f" by (auto simp: sp_find_def find_None_iff)
    then show ?thesis using mem None by (intro admit [of es]) (auto simp: sp_observe_def)
  next
    case (Some e0)
    note e0 = sp_find_SomeD [OF Some]
    consider "fe_expiry e0 \<le> n" | "n < fe_expiry e0" "fl AND tcpRST \<noteq> 0"
      | "n < fe_expiry e0" "fl AND tcpRST = 0" by linarith
    then show ?thesis
    proof cases
      case 1
      then show ?thesis
        using mem Some by (intro admit [of "sp_rest f es"]) (auto simp: sp_observe_def dest: sp_restD)
    next
      case 2
      then show ?thesis using mem Some keep by (auto simp: sp_observe_def dest: sp_restD)
    next
      case 3
      have "handshake ops e0" using e0 inv by blast
      then have "fe_state e0 = publishedFlowPending \<longrightarrow> fl AND tcpACK \<noteq> 0 \<Longrightarrow>
          handshake (ops @ [ObserveFlow f fl n]) (sp_entry f (n + publishedFlowIdleTTL) publishedFlowEstablished)"
        using handshake_established [of ops e0 fl n] 3 e0 by simp
      moreover have "initialSYN fl \<Longrightarrow>
          handshake (ops @ [ObserveFlow f fl n]) (sp_entry f (n + publishedFlowPendingTTL) publishedFlowPending)"
        by (rule handshake_new)
      ultimately show ?thesis
        using mem Some 3 keep by (auto simp: sp_observe_def dest: sp_restD split: if_splits)
    qed
  qed
qed

lemma sp_step_handshake:
  assumes "\<forall>en \<in> set es. handshake ops en" "en \<in> set (snd (sp_step x es))"
  shows "handshake (ops @ [x]) en"
proof (cases x)
  case (ObserveFlow f fl n)
  then show ?thesis using sp_observe_handshake [OF assms(1)] assms(2) by simp
next
  case (MatchFlow f fl n)
  then have "en \<in> set es"
    using assms(2) by (auto simp: sp_match_def dest: sp_restD split: option.splits if_splits)
  then show ?thesis using assms(1) MatchFlow by (intro handshake_snoc) auto
next
  case (InvalidateFlow pp)
  then have "en \<in> set es"
    using assms(2) by (auto simp: sp_invalidate_def dest: sp_restD split: option.splits if_splits)
  then show ?thesis using assms(1) InvalidateFlow by (intro handshake_snoc) auto
qed

lemma sp_run_snoc: "snd (sp_run (xs @ [x]) es) = snd (sp_step x (snd (sp_run xs es)))"
  by (induction xs arbitrary: es) (simp_all add: case_prod_beta)

lemma sp_run_handshake: "\<forall>en \<in> set (snd (sp_run ops [])). handshake ops en"
proof (induction ops rule: rev_induct)
  case (snoc x xs)
  then show ?case using sp_step_handshake by (simp add: sp_run_snoc)
qed simp

text \<open>C3. A guest packet is admitted on cached flow state only behind a trusted handshake. If a
  table reached by any trace admits a return packet, the trace contains a gateway-originated pure
  SYN on exactly this tuple with no trusted reset after it, and either the SYN is less than 30
  seconds old or a trusted ACK followed it and some trusted packet of the flow is less than 24 hours
  old. The packet itself is never a SYN without ACK.\<close>

theorem published_return_provenance:
  assumes "flow_run ops newPublishedFlowTable = Some (rs, t)"
    and "flow_match flow flags now t = Some (True, t')"
  shows "\<exists>pre syn start post.
      ops = pre @ ObserveFlow flow syn start # post \<and> initialSYN syn \<and>
      \<not> ingress post flow (\<lambda>fl n. fl AND tcpRST \<noteq> 0) \<and>
      (now < start + publishedFlowPendingTTL \<or>
       ingress post flow (\<lambda>fl n. fl AND tcpACK \<noteq> 0) \<and>
       ingress post flow (\<lambda>fl n. now < n + publishedFlowIdleTTL)) \<and>
      \<not> (flags AND tcpSYN \<noteq> 0 \<and> flags AND tcpACK = 0)"
proof -
  have t: "flows_ok t" "flow_abs t = snd (sp_run ops [])"
    using flow_run_ok [of newPublishedFlowTable ops] assms(1) by (auto simp: prod_eq_iff)
  have "fst (sp_match flow flags now (flow_abs t))"
    using flow_match_ok [OF t(1), of flow flags now] assms(2) by (auto simp: prod_eq_iff)
  then obtain en where en: "sp_find flow (flow_abs t) = Some en" "now < fe_expiry en"
      "return_flags_ok (fe_state en) flags"
    by (auto simp: sp_match_def split: option.splits if_splits)
  have flow: "en \<in> set (flow_abs t)" "fe_flow en = flow" using sp_find_SomeD [OF en(1)] by auto
  then have "handshake ops en" using sp_run_handshake [of ops] t(2) by auto
  then obtain pre syn start post where h: "ops = pre @ ObserveFlow flow syn start # post" "initialSYN syn"
      "\<not> ingress post flow (\<lambda>fl n. fl AND tcpRST \<noteq> 0)" "progress post start en"
    using flow(2) by (auto elim: handshakeE)
  have "now < start + publishedFlowPendingTTL \<or>
       ingress post flow (\<lambda>fl n. fl AND tcpACK \<noteq> 0) \<and> ingress post flow (\<lambda>fl n. now < n + publishedFlowIdleTTL)"
    using h(4) en(2) flow(2) ingress_mono [of post flow "\<lambda>fl n. fe_expiry en = n + publishedFlowIdleTTL"
        "\<lambda>fl n. now < n + publishedFlowIdleTTL"]
    by (cases "fe_state en") (simp_all add: progress_def)
  moreover have "\<not> (flags AND tcpSYN \<noteq> 0 \<and> flags AND tcpACK = 0)"
    using en(3) by (auto simp: return_flags_ok_def)
  ultimately show ?thesis using h(1-3) by blast
qed

definition sample_flow :: publishedFlow where
  "sample_flow = \<lparr> pf_guestIP = guestIPv4, pf_gatewayIP = gatewayIPv4, pf_proto = protoTCP,
     pf_guestPort = 80, pf_gatewayPort = 40000 \<rparr>"

lemma sample_flow_run:
  "flow_run [ObserveFlow sample_flow 2 100, ObserveFlow sample_flow 16 200] newPublishedFlowTable
    = Some ([None, None], \<lparr> ft_entries = [(sample_flow, 0)],
        ft_lru = [(0, sp_entry sample_flow (200 + publishedFlowIdleTTL) publishedFlowEstablished)], ft_fresh = 1 \<rparr>)"
  by (simp add: newPublishedFlowTable_def flow_observe_def flow_admit_def flow_push_def flow_refresh_def
      flow_update_def flow_touch_def initialSYN_def tcpSYN_def tcpACK_def tcpRST_def tcpFIN_def
      publishedFlowPendingTTL_def Second_def maxPublishedFlows_def sp_entry_def)

lemma sample_flow_match:
  "flow_match sample_flow 16 300 \<lparr> ft_entries = [(sample_flow, 0)],
     ft_lru = [(0, sp_entry sample_flow (200 + publishedFlowIdleTTL) publishedFlowEstablished)], ft_fresh = 1 \<rparr>
   = Some (True, \<lparr> ft_entries = [(sample_flow, 0)],
     ft_lru = [(0, sp_entry sample_flow (200 + publishedFlowIdleTTL) publishedFlowEstablished)], ft_fresh = 1 \<rparr>)"
  by (simp add: flow_match_def sp_entry_def return_flags_ok_def tcpSYN_def tcpACK_def tcpRST_def tcpFIN_def
      publishedFlowIdleTTL_def Second_def)

theorem published_return_provenance_witness:
  "\<exists>pre syn start post.
      [ObserveFlow sample_flow 2 100, ObserveFlow sample_flow 16 200] = pre @ ObserveFlow sample_flow syn start # post
      \<and> initialSYN syn"
  using published_return_provenance [OF sample_flow_run sample_flow_match] by blast

section \<open>What an admitted frame satisfies\<close>

lemma guard_loop_iff:
  "guard_loop rs dst proto port allowed \<longleftrightarrow>
    (\<forall>r \<in> set rs. guard_rule_matches r dst proto port \<longrightarrow> \<not> Deny r) \<and>
    (allowed \<or> (\<exists>r \<in> set rs. guard_rule_matches r dst proto port))"
  by (induction rs arbitrary: allowed) auto

text \<open>C22. The organization guard is deny-overrides and fails closed. With a guard attached, traffic
  is allowed exactly when the grant has not expired, some rule of the guard matches the destination,
  protocol and port, and no matching rule of the guard denies, in whatever order the rules come.
  Without a guard it allows everything.\<close>

theorem guard_deny_overrides:
  "guard_allows g now dst proto port \<longleftrightarrow>
    (case g of
       None \<Rightarrow> True
     | Some gd \<Rightarrow> now < gs_ExpiresAt (g_spec gd) \<and>
         (\<exists>r \<in> set (g_rules gd). guard_rule_matches r dst proto port) \<and>
         (\<nexists>r. r \<in> set (g_rules gd) \<and> guard_rule_matches r dst proto port \<and> Deny r))"
  by (auto simp: guard_allows_def guard_valid_def guard_loop_iff split: option.split)

text \<open>The ordinary verdict on a destination: the guard, then the first matching rule, then the
  local-network wall, then learned addresses and the default.\<close>

definition route_allowed :: "Policy \<Rightarrow> Time \<Rightarrow> ip4 \<Rightarrow> u8 \<Rightarrow> u16 \<Rightarrow> bool" where
  "route_allowed p now dst proto dport \<longleftrightarrow>
    guard_allows (p_guard p) now dst proto dport \<and>
    (case explicitRuleVerdict (Rules p) dst proto dport of
       Some allowed \<Rightarrow> allowed
     | None \<Rightarrow> (AllowLocal p \<or> \<not> isLocal dst) \<and>
         (DefaultAllow p \<or> (\<exists>exp. map_of (p_dynamic p) dst = Some exp \<and> now < exp)))"

lemma Allows_route: "fst (Allows p now dst proto dport) \<longleftrightarrow> route_allowed p now dst proto dport"
  by (auto simp: Allows_def route_allowed_def split: option.split)

lemma match_gateway_cases:
  assumes "match_gateway U now pp p t = Some (True, p', t')"
  shows "route_allowed p now (pp_dst pp) (pp_proto pp) (pp_dport pp) \<or>
    (pp_proto pp = protoUDP \<or> pp_proto pp = protoTCP) \<and> pp_dport pp = 53 \<and> matchGatewayDNS U p now pp \<or>
    explicitRuleVerdict (Rules p) (pp_dst pp) (pp_proto pp) (pp_dport pp) = None \<and>
    (\<exists>t1. invalidatePublishedReturnSYN pp t = Some t1 \<and> matchPublishedReturn pp now t1 = Some (True, t'))"
proof -
  obtain t1 where t1: "invalidatePublishedReturnSYN pp t = Some t1"
    using assms by (auto simp: match_gateway_def split: if_splits option.splits)
  show ?thesis
  proof (cases "(pp_proto pp = protoUDP \<or> pp_proto pp = protoTCP) \<and> pp_dport pp = 53")
    case True
    then show ?thesis using assms t1 by (auto simp: match_gateway_def split: if_splits)
  next
    case dns: False
    show ?thesis
    proof (cases "explicitRuleVerdict (Rules p) (pp_dst pp) (pp_proto pp) (pp_dport pp)")
      case None
      obtain b p1 where al: "Allows p now (pp_dst pp) (pp_proto pp) (pp_dport pp) = (b, p1)" by fastforce
      then have "b \<longleftrightarrow> route_allowed p now (pp_dst pp) (pp_proto pp) (pp_dport pp)"
        using Allows_route [of p now "pp_dst pp" "pp_proto pp" "pp_dport pp"] by simp
      then show ?thesis
        using assms t1 dns None al by (cases b) (auto simp: match_gateway_def split: if_splits)
    next
      case (Some allowed)
      then show ?thesis
        using assms t1 dns by (auto simp: match_gateway_def route_allowed_def split: if_splits)
    qed
  qed
qed

text \<open>C2. Every IPv4 frame the policy lets out is accounted for. The guard has not expired and no
  fragment passes a guard; the frame is either a DHCP request to the gateway or a broadcast address
  from the guest's address or 0.0.0.0, or it carries the guest's own source address to a unicast
  destination and one of three things holds: the guard and the first matching rule allow it, where
  without a rule the destination must be outside the local networks (unless local access is granted)
  and allowed by default or by an unexpired learned address; or it is a filtered DNS query to the
  gateway; or no rule speaks about it and it is the return half of a tracked published flow to the
  gateway.\<close>

theorem egress_admitted_only_if:
  assumes "match_tx U now frame p t = Some (True, p', t')"
    and "parseFrame frame = (pp, False, True)"
  shows "guard_valid (p_guard p) now \<and> (p_guard p = None \<or> \<not> pp_fragmented pp) \<and>
    (dhcp_request pp \<and> (pp_dst pp = gatewayIPv4 \<or> is_broadcast (pp_dst pp))
        \<and> pp_src pp \<in> {guestIPv4, IP4 0 0 0 0} \<or>
     pp_src pp = guestIPv4 \<and> \<not> is_broadcast (pp_dst pp) \<and>
      (route_allowed p now (pp_dst pp) (pp_proto pp) (pp_dport pp) \<or>
       pp_dst pp = gatewayIPv4 \<and> (pp_proto pp = protoUDP \<or> pp_proto pp = protoTCP) \<and> pp_dport pp = 53
         \<and> matchGatewayDNS U p now pp \<or>
       pp_dst pp = gatewayIPv4 \<and>
         explicitRuleVerdict (Rules p) (pp_dst pp) (pp_proto pp) (pp_dport pp) = None \<and>
         (\<exists>t1. invalidatePublishedReturnSYN pp t = Some t1 \<and> matchPublishedReturn pp now t1 = Some (True, t'))))"
proof -
  have g: "guard_valid (p_guard p) now" "p_guard p = None \<or> \<not> pp_fragmented pp"
    using assms by (auto simp: match_tx_def split: if_splits)
  have src: "pp_src pp = guestIPv4 \<or>
      pp_src pp = IP4 0 0 0 0 \<and> dhcp_request pp \<and> (pp_dst pp = gatewayIPv4 \<or> is_broadcast (pp_dst pp))"
    using assms by (auto simp: match_tx_def Let_def split: if_splits)
  consider "dhcp_request pp" "pp_dst pp = gatewayIPv4 \<or> is_broadcast (pp_dst pp)"
    | "\<not> dhcp_request pp" "pp_dst pp = gatewayIPv4 \<or> is_broadcast (pp_dst pp)"
    | "pp_dst pp \<noteq> gatewayIPv4" "\<not> is_broadcast (pp_dst pp)" by blast
  then show ?thesis
  proof cases
    case 1
    then show ?thesis using g src by auto
  next
    case 2
    then have "match_gateway U now pp p t = Some (True, p', t')" "pp_dst pp = gatewayIPv4"
        "\<not> is_broadcast (pp_dst pp)"
      using assms by (auto simp: match_tx_def Let_def split: if_splits)
    then show ?thesis using match_gateway_cases [of U now pp p t p' t'] g src 2 by auto
  next
    case 3
    then have "fst (Allows p now (pp_dst pp) (pp_proto pp) (pp_dport pp))"
      using assms by (auto simp: match_tx_def Let_def split: if_splits prod.splits)
    then show ?thesis using 3 g src by (auto simp: Allows_route)
  qed
qed

text \<open>A UDP datagram from the guest to 192.168.1.1 port 99, and a policy whose only rule allows it.\<close>

definition eth_ip_udp :: "bytes \<Rightarrow> bytes \<Rightarrow> bytes \<Rightarrow> bytes \<Rightarrow> bytes" where
  "eth_ip_udp src dst ports body =
     replicate 12 0 @ [8, 0] @
     [0x45, 0, 0, 0, 0, 0, 0, 0, 64, 17, 0, 0] @ src @ dst @ ports @ [0, 0, 0, 0] @ body"

definition udp_packet :: "ip4 \<Rightarrow> ip4 \<Rightarrow> u16 \<Rightarrow> u16 \<Rightarrow> bytes \<Rightarrow> parsedPacket" where
  "udp_packet src dst sp dp l4 = \<lparr> pp_src = src, pp_dst = dst, pp_proto = 17, pp_sport = sp, pp_dport = dp,
     pp_l4 = l4, pp_isUDP = True, pp_srcIsDNS = (sp = 53), pp_fragmented = False \<rparr>"

lemma parse_eth_ip_udp:
  assumes "of_nat (unat q + 256 * unat p) = sp" "of_nat (unat s + 256 * unat r) = dp"
  shows "parseFrame (eth_ip_udp [e, f, g, h] [a, b, c, d] [p, q, r, s] body)
    = (udp_packet (IP4 e f g h) (IP4 a b c d) sp dp ([p, q, r, s, 0, 0, 0, 0] @ body), False, True)"
  using assms
  by (simp add: parseFrame_def eth_ip_udp_def udp_packet_def parse_ip_def zero_packet_def BEUint16_def
      etherTypeARP_def etherTypeIPv4_def protoUDP_def ip4_of_def guestIPv4_def replicate_numeral Let_def)

definition lan_rule :: Rule where
  "lan_rule = \<lparr> Deny = False, CIDR = Some (CIDR4 [192, 168, 1, 0] 24), Proto = 17,
     Ports = [\<lparr> pr_Lo = 99, pr_Hi = 99 \<rparr>] \<rparr>"

definition lan_policy :: Policy where
  "lan_policy = zero_policy \<lparr> Rules := [lan_rule] \<rparr>"

definition lan_frame :: bytes where
  "lan_frame = eth_ip_udp [192, 168, 127, 2] [192, 168, 1, 1] [0x12, 0x34, 0, 99] []"

lemma parse_lan_frame:
  "parseFrame lan_frame = (udp_packet guestIPv4 (IP4 192 168 1 1) 4660 99 [0x12, 0x34, 0, 99, 0, 0, 0, 0], False, True)"
  unfolding lan_frame_def guestIPv4_def by (subst parse_eth_ip_udp [where sp = 4660 and dp = 99]) simp_all

lemma CIDRMask_numeral:
  "CIDRMask k (numeral n) = (if 8 \<le> k then 0xff # CIDRMask (k - 8) (pred_numeral n)
     else NOT (drop_bit k 0xff) # CIDRMask 0 (pred_numeral n))"
  by (simp add: numeral_eq_Suc)

lemmas net_eval = Contains_def networkNumberAndMask_def To4_def CIDR4_def CIDRMask_numeral

lemma match_lan_frame: "match_tx U 5 lan_frame lan_policy t = Some (True, lan_policy, t)"
  by (simp add: match_tx_def parse_lan_frame udp_packet_def lan_policy_def zero_policy_def guard_valid_def
      is_broadcast_def subnetBroadcast_def gatewayIPv4_def Allows_def guard_allows_def lan_rule_def
      rule_matches_def net_eval Let_def)

theorem egress_admitted_only_if_witness:
  "route_allowed lan_policy 5 (IP4 192 168 1 1) 17 99"
  using egress_admitted_only_if [OF match_lan_frame parse_lan_frame, of "\<lambda>_. None" newPublishedFlowTable]
  by (simp add: udp_packet_def dhcp_request_def gatewayIPv4_def)

section \<open>The domain filter\<close>

text \<open>A lower-cased name matches a pattern: the same name, or for \<open>*.suffix\<close> the suffix itself or any
  name below it.\<close>

definition name_on :: "string \<Rightarrow> string \<Rightarrow> bool" where
  "name_on d name \<longleftrightarrow> (\<exists>suf. d = ''*.'' @ suf \<and> (name = suf \<or> (\<exists>pre. name = pre @ ''.'' @ suf)))
     \<or> (\<nexists>suf. d = ''*.'' @ suf) \<and> name = d"

lemma domain_loop_iff: "domain_loop ds name \<longleftrightarrow> (\<exists>d \<in> set ds. name_on d name)"
proof (induction ds)
  case (Cons d ds)
  have "name_on d name \<longleftrightarrow>
    (if HasPrefix d ''*.'' then name = drop 2 d \<or> HasSuffix name (''.'' @ drop 2 d) else name = d)"
    by (auto simp: name_on_def HasPrefix_iff HasSuffix_iff)
  then show ?case using Cons by (auto simp: Let_def)
qed simp

lemma domainMatches_iff:
  "domainMatches ds name \<longleftrightarrow> (\<exists>d \<in> set ds. name_on d (ToLower (TrimSuffix name ''.'')))"
  by (simp add: domainMatches_def domain_loop_iff)

text \<open>C4. The domain filter cannot be bypassed. When a name filter or a guard is active, a frame
  admitted to the gateway's port 53 is not a fragment, and if it carries any transport payload then
  the payload is one complete message that unpacks to a query with at least one question, every
  question's name (case folded, without its final dot) is on the allow or resolve list when there is
  one, and the guard allows the name. Over TCP the length prefix must cover the whole segment.\<close>

theorem dns_filter_enforced:
  assumes "match_tx U now frame p t = Some (True, p', t')"
    and "parseFrame frame = (pp, False, True)"
    and "pp_dst pp = gatewayIPv4" and "pp_proto pp = protoUDP \<or> pp_proto pp = protoTCP"
    and "pp_dport pp = 53" and "dnsFilterActive p"
  shows "\<not> pp_fragmented pp \<and>
    (\<not> snd (dnsPayload pp) \<or>
     (\<exists>bs msg. fst (dnsPayload pp) = Some bs \<and> U bs = Some msg \<and> \<not> Response msg \<and> Question msg \<noteq> [] \<and>
        (pp_proto pp = protoTCP \<longrightarrow> unat (BEUint16 (take 2 (drop (tcp_off pp) (pp_l4 pp)))) = length bs) \<and>
        (\<forall>q \<in> set (Question msg).
           (AllowDomains p @ ResolveDomains p = [] \<or>
            (\<exists>d \<in> set (AllowDomains p @ ResolveDomains p). name_on d (ToLower (TrimSuffix q ''.'')))) \<and>
           guard_domainAllowed (p_guard p) now q)))"
proof -
  have "\<not> dhcp_request pp" "\<not> is_broadcast (pp_dst pp)"
    using assms(3,5) by (simp_all add: dhcp_request_def is_broadcast_def gatewayIPv4_def subnetBroadcast_def)
  then have "match_gateway U now pp p t = Some (True, p', t')"
    using assms(1-3) by (auto simp: match_tx_def Let_def split: if_splits)
  then have dns: "matchGatewayDNS U p now pp"
    using assms(4,5) by (auto simp: match_gateway_def split: if_splits option.splits)
  then have frag: "\<not> pp_fragmented pp" and q: "dnsQueryAllowed U p now pp"
    using assms(4,6) by (auto simp: matchGatewayDNS_def split: if_splits)
  show ?thesis
  proof (cases "snd (dnsPayload pp)")
    case True
    then obtain bs msg where m: "fst (dnsPayload pp) = Some bs" "U bs = Some msg" "\<not> Response msg"
        "Question msg \<noteq> []" "list_all (dnsDomainAllowed p now) (Question msg)"
        "pp_proto pp = protoTCP \<longrightarrow> unat (BEUint16 (take 2 (drop (tcp_off pp) (pp_l4 pp)))) = length bs"
      using q unfolding dnsQueryAllowed_def by (auto split: prod.splits option.splits if_splits)
    have "(AllowDomains p @ ResolveDomains p = [] \<or>
            (\<exists>d \<in> set (AllowDomains p @ ResolveDomains p). name_on d (ToLower (TrimSuffix q ''.''))))
          \<and> guard_domainAllowed (p_guard p) now q" if "q \<in> set (Question msg)" for q
      using m(5) that by (auto simp: list_all_iff dnsDomainAllowed_def domainMatches_iff)
    then show ?thesis using m frag by blast
  qed (simp add: frag)
qed

definition hub_policy :: Policy where
  "hub_policy = zero_policy \<lparr> AllowDomains := [''*.docker.io''] \<rparr>"

definition hub_unpack :: unpack where
  "hub_unpack bs = Some \<lparr> Response = False, Question = [''auth.docker.io.''], Answer = [] \<rparr>"

definition hub_frame :: bytes where
  "hub_frame = eth_ip_udp [192, 168, 127, 2] [192, 168, 127, 1] [0x12, 0x34, 0, 53] [1]"

lemma parse_hub_frame:
  "parseFrame hub_frame = (udp_packet guestIPv4 gatewayIPv4 4660 53 [0x12, 0x34, 0, 53, 0, 0, 0, 0, 1], False, True)"
  unfolding hub_frame_def gatewayIPv4_def guestIPv4_def by (subst parse_eth_ip_udp [where sp = 4660 and dp = 53]) simp_all

lemma hub_name: "domainMatches [''*.docker.io''] ''auth.docker.io.''"
  by (simp add: domainMatches_def TrimSuffix_def HasSuffix_def ToLower_def lower_char_def HasPrefix_def Let_def)

lemma match_hub_frame: "match_tx hub_unpack 5 hub_frame hub_policy newPublishedFlowTable
    = Some (True, hub_policy, newPublishedFlowTable)"
  using hub_name
  by (simp add: match_tx_def parse_hub_frame udp_packet_def hub_policy_def zero_policy_def guard_valid_def
      is_broadcast_def subnetBroadcast_def gatewayIPv4_def guestIPv4_def dhcp_request_def match_gateway_def
      invalidatePublishedReturnSYN_def publishedFlowFromReturn_def tcpTupleValid_def protoTCP_def protoUDP_def
      matchGatewayDNS_def dnsFilterActive_def dnsQueryAllowed_def dnsPayload_def hub_unpack_def
      dnsDomainAllowed_def guard_domainAllowed_def)

theorem dns_filter_enforced_witness:
  "\<exists>bs msg. hub_unpack bs = Some msg \<and>
     (\<forall>q \<in> set (Question msg). \<exists>d \<in> set [''*.docker.io'']. name_on d (ToLower (TrimSuffix q ''.'')))"
  using dns_filter_enforced [OF match_hub_frame parse_hub_frame]
  by (auto simp: udp_packet_def protoUDP_def protoTCP_def dnsFilterActive_def hub_policy_def zero_policy_def
      dnsPayload_def)

section \<open>Learned addresses\<close>

definition dynamic_ok :: "(ip4 \<times> Time) list \<Rightarrow> bool" where
  "dynamic_ok dyn \<longleftrightarrow> distinct (map fst dyn) \<and> length dyn \<le> maxDynamic"

lemma answer_ttl_bounds: "0 < answer_ttl secs \<and> answer_ttl secs \<le> dnsMaxTTL"
proof -
  define n where "n = unat secs"
  show ?thesis
    unfolding answer_ttl_def n_def [symmetric] by (auto simp: dnsMaxTTL_def Second_def Let_def)
qed

lemma length_alist_update: "length (AList.update k v xs) \<le> Suc (length xs)"
  by (induction xs) auto

lemma dynamic_ok_update:
  assumes "dynamic_ok dyn"
  shows "dynamic_ok (if length dyn < maxDynamic then AList.update k v dyn else dyn)"
  using assms length_alist_update [of k v dyn] by (auto simp: dynamic_ok_def AList.distinct_update)

lemma learn_ok: "dynamic_ok dyn \<Longrightarrow> dynamic_ok (learn now rrs dyn)"
proof (induction now rrs dyn rule: learn.induct)
  case (3 now ip secs rrs dyn)
  then show ?case using dynamic_ok_update [OF 3(3)] by (auto split: option.split)
qed auto

lemma learn_mem:
  "x \<in> set (learn now rrs dyn) \<Longrightarrow>
    x \<in> set dyn \<or>
    (now < snd x \<and> snd x \<le> now + dnsMaxTTL \<and>
     (\<exists>ip secs v4. RR_A ip secs \<in> set rrs \<and> To4 ip = Some v4 \<and> fst x = ip4_of v4))"
proof (induction now rrs dyn rule: learn.induct)
  case (3 now ip secs rrs dyn)
  show ?case
  proof (cases "To4 ip")
    case None
    then show ?thesis using 3 by auto
  next
    case (Some v4)
    have upd: "y \<in> set (AList.update k v xs) \<Longrightarrow> y \<in> set xs \<or> y = (k, v)"
      for y k v and xs :: "(ip4 \<times> Time) list"
      by (induction xs) (auto split: if_splits)
    show ?thesis
      using 3(2) [OF Some] 3(3) Some upd [of x "ip4_of v4" "now + answer_ttl secs" dyn] answer_ttl_bounds [of secs]
      by (auto split: if_splits)
  qed
qed auto

lemma snoop_dns_cases:
  "snoop_dns U now pp p = p \<or>
    (\<exists>bs msg. pp_src pp = gatewayIPv4 \<and> pp_dst pp = guestIPv4 \<and> fst (dnsPayload pp) = Some bs \<and>
       U bs = Some msg \<and> Response msg \<and> list_ex (domainAllowed p) (Question msg) \<and>
       snoop_dns U now pp p = p \<lparr> p_dynamic := learn now (Answer msg) (p_dynamic p) \<rparr>)"
proof (cases "fst (dnsPayload pp)")
  case None
  then show ?thesis by (simp add: snoop_dns_def)
next
  case (Some bs)
  then show ?thesis by (cases "U bs") (simp_all add: snoop_dns_def)
qed

text \<open>C18. Learning from DNS answers is bounded and justified. An ingress frame changes nothing of a
  policy but its table of learned addresses, which keeps at most 4096 addresses without repetition,
  and every address it adds comes from an A record of a response, sent by the gateway's resolver to
  the guest, to a question whose name is on the allow list; the allowance starts now and ends within
  five minutes.\<close>

theorem learned_allowances_bounded:
  assumes "dynamic_ok (p_dynamic p)" and "observe_rx U now frame p t = Some (p', t')"
  shows "dynamic_ok (p_dynamic p') \<and> p' = p \<lparr> p_dynamic := p_dynamic p' \<rparr> \<and>
    (\<forall>x \<in> set (p_dynamic p'). x \<in> set (p_dynamic p) \<or>
       now < snd x \<and> snd x \<le> now + dnsMaxTTL \<and>
       (\<exists>pp bs msg q ip secs v4. parseFrame frame = (pp, False, True) \<and> pp_src pp = gatewayIPv4 \<and>
          pp_dst pp = guestIPv4 \<and> fst (dnsPayload pp) = Some bs \<and> U bs = Some msg \<and> Response msg \<and>
          q \<in> set (Question msg) \<and> (\<exists>d \<in> set (AllowDomains p). name_on d (ToLower (TrimSuffix q ''.''))) \<and>
          RR_A ip secs \<in> set (Answer msg) \<and> To4 ip = Some v4 \<and> fst x = ip4_of v4))"
proof -
  obtain pp arp ok where pf: "parseFrame frame = (pp, arp, ok)" by (cases "parseFrame frame")
  have arp: "ok \<Longrightarrow> \<not> arp" using pf by (auto simp: parseFrame_def Let_def split: if_splits)
  have p': "p' = p \<or> ok \<and> p' = snoop_dns U now pp p"
    using assms(2) pf by (auto simp: observe_rx_def split: if_splits)
  consider "p' = p" | bs msg where "ok" "pp_src pp = gatewayIPv4" "pp_dst pp = guestIPv4"
      "fst (dnsPayload pp) = Some bs" "U bs = Some msg" "Response msg" "list_ex (domainAllowed p) (Question msg)"
      "p' = p \<lparr> p_dynamic := learn now (Answer msg) (p_dynamic p) \<rparr>"
    using p' snoop_dns_cases [of U now pp p] by metis
  then show ?thesis
  proof cases
    case 1
    then show ?thesis using assms(1) by simp
  next
    case 2
    obtain q where q: "q \<in> set (Question msg)" "\<exists>d \<in> set (AllowDomains p). name_on d (ToLower (TrimSuffix q ''.''))"
      using 2(7) by (auto simp: list_ex_iff domainAllowed_def domainMatches_iff)
    have frame: "parseFrame frame = (pp, False, True)" using pf arp 2(1) by simp
    have mem: "x \<in> set (p_dynamic p) \<or> now < snd x \<and> snd x \<le> now + dnsMaxTTL \<and>
        (\<exists>ip secs v4. RR_A ip secs \<in> set (Answer msg) \<and> To4 ip = Some v4 \<and> fst x = ip4_of v4)"
      if "x \<in> set (p_dynamic p')" for x
      using learn_mem [of x now "Answer msg" "p_dynamic p"] that 2(8) by simp
    have "dynamic_ok (p_dynamic p')" using learn_ok [OF assms(1)] 2(8) by simp
    moreover have "p' = p \<lparr> p_dynamic := p_dynamic p' \<rparr>" using 2(8) by simp
    ultimately show ?thesis
    proof (intro conjI ballI)
      fix x
      assume x: "x \<in> set (p_dynamic p')"
      show "x \<in> set (p_dynamic p) \<or>
       now < snd x \<and> snd x \<le> now + dnsMaxTTL \<and>
       (\<exists>pp bs msg q ip secs v4. parseFrame frame = (pp, False, True) \<and> pp_src pp = gatewayIPv4 \<and>
          pp_dst pp = guestIPv4 \<and> fst (dnsPayload pp) = Some bs \<and> U bs = Some msg \<and> Response msg \<and>
          q \<in> set (Question msg) \<and> (\<exists>d \<in> set (AllowDomains p). name_on d (ToLower (TrimSuffix q ''.''))) \<and>
          RR_A ip secs \<in> set (Answer msg) \<and> To4 ip = Some v4 \<and> fst x = ip4_of v4)"
        using mem [OF x] frame 2(2-6) q by (elim disjE conjE exE) (rule disjI1, assumption, intro disjI2 conjI exI)
    qed
  qed
qed

definition hub_answer :: unpack where
  "hub_answer bs = Some \<lparr> Response = True, Question = [''auth.docker.io.''], Answer = [RR_A [3, 4, 5, 6] 60] \<rparr>"

definition hub_reply :: bytes where
  "hub_reply = eth_ip_udp [192, 168, 127, 1] [192, 168, 127, 2] [0, 53, 0x12, 0x34] [1]"

lemma parse_hub_reply:
  "parseFrame hub_reply = (udp_packet gatewayIPv4 guestIPv4 53 4660 [0, 53, 0x12, 0x34, 0, 0, 0, 0, 1], False, True)"
  unfolding hub_reply_def gatewayIPv4_def guestIPv4_def
  by (subst parse_eth_ip_udp [where sp = 53 and dp = 4660]) simp_all

lemma observe_hub_reply:
  "observe_rx hub_answer 5 hub_reply hub_policy t =
    Some (hub_policy \<lparr> p_dynamic := [(IP4 3 4 5 6, 60000000005)] \<rparr>, t)"
  using hub_name
  by (simp add: observe_rx_def parse_hub_reply udp_packet_def observePublishedIngress_def
      publishedFlowFromIngress_def tcpTupleValid_def protoTCP_def protoUDP_def snoop_dns_def hub_policy_def
      zero_policy_def dnsPayload_def hub_answer_def domainAllowed_def To4_def maxDynamic_def ip4_of_def
      answer_ttl_def dnsMaxTTL_def Second_def Let_def)

theorem learned_allowances_bounded_witness:
  "dynamic_ok [(IP4 3 4 5 6, 60000000005)]"
  using learned_allowances_bounded [OF _ observe_hub_reply]
  by (simp add: dynamic_ok_def hub_policy_def zero_policy_def maxDynamic_def)

section \<open>Replacing a policy\<close>

text \<open>C16. Replacing a live policy takes effect at once, keeps the tracked flows, and cannot drop the
  organization guard. After \<open>Replace\<close> every entry point reached through the stable holder works on
  the replacement generation with the very flow table the old generation used, with its contents
  unchanged; the replacement keeps its own rules, lists and learned addresses; and it carries the
  old generation's guard whenever that had one.\<close>

theorem replace_keeps_flows_and_guard:
  assumes "Replace s (Some p) (Some n) = Some s'"
    and "p_active (ns_policy s (current s p)) = None \<or> current s p = p"
    and "p_active (ns_policy s (current s n)) = None" and "current s n \<noteq> p"
    and "p_publishedFlows (ns_policy s (current s p)) = Some r"
  shows "resolve s' p = Some (current s n) \<and>
    policy_table s' (current s n) = (s', r) \<and> ns_table s' = ns_table s \<and>
    ns_policy s' (current s n) = (ns_policy s (current s n))
      \<lparr> p_publishedFlows := Some r,
        p_guard := (case p_guard (ns_policy s (current s p)) of
                      None \<Rightarrow> p_guard (ns_policy s (current s n)) | Some g \<Rightarrow> Some g) \<rparr>"
proof -
  define c where "c = current s p"
  define q where "q = current s n"
  have cc: "current s c = c"
    using assms(2) by (auto simp: c_def current_def split: option.splits)
  define s1 where "s1 = InheritGuard s (Some q) (Some c)"
  have guard: "p_guard (ns_policy s1 q) = (case p_guard (ns_policy s c) of
      None \<Rightarrow> p_guard (ns_policy s q) | Some g \<Rightarrow> Some g)"
    and same: "ns_policy s1 q = (ns_policy s q) \<lparr> p_guard := p_guard (ns_policy s1 q) \<rparr>"
    and other: "\<And>k. k \<noteq> q \<Longrightarrow> ns_policy s1 k = ns_policy s k"
    and tbl: "ns_table s1 = ns_table s"
    by (auto simp: s1_def InheritGuard_def cc split: option.splits)
  have flows: "p_publishedFlows (ns_policy s1 c) = Some r"
    using assms(5) same other [of c] unfolding c_def [symmetric]
    by (cases "c = q") (metis Policy.select_convs(9) Policy.surjective Policy.update_convs(1), simp)
  have s': "s' = s1 \<lparr> ns_policy := (ns_policy s1)(q := ns_policy s1 q \<lparr> p_publishedFlows := Some r \<rparr>,
      p := (ns_policy s1 p) \<lparr> p_active := Some q \<rparr>) \<rparr>"
    using assms(1,4) flows
    by (auto simp: Replace_def policy_replace_def policy_table_def c_def [symmetric] q_def [symmetric]
        s1_def [symmetric] Let_def)
  have "p_active (ns_policy s' q) = None" "p_active (ns_policy s' p) = Some q"
    using assms(3,4) same
    by (auto simp: s' q_def [symmetric]) (metis Policy.select_convs(10) Policy.surjective Policy.update_convs(1))
  then have "resolve s' p = Some q"
    using assms(4) by (subst resolve.simps, subst resolve.simps) (auto simp: current_def q_def)
  moreover have "ns_policy s' q = (ns_policy s q) \<lparr> p_publishedFlows := Some r, p_guard := p_guard (ns_policy s1 q) \<rparr>"
    using assms(4) same by (simp add: s' q_def [symmetric]) (metis Policy.update_convs(1,9) Policy.surjective)
  moreover have "policy_table s' q = (s', r)"
    using assms(4) by (simp add: policy_table_def s' q_def [symmetric])
  moreover have "ns_table s' = ns_table s" by (simp add: s' tbl)
  ultimately show ?thesis unfolding c_def [symmetric] q_def [symmetric] using guard by simp
qed

definition empty_store :: NetStore where
  "empty_store = \<lparr> ns_policy = (\<lambda>_. zero_policy), ns_table = (\<lambda>_. newPublishedFlowTable), ns_fresh = 0 \<rparr>"

definition two_policies :: NetStore where
  "two_policies = fst (new_policy lan_policy (fst (DefaultPolicy empty_store)))"

lemma two_policies_simps [simp]:
  "current two_policies 0 = 0" "current two_policies (Suc 0) = Suc 0"
  "p_active (ns_policy two_policies 0) = None" "p_active (ns_policy two_policies (Suc 0)) = None"
  "p_publishedFlows (ns_policy two_policies 0) = Some 0"
  by (simp_all add: two_policies_def new_policy_def DefaultPolicy_def empty_store_def current_def)

lemma two_policies_replace: "\<exists>s'. Replace two_policies (Some 0) (Some 1) = Some s'"
  by (simp add: Replace_def policy_replace_def case_prod_beta Let_def)

theorem replace_keeps_flows_and_guard_witness:
  "\<exists>s'. Replace two_policies (Some 0) (Some 1) = Some s' \<and> resolve s' 0 = Some 1 \<and> policy_table s' 1 = (s', 0)"
proof -
  obtain s' where s': "Replace two_policies (Some 0) (Some 1) = Some s'" using two_policies_replace by blast
  then show ?thesis using replace_keeps_flows_and_guard [OF s'] by simp
qed

section \<open>Publishing UDP ports\<close>

lemma AllowsGatewayUDPReplies_iff:
  "AllowsGatewayUDPReplies p now \<longleftrightarrow>
    (\<forall>port. GatewayUDPFirstReplyPort \<le> port \<and> port \<le> GatewayUDPLastReplyPort \<longrightarrow>
      reply_port_allowed p now (of_nat port))"
  unfolding AllowsGatewayUDPReplies_def list_all_iff set_upt by (auto simp: less_Suc_eq_le)

text \<open>C20. The check made before a UDP port is published is sound for the data path. If it accepts a
  policy, every unfragmented UDP reply of the guest to the gateway on a port the gateway may use
  (16000 to 65535) is let out by \<open>MatchTX\<close>, whatever the flow table and the learned addresses hold.\<close>

theorem udp_publishing_sound:
  assumes "ValidateUDPPortPublishing (Some p) now"
    and "parseFrame frame = (pp, False, True)"
    and "pp_src pp = guestIPv4" and "pp_dst pp = gatewayIPv4" and "pp_proto pp = protoUDP"
    and "\<not> pp_fragmented pp" and "GatewayUDPFirstReplyPort \<le> unat (pp_dport pp)"
  shows "\<exists>p'. match_tx U now frame p t = Some (True, p', t)"
proof -
  have "unat (pp_dport pp) \<le> GatewayUDPLastReplyPort"
    using unat_less_2p [of "pp_dport pp"] by (simp add: GatewayUDPLastReplyPort_def)
  then have "reply_port_allowed p now (of_nat (unat (pp_dport pp)))"
    using assms(1,7) by (simp only: ValidateUDPPortPublishing_def AllowsGatewayUDPReplies_iff option.case)
  then have ok: "reply_port_allowed p now (pp_dport pp)" by simp
  then have g: "guard_allows (p_guard p) now gatewayIPv4 protoUDP (pp_dport pp)"
    by (auto simp: reply_port_allowed_def split: if_splits)
  then have v: "guard_valid (p_guard p) now"
    by (auto simp: guard_allows_def guard_valid_def split: option.splits if_splits)
  have nodhcp: "\<not> dhcp_request pp" "pp_dport pp \<noteq> 53"
    using assms(7) by (auto simp: dhcp_request_def GatewayUDPFirstReplyPort_def)
  have nb: "\<not> is_broadcast (pp_dst pp)"
    using assms(4) by (simp add: is_broadcast_def gatewayIPv4_def subnetBroadcast_def)
  have inv: "invalidatePublishedReturnSYN pp t = Some t"
    using assms(5) by (simp add: invalidatePublishedReturnSYN_def publishedFlowFromReturn_def
        tcpTupleValid_def protoUDP_def protoTCP_def)
  have udp: "protoUDP \<noteq> protoTCP" by (simp add: protoUDP_def protoTCP_def)
  have "fst (Allows p now gatewayIPv4 protoUDP (pp_dport pp))"
    if "explicitRuleVerdict (Rules p) gatewayIPv4 protoUDP (pp_dport pp) = None"
    using ok that g by (auto simp: Allows_route route_allowed_def reply_port_allowed_def split: if_splits)
  then have "\<exists>p'. match_gateway U now pp p t = Some (True, p', t)"
    using ok g inv nodhcp assms(4,5) udp
    by (cases "Allows p now gatewayIPv4 protoUDP (pp_dport pp)")
      (auto simp: match_gateway_def reply_port_allowed_def split: option.split bool.split)
  then show ?thesis
    using assms nodhcp nb v by (simp add: match_tx_def Let_def)
qed

definition reply_policy :: Policy where
  "reply_policy = zero_policy \<lparr> Rules := [\<lparr> Deny = False, CIDR = None, Proto = 17,
     Ports = [\<lparr> pr_Lo = 16000, pr_Hi = 65535 \<rparr>] \<rparr>] \<rparr>"

lemma reply_policy_publishes: "ValidateUDPPortPublishing (Some reply_policy) now"
proof -
  have "reply_port_allowed reply_policy now (of_nat port)" if "16000 \<le> port" "port \<le> 65535" for port
  proof -
    have "unat (of_nat port :: u16) = port" using that by (simp add: unat_of_nat)
    then have "16000 \<le> (of_nat port :: u16)" "(of_nat port :: u16) \<le> 65535"
      using that by (simp_all add: word_le_nat_alt)
    then show ?thesis
      by (simp add: reply_port_allowed_def reply_policy_def zero_policy_def guard_allows_def rule_matches_def protoUDP_def)
  qed
  then show ?thesis
    by (simp add: ValidateUDPPortPublishing_def AllowsGatewayUDPReplies_iff
        GatewayUDPFirstReplyPort_def GatewayUDPLastReplyPort_def)
qed

definition reply_frame :: bytes where
  "reply_frame = eth_ip_udp [192, 168, 127, 2] [192, 168, 127, 1] [0, 99, 0xff, 0] []"

lemma parse_reply_frame:
  "parseFrame reply_frame = (udp_packet guestIPv4 gatewayIPv4 99 0xff00 [0, 99, 0xff, 0, 0, 0, 0, 0], False, True)"
  unfolding reply_frame_def gatewayIPv4_def guestIPv4_def
  by (subst parse_eth_ip_udp [where sp = 99 and dp = "0xff00"]) simp_all

theorem udp_publishing_sound_witness:
  "\<exists>p'. match_tx (\<lambda>_. None) 5 reply_frame reply_policy newPublishedFlowTable = Some (True, p', newPublishedFlowTable)"
  using udp_publishing_sound [OF reply_policy_publishes parse_reply_frame]
  by (simp add: udp_packet_def protoUDP_def GatewayUDPFirstReplyPort_def)

end
