(* ===== verification/Netpol_Config_Correct.thy ===== *)
theory Netpol_Config_Correct
  imports Netpol_Config Netpol_Correct
begin

text \<open>
  What the configuration code guarantees: a parsed policy is well formed (so that the enforcement
  code meets no nil network and no empty port range), a policy survives the hand-over to the network
  worker, the frames the fail-closed barrier lets out are listed exactly, and an edited rule overrides
  exactly the traffic it names.
\<close>

unbundle bit_operations_syntax

section \<open>Well-formed policies\<close>

definition rule_wf :: "Rule \<Rightarrow> bool" where
  "rule_wf r \<longleftrightarrow> Proto r \<in> {0, protoTCP, protoUDP, protoICMP} \<and> (\<forall>pr \<in> set (Ports r). pr_Lo pr \<le> pr_Hi pr)"

definition guard_wf :: "networkGuard \<Rightarrow> bool" where
  "guard_wf g \<longleftrightarrow> parseGuard (g_spec g) = Inr g \<and>
     (\<forall>r \<in> set (g_rules g). rule_wf r \<and> CIDR r \<noteq> None)"

definition policy_wf :: "Policy \<Rightarrow> bool" where
  "policy_wf p \<longleftrightarrow> (\<forall>r \<in> set (Rules p). rule_wf r) \<and>
     (\<forall>g. p_guard p = Some g \<longrightarrow> guard_wf g) \<and>
     (\<forall>d \<in> set (AllowDomains p @ ResolveDomains p). d \<noteq> [] \<and> ToLower d = d) \<and>
     hasPortScopedDeny p = port_scoped_deny (Rules p)"

lemma map_err_set: "map_err f xs = Inr ys \<Longrightarrow> y \<in> set ys \<Longrightarrow> \<exists>x \<in> set xs. f x = Inr y"
  by (induction xs arbitrary: ys) (auto split: sum.splits)

lemma map_err_fix: "(\<And>y. y \<in> set ys \<Longrightarrow> f (g y) = Inr y) \<Longrightarrow> map_err f (map g ys) = Inr ys"
  by (induction ys) auto

lemma map_err_id: "(\<And>y. y \<in> set ys \<Longrightarrow> f y = Inr y) \<Longrightarrow> map_err f ys = Inr ys"
  using map_err_fix [of ys f id] by simp

lemma parsePortRange_ordered: "parsePortRange s = Inr pr \<Longrightarrow> pr_Lo pr \<le> pr_Hi pr"
  by (auto simp: parsePortRange_def Let_def split: option.splits if_splits)

lemma parse_rule_wf: "parse_rule fr = Inr r \<Longrightarrow> rule_wf r"
proof -
  assume pr: "parse_rule fr = Inr r"
  then have proto: "parse_proto (fr_Proto fr) = Inr (Proto r)" and ports: "parse_ports (fr_Ports fr) = Inr (Ports r)"
    by (auto simp: parse_rule_def split: sum.splits)
  have "Proto r \<in> {0, protoTCP, protoUDP, protoICMP}"
    using proto by (auto simp: parse_proto_def split: if_splits)
  moreover have "pr_Lo q \<le> pr_Hi q" if "q \<in> set (Ports r)" for q
    using ports that map_err_set [of _ _ "Ports r" q] parsePortRange_ordered
    by (fastforce simp: parse_ports_def split: if_splits)
  ultimately show ?thesis by (simp add: rule_wf_def)
qed

lemma normalizeDomain_wf: "normalizeDomain x = Inr d \<Longrightarrow> d \<noteq> [] \<and> ToLower d = d"
  by (auto simp: normalizeDomain_def Let_def split: if_splits)

section \<open>A canonical IPv4 prefix is a network\<close>

lemma length_ip6_group:
  "ip6_group s ip el = Some (go, s1, ip1, el1) \<Longrightarrow> length ip < 16 \<Longrightarrow> even (length ip) \<Longrightarrow>
    length ip1 \<le> 16 \<and> even (length ip1)"
  by (auto simp: ip6_group_def ip6_next_def parseIPv4_def Let_def split: if_splits list.splits option.splits)

lemma length_ip6_loop:
  "ip6_loop n s ip el = Some (s1, ip1, el1) \<Longrightarrow> length ip \<le> 16 \<Longrightarrow> even (length ip) \<Longrightarrow> length ip1 \<le> 16"
proof (induction n arbitrary: s ip el)
  case (Suc n)
  show ?case
  proof (cases "16 \<le> length ip")
    case True
    then show ?thesis using Suc.prems by simp
  next
    case False
    then obtain go s2 ip2 el2 where g: "ip6_group s ip el = Some (go, s2, ip2, el2)"
      using Suc.prems(1) by (cases "ip6_group s ip el") auto
    moreover have "length ip2 \<le> 16 \<and> even (length ip2)"
      using length_ip6_group [OF g] False Suc.prems by simp
    ultimately show ?thesis using Suc False by (cases go) auto
  qed
qed simp

lemma length_parseIPv6: "parseIPv6 s = Some ip \<Longrightarrow> length ip = 16"
  using length_ip6_loop [of 8 _ "[]"]
  by (fastforce simp: parseIPv6_def Let_def split: if_splits option.splits)

lemma Split_set: "c \<in> set s \<Longrightarrow> c \<noteq> sep \<Longrightarrow> \<exists>w \<in> set (Split sep s). c \<in> set w"
  by (induction sep s rule: Split.induct) (auto split: list.splits)

lemma parseIPv4_digits:
  assumes "parseIPv4 s = Some ip" "c \<in> set s" "c \<noteq> CHR ''.''"
  shows "is_digit c"
proof -
  obtain w where w: "w \<in> set (Split CHR ''.'' s)" "c \<in> set w" using Split_set assms(2,3) by blast
  have "\<forall>w \<in> set (Split CHR ''.'' s). octet w \<noteq> None"
    using assms(1) by (auto simp: parseIPv4_def split: list.splits option.splits)
  then have "list_all is_digit w" using w(1) by (auto simp: octet_def split: if_splits)
  then show ?thesis using w(2) by (simp add: list_all_iff)
qed

lemma ParseAddr_no_slash:
  assumes "ParseAddr a = Some ip" "length ip = 4"
  shows "CHR ''/'' \<notin> set a"
proof -
  have "parseIPv4 a = Some ip"
    using assms length_parseIPv6 [of a ip] by (auto simp: ParseAddr_def split: list.splits if_splits)
  then show ?thesis using parseIPv4_digits [of a ip "CHR ''/''"] is_digit_not by fastforce
qed

lemma ParsePrefix4_ParseCIDR:
  assumes "ParsePrefix4 s = Some (ip, k)"
  shows "ParseCIDR s = Some (CIDR4 ip k)"
proof -
  define bits where "bits = rev (takeWhile (\<lambda>c. c \<noteq> CHR ''/'') (rev s))"
  define addr where "addr = take (length s - length bits - 1) s"
  have slash: "CHR ''/'' \<in> set s" and ip: "ParseAddr addr = Some ip" "length ip = 4"
    and bits: "bits \<noteq> []" "list_all is_digit bits" "dec_value bits \<le> 32" "dec_value bits = k"
    using assms unfolding ParsePrefix4_def Let_def bits_def [symmetric] addr_def [symmetric]
    by (auto split: if_splits option.splits)
  obtain pre post where s': "s = pre @ CHR ''/'' # post" "CHR ''/'' \<notin> set post"
    using split_list_last [OF slash] by blast
  have "takeWhile (\<lambda>c. c \<noteq> CHR ''/'') (rev post @ CHR ''/'' # rev pre) = rev post"
    using s'(2) by (subst takeWhile_append2) auto
  then have "bits = post" by (simp add: bits_def s'(1))
  then have s: "s = pre @ CHR ''/'' # bits" and addr: "addr = pre"
    by (simp_all add: s'(1) addr_def)
  have "CHR ''/'' \<notin> set addr" using ParseAddr_no_slash [OF ip] .
  then have ne: "\<And>c. c \<in> set addr \<Longrightarrow> c \<noteq> CHR ''/''" by blast
  have "takeWhile (\<lambda>c. c \<noteq> CHR ''/'') (addr @ CHR ''/'' # bits) = addr"
    using ne by (subst takeWhile_append2) auto
  moreover have "dropWhile (\<lambda>c. c \<noteq> CHR ''/'') (addr @ CHR ''/'' # bits) = CHR ''/'' # bits"
    using ne by (subst dropWhile_append2) auto
  ultimately show ?thesis
    using ip bits by (simp add: s addr [symmetric] ParseCIDR_def CIDR4_def)
qed

lemma validate_guard_rules_None:
  "validate_guard_rules seen rs = None \<Longrightarrow> r \<in> set rs \<Longrightarrow> validate_guard_rule r = None"
  by (induction seen rs rule: validate_guard_rules.induct) (auto split: if_splits option.splits)

lemma guard_rule_wf:
  assumes "validate_guard_rule r = None"
  shows "rule_wf (guard_rule r) \<and> CIDR (guard_rule r) \<noteq> None"
proof -
  have "ParsePrefix4 (gr_CIDR r) \<noteq> None"
    using assms by (auto simp: validate_guard_rule_def split: if_splits option.splits)
  then have "ParseCIDR (gr_CIDR r) \<noteq> None" using ParsePrefix4_ParseCIDR by fastforce
  then show ?thesis by (auto simp: guard_rule_def rule_wf_def)
qed

lemma parseGuard_wf:
  assumes "parseGuard spec = Inr g"
  shows "guard_wf g"
proof -
  have g: "ValidateGuard spec = None" "g = \<lparr> g_spec = spec, g_rules = map guard_rule (gs_Rules spec) \<rparr>"
    using assms by (auto simp: parseGuard_def split: option.splits)
  then have "validate_guard_rules [] (gs_Rules spec) = None"
    by (auto simp: ValidateGuard_def split: if_splits option.splits)
  then show ?thesis
    using g assms validate_guard_rules_None guard_rule_wf by (auto simp: guard_wf_def)
qed

text \<open>C24. Whatever policy file is accepted, the resulting policy is well formed: every rule's protocol
  is any, TCP, UDP or ICMP and its port ranges are ordered; an attached guard is the one its own
  specification parses to and each of its rules has a network, so that enforcement never consults a
  nil network; every listed domain is non-empty and lower case; the cached port-scoped-deny flag is
  the truth about the rules; and no address is learned yet.\<close>

theorem parse_wellformed:
  assumes "Parse fp = Inr p"
  shows "policy_wf p \<and> p_dynamic p = []"
proof -
  obtain g dflt rs ad rd where
      g: "parse_guard_opt (fp_Guard fp) = Inr g" and rs: "map_err parse_rule (fp_Rules fp) = Inr rs"
      and ad: "map_err normalizeDomain (fp_AllowDomains fp) = Inr ad"
      and rd: "map_err normalizeDomain (fp_ResolveDomains fp) = Inr rd"
      and p: "p = zero_policy \<lparr> p_guard := g, DefaultAllow := dflt, Rules := rs, AllowDomains := ad, ResolveDomains := rd,
             AllowLocal := (case fp_AllowLocal fp of None \<Rightarrow> False | Some b \<Rightarrow> b),
             hasPortScopedDeny := port_scoped_deny rs \<rparr>"
    using assms by (auto simp: Parse_def split: sum.splits)
  have "\<forall>r \<in> set rs. rule_wf r" using map_err_set [OF rs] parse_rule_wf by blast
  moreover have "\<forall>gd. g = Some gd \<longrightarrow> guard_wf gd"
    using g parseGuard_wf by (auto simp: parse_guard_opt_def split: option.splits sum.splits)
  moreover have "\<forall>d \<in> set (ad @ rd). d \<noteq> [] \<and> ToLower d = d"
    using map_err_set [OF ad] map_err_set [OF rd] normalizeDomain_wf by fastforce
  ultimately show ?thesis by (simp add: p policy_wf_def zero_policy_def)
qed

definition file_sample :: filePolicy where
  "file_sample = \<lparr> fp_Guard = None, fp_Default = ''deny'', fp_AllowLocal = None,
     fp_Rules = [\<lparr> fr_Action = '''', fr_CIDR = '''', fr_Proto = ''tcp'', fr_Ports = ''443'' \<rparr>],
     fp_AllowDomains = [''Docker.io.''], fp_ResolveDomains = [] \<rparr>"

definition policy_sample :: Policy where
  "policy_sample = zero_policy \<lparr> Rules := [\<lparr> Deny = False, CIDR = None, Proto = 6,
     Ports = [\<lparr> pr_Lo = 443, pr_Hi = 443 \<rparr>] \<rparr>], AllowDomains := [''docker.io''] \<rparr>"

lemma file_sample_parses: "Parse file_sample = Inr policy_sample"
  by (simp add: Parse_def file_sample_def policy_sample_def parse_guard_opt_def parse_default_def parse_rule_def
      parse_action_def parse_cidr_def parse_proto_def parse_ports_def parsePortRange_def ParseUint16_def
      TrimSpace_def is_space_def is_digit_def dec_value_def digit_val_def normalizeDomain_def TrimSuffix_def
      HasSuffix_def ToLower_def lower_char_def port_scoped_deny_def zero_policy_def protoTCP_def Let_def char_of_def bit_Suc_0_iff)

theorem parse_wellformed_witness: "policy_wf policy_sample"
  using parse_wellformed [OF file_sample_parses] by blast

section \<open>Handing a policy over\<close>

lemma print_port_plain:
  "print_port pr \<noteq> []" "CHR '','' \<notin> set (print_port pr)" "TrimSpace (print_port pr) = print_port pr"
proof -
  show ne: "print_port pr \<noteq> []" by (simp add: print_port_def)
  have digit: "c \<noteq> CHR '','' \<and> \<not> is_space c" if "c \<in> set (Itoa n)" for c n
    using is_digit_not [OF Itoa_set [OF that]] by blast
  show "CHR '','' \<notin> set (print_port pr)" using digit by (auto simp: print_port_def)
  have "hd (print_port pr) \<in> set (Itoa (unat (pr_Lo pr)))"
    by (simp add: print_port_def)
  moreover have "last (print_port pr) \<in> set (Itoa (unat (pr_Hi pr)))"
    by (simp add: print_port_def)
  ultimately show "TrimSpace (print_port pr) = print_port pr"
    using ne digit by (intro TrimSpace_id) auto
qed

lemma parse_print_port:
  assumes "pr_Lo pr \<le> pr_Hi pr"
  shows "parsePortRange (print_port pr) = Inr pr"
proof -
  have dash: "c \<noteq> CHR ''-''" if "c \<in> set (Itoa n)" for c n
    using is_digit_not [OF Itoa_set [OF that]] by blast
  show ?thesis
  proof (cases "pr_Lo pr = pr_Hi pr")
    case True
    then show ?thesis
      using dash by (auto simp: print_port_def parsePortRange_def Let_def)
  next
    case False
    let ?lo = "Itoa (unat (pr_Lo pr))" and ?hi = "Itoa (unat (pr_Hi pr))"
    have "takeWhile (\<lambda>c. c \<noteq> CHR ''-'') (?lo @ CHR ''-'' # ?hi) = ?lo"
      using dash by (subst takeWhile_append2) auto
    moreover have "dropWhile (\<lambda>c. c \<noteq> CHR ''-'') (?lo @ CHR ''-'' # ?hi) = CHR ''-'' # ?hi"
      using dash by (subst dropWhile_append2) auto
    ultimately show ?thesis
      using False assms by (simp add: print_port_def parsePortRange_def Let_def not_less [symmetric])
  qed
qed

lemma parse_print_ports:
  assumes "\<forall>pr \<in> set prs. pr_Lo pr \<le> pr_Hi pr"
  shows "parse_ports (Join CHR '','' (map print_port prs)) = Inr prs"
proof (cases prs)
  case Nil
  then show ?thesis by (simp add: parse_ports_def)
next
  case (Cons pr rest)
  have "Join CHR '','' (map print_port prs) \<noteq> []"
    using print_port_plain(1) by (cases rest) (simp_all add: Cons)
  moreover have "Split CHR '','' (Join CHR '','' (map print_port prs)) = map print_port prs"
    using print_port_plain(2) by (intro Split_Join) (auto simp: Cons)
  moreover have "map_err (\<lambda>spec. parsePortRange (TrimSpace spec)) (map print_port prs) = Inr prs"
    using assms print_port_plain(3) parse_print_port by (intro map_err_fix) simp
  ultimately show ?thesis by (simp add: parse_ports_def)
qed

definition rule_v4 :: "Rule \<Rightarrow> bool" where
  "rule_v4 r \<longleftrightarrow> (case CIDR r of None \<Rightarrow> True | Some c \<Rightarrow> net4 c)"

lemma parse_print_rule:
  assumes "rule_wf r" "rule_v4 r"
  shows "parse_rule (print_rule r) = Inr r"
proof -
  have "parse_action (if Deny r then ''deny'' else '''') = Inr (Deny r)" by (simp add: parse_action_def)
  moreover have "parse_proto (print_proto (Proto r)) = Inr (Proto r)"
    using assms(1) by (auto simp: rule_wf_def parse_proto_def print_proto_def protoTCP_def protoUDP_def protoICMP_def)
  moreover have "parse_cidr (case CIDR r of None \<Rightarrow> '''' | Some c \<Rightarrow> IPNet_String c) = Inr (CIDR r)"
  proof (cases "CIDR r")
    case (Some c)
    then have rt: "ParseCIDR (IPNet_String c) = Some c"
      using assms(2) ParseCIDR_String by (simp add: rule_v4_def)
    then have "IPNet_String c \<noteq> []" by (auto simp: ParseCIDR_def)
    then show ?thesis using Some rt by (simp add: parse_cidr_def)
  qed (simp add: parse_cidr_def)
  moreover have "parse_ports (Join CHR '','' (map print_port (Ports r))) = Inr (Ports r)"
    using assms(1) by (intro parse_print_ports) (simp add: rule_wf_def)
  ultimately show ?thesis by (simp add: parse_rule_def print_rule_def)
qed

text \<open>C26. Handing a policy to the network worker loses nothing. A well-formed policy over IPv4 networks
  whose domains are in normal form is read back from its file form as the same policy: the same guard,
  default, rules in the same order, domain lists, local-network posture and port-scoped-deny flag;
  only the learned addresses and the pointers of the live object start afresh.\<close>

theorem marshal_parse_roundtrip:
  assumes "policy_wf p" and "\<forall>r \<in> set (Rules p). rule_v4 r"
    and "\<forall>d \<in> set (AllowDomains p @ ResolveDomains p). normalizeDomain d = Inr d"
  shows "Parse (Marshal p) = Inr (p \<lparr> p_dynamic := [], p_publishedFlows := None, p_active := None \<rparr>)"
proof -
  have "map_err parse_rule (map print_rule (Rules p)) = Inr (Rules p)"
    using assms(1,2) parse_print_rule by (intro map_err_fix) (auto simp: policy_wf_def)
  moreover have "map_err normalizeDomain (AllowDomains p) = Inr (AllowDomains p)"
    "map_err normalizeDomain (ResolveDomains p) = Inr (ResolveDomains p)"
    using assms(3) by (auto intro: map_err_id)
  moreover have "parse_guard_opt (map_option g_spec (p_guard p)) = Inr (p_guard p)"
    using assms(1) by (cases "p_guard p") (auto simp: parse_guard_opt_def policy_wf_def guard_wf_def)
  moreover have "parse_default (if DefaultAllow p then '''' else ''deny'') = Inr (DefaultAllow p)"
    by (simp add: parse_default_def)
  moreover have "hasPortScopedDeny p = port_scoped_deny (Rules p)" using assms(1) by (simp add: policy_wf_def)
  ultimately show ?thesis by (auto simp: Parse_def Marshal_def zero_policy_def)
qed

theorem marshal_parse_roundtrip_witness: "Parse (Marshal policy_sample) = Inr policy_sample"
proof -
  have wf: "policy_wf policy_sample"
    by (simp add: policy_wf_def policy_sample_def zero_policy_def rule_wf_def protoTCP_def port_scoped_deny_def
        ToLower_def lower_char_def)
  have "normalizeDomain ''docker.io'' = Inr ''docker.io''"
    by (simp add: normalizeDomain_def TrimSpace_def is_space_def TrimSuffix_def HasSuffix_def ToLower_def
        lower_char_def Let_def)
  then have "\<forall>d \<in> set (AllowDomains policy_sample @ ResolveDomains policy_sample). normalizeDomain d = Inr d"
    and "\<forall>r \<in> set (Rules policy_sample). rule_v4 r"
    by (simp_all add: policy_sample_def zero_policy_def rule_v4_def)
  then have "Parse (Marshal policy_sample) =
      Inr (policy_sample \<lparr> p_dynamic := [], p_publishedFlows := None, p_active := None \<rparr>)"
    using marshal_parse_roundtrip [OF wf] by blast
  then show ?thesis by (simp add: policy_sample_def zero_policy_def)
qed

text \<open>A domain written with two trailing dots is stored with one, and reading the stored form again drops
  that one too: normalization is not idempotent.\<close>

lemma normalize_not_idempotent:
  "normalizeDomain ''a..'' = Inr ''a.'' \<and> normalizeDomain ''a.'' = Inr ''a''"
  by (simp add: normalizeDomain_def TrimSpace_def is_space_def TrimSuffix_def HasSuffix_def ToLower_def
      lower_char_def Let_def)

section \<open>The fail-closed barrier\<close>

lemma parse_gateway_cidr: "ParseCIDR ''192.168.127.1/32'' = Some (CIDR4 [192, 168, 127, 1] 32)"
  by (simp add: ParseCIDR_def ParseAddr_def parseIPv4_def octet_def is_digit_def dec_value_def digit_val_def
      CIDR4_def CIDRMask_numeral Let_def)

lemma parse_reply_ports:
  "parse_ports (Itoa GatewayUDPFirstReplyPort @ ''-'' @ Itoa GatewayUDPLastReplyPort)
    = Inr [\<lparr> pr_Lo = 16000, pr_Hi = 65535 \<rparr>]"
proof -
  have "Itoa GatewayUDPFirstReplyPort @ ''-'' @ Itoa GatewayUDPLastReplyPort
    = print_port \<lparr> pr_Lo = 16000, pr_Hi = 65535 \<rparr>"
    by (simp add: print_port_def GatewayUDPFirstReplyPort_def GatewayUDPLastReplyPort_def)
  then show ?thesis using parse_print_ports [of "[\<lparr> pr_Lo = 16000, pr_Hi = 65535 \<rparr>]"] by simp
qed

definition barrier :: "bool \<Rightarrow> Policy" where
  "barrier replies = zero_policy \<lparr> Rules := (if replies
     then [\<lparr> Deny = False, CIDR = Some (CIDR4 [192, 168, 127, 1] 32), Proto = 17,
             Ports = [\<lparr> pr_Lo = 16000, pr_Hi = 65535 \<rparr>] \<rparr>] else []) \<rparr>"

lemma FailClosedPolicy_eq: "FailClosedPolicy replies = Inr (barrier replies)"
  using parse_gateway_cidr parse_reply_ports
  by (simp add: FailClosedPolicy_def barrier_def Parse_def parse_guard_opt_def parse_default_def parse_rule_def
      parse_action_def parse_cidr_def parse_proto_def protoUDP_def port_scoped_deny_def zero_policy_def)

lemma gateway_contains: "Contains (CIDR4 [192, 168, 127, 1] 32) (ip4_bytes dst) \<longleftrightarrow> dst = gatewayIPv4"
proof (cases dst)
  case (IP4 a b c d)
  have "(255 :: byte) = - 1" by simp
  then have "x AND 255 = x" for x :: byte by (simp only: and.right_neutral)
  then show ?thesis
    by (auto simp: IP4 gatewayIPv4_def net_eval)
qed

text \<open>\<open>Replace\<close> gives the barrier the guard and the flow table of the policy it supersedes.\<close>

definition installed_barrier :: "bool \<Rightarrow> networkGuard option \<Rightarrow> nat option \<Rightarrow> Policy" where
  "installed_barrier replies g r = (barrier replies) \<lparr> p_guard := g, p_publishedFlows := r \<rparr>"

definition reply_traffic :: "bool \<Rightarrow> ip4 \<Rightarrow> u8 \<Rightarrow> u16 \<Rightarrow> bool" where
  "reply_traffic replies dst proto dport \<longleftrightarrow>
     replies \<and> dst = gatewayIPv4 \<and> proto = protoUDP \<and> 16000 \<le> dport"

lemma barrier_verdict:
  "explicitRuleVerdict (Rules (barrier replies)) dst proto dport
    = (if reply_traffic replies dst proto dport then Some True else None)"
proof -
  have "dport \<le> 65535" using unat_less_2p [of dport] by (simp add: word_le_nat_alt)
  then show ?thesis
    by (auto simp: barrier_def zero_policy_def rule_matches_def gateway_contains protoUDP_def reply_traffic_def)
qed

lemma installed_barrier_fields [simp]:
  "Rules (installed_barrier replies g r) = Rules (barrier replies)"
  "p_guard (installed_barrier replies g r) = g" "DefaultAllow (installed_barrier replies g r) = False"
  "AllowLocal (installed_barrier replies g r) = False" "p_dynamic (installed_barrier replies g r) = []"
  by (simp_all add: installed_barrier_def barrier_def zero_policy_def)

lemma barrier_Allows:
  "Allows (installed_barrier replies g r) now dst proto dport
    = (guard_allows g now dst proto dport \<and> reply_traffic replies dst proto dport, installed_barrier replies g r)"
  by (simp add: Allows_def barrier_verdict)

lemma matchPublishedReturn_tcp: "matchPublishedReturn pp now t = Some (True, t') \<Longrightarrow> pp_proto pp = protoTCP"
  by (auto simp: matchPublishedReturn_def publishedFlowFromReturn_def tcpTupleValid_def split: if_splits)

lemma barrier_gateway:
  assumes "pp_dst pp = gatewayIPv4"
    and "match_gateway U now pp (installed_barrier replies g r) t = Some (b, p', t')"
  shows "b \<longleftrightarrow> (pp_proto pp = protoTCP \<longrightarrow> tcpTupleValid pp) \<and>
    ((pp_proto pp = protoUDP \<or> pp_proto pp = protoTCP) \<and> pp_dport pp = 53
        \<and> matchGatewayDNS U (installed_barrier replies g r) now pp \<or>
     replies \<and> pp_proto pp = protoUDP \<and> 16000 \<le> pp_dport pp
        \<and> guard_allows g now gatewayIPv4 protoUDP (pp_dport pp) \<or>
     pp_proto pp = protoTCP \<and> pp_dport pp \<noteq> 53 \<and>
        (\<exists>t1. invalidatePublishedReturnSYN pp t = Some t1 \<and> matchPublishedReturn pp now t1 = Some (True, t')))"
proof (cases "pp_proto pp = protoTCP \<and> \<not> tcpTupleValid pp")
  case True
  then show ?thesis using assms(2) by (simp add: match_gateway_def)
next
  case valid: False
  then obtain t1 where t1: "invalidatePublishedReturnSYN pp t = Some t1"
    using assms(2) by (auto simp: match_gateway_def split: option.splits)
  have ne: "protoUDP \<noteq> protoTCP" by (simp add: protoUDP_def protoTCP_def)
  show ?thesis
  proof (cases "(pp_proto pp = protoUDP \<or> pp_proto pp = protoTCP) \<and> pp_dport pp = 53")
    case True
    then show ?thesis using assms(2) valid t1 by (auto simp: match_gateway_def split: if_splits)
  next
    case dns: False
    show ?thesis
    proof (cases "reply_traffic replies (pp_dst pp) (pp_proto pp) (pp_dport pp)")
      case True
      then show ?thesis using assms(2) valid dns t1 ne
        by (auto simp: match_gateway_def barrier_verdict reply_traffic_def split: if_splits)
    next
      case False
      then have "matchPublishedReturn pp now t1 = Some (b, t')"
        using assms(2) valid dns t1
        by (auto simp: match_gateway_def barrier_verdict barrier_Allows split: if_splits)
      then show ?thesis using False valid dns t1 assms(1) ne matchPublishedReturn_tcp [of pp now t1 t']
        by (auto simp: reply_traffic_def)
    qed
  qed
qed

definition barrier_admits ::
  "unpack \<Rightarrow> Time \<Rightarrow> bool \<Rightarrow> networkGuard option \<Rightarrow> parsedPacket \<Rightarrow> bool \<Rightarrow> bool \<Rightarrow> publishedFlowTable
    \<Rightarrow> publishedFlowTable \<Rightarrow> Policy \<Rightarrow> bool" where
  "barrier_admits U now replies g pp arp ok t t' P \<longleftrightarrow>
    guard_valid g now \<and> (g = None \<or> \<not> pp_fragmented pp) \<and>
    (arp \<or> ok \<and>
      (dhcp_request pp \<and> (pp_dst pp = gatewayIPv4 \<or> is_broadcast (pp_dst pp))
         \<and> pp_src pp \<in> {guestIPv4, IP4 0 0 0 0} \<or>
       pp_src pp = guestIPv4 \<and> pp_dst pp = gatewayIPv4 \<and> (pp_proto pp = protoTCP \<longrightarrow> tcpTupleValid pp) \<and>
        ((pp_proto pp = protoUDP \<or> pp_proto pp = protoTCP) \<and> pp_dport pp = 53 \<and> matchGatewayDNS U P now pp \<or>
         replies \<and> pp_proto pp = protoUDP \<and> 16000 \<le> pp_dport pp
           \<and> guard_allows g now gatewayIPv4 protoUDP (pp_dport pp) \<or>
         pp_proto pp = protoTCP \<and> pp_dport pp \<noteq> 53 \<and>
           (\<exists>t1. invalidatePublishedReturnSYN pp t = Some t1
              \<and> matchPublishedReturn pp now t1 = Some (True, t')))))"

lemma gateway_not_broadcast: "\<not> is_broadcast gatewayIPv4"
  by (simp add: is_broadcast_def gatewayIPv4_def subnetBroadcast_def)

lemma barrier_match_tx:
  assumes "parseFrame frame = (pp, arp, ok)"
    and m: "match_tx U now frame (installed_barrier replies g r) t = Some (b, p', t')"
  shows "barrier_admits U now replies g pp arp ok t t' (installed_barrier replies g r) \<longleftrightarrow> b"
proof (cases "guard_valid g now \<and> (g = None \<or> \<not> pp_fragmented pp) \<and> \<not> arp \<and> ok")
  case False
  then show ?thesis using assms by (auto simp: match_tx_def barrier_admits_def split: if_splits)
next
  case g: True
  let ?src = "pp_src pp = guestIPv4 \<or>
      pp_src pp = IP4 0 0 0 0 \<and> dhcp_request pp \<and> (pp_dst pp = gatewayIPv4 \<or> is_broadcast (pp_dst pp))"
  consider (spoofed) "\<not> ?src"
    | (dhcp) "?src" "dhcp_request pp" "pp_dst pp = gatewayIPv4 \<or> is_broadcast (pp_dst pp)"
    | (bcast) "?src" "\<not> dhcp_request pp" "is_broadcast (pp_dst pp)"
    | (gateway) "pp_src pp = guestIPv4" "\<not> dhcp_request pp" "pp_dst pp = gatewayIPv4"
    | (out) "pp_src pp = guestIPv4" "pp_dst pp \<noteq> gatewayIPv4" "\<not> is_broadcast (pp_dst pp)" by blast
  then show ?thesis
  proof cases
    case spoofed
    then show ?thesis using g m assms(1) by (auto simp: match_tx_def barrier_admits_def Let_def split: if_splits)
  next
    case dhcp
    then show ?thesis using g m assms(1) by (auto simp: match_tx_def barrier_admits_def Let_def split: if_splits)
  next
    case bcast
    then show ?thesis using g m assms(1) gateway_not_broadcast
      by (auto simp: match_tx_def barrier_admits_def Let_def split: if_splits)
  next
    case gateway
    then have "match_gateway U now pp (installed_barrier replies g r) t = Some (b, p', t')"
      using g m assms(1) gateway_not_broadcast by (auto simp: match_tx_def Let_def split: if_splits)
    from barrier_gateway [OF gateway(3) this] show ?thesis
      using g gateway unfolding barrier_admits_def by blast
  next
    case out
    then show ?thesis using g m assms(1)
      by (auto simp: match_tx_def barrier_admits_def barrier_Allows reply_traffic_def)
  qed
qed

text \<open>C28. The policy installed while an update is in doubt always exists, and under it, whatever guard
  and flow table it takes over, exactly these frames leave the guest, provided the guard has not expired
  and the frame is no fragment under a guard: ARP; DHCP requests to the gateway or a broadcast address
  from the guest's address or 0.0.0.0; and from the guest's own address to the gateway only, DNS on port
  53 (filtered only if there is a guard), UDP to the reply ports 16000 to 65535 that the guard allows
  when UDP ports are published, and the well-formed TCP segments of tracked published connections.
  Nothing reaches any other address.\<close>

theorem fail_closed_barrier:
  assumes "parseFrame frame = (pp, arp, ok)"
  shows "\<exists>p. FailClosedPolicy replies = Inr p \<and>
    (match_tx U now frame (p \<lparr> p_guard := g, p_publishedFlows := r \<rparr>) t = Some (b, p', t') \<longrightarrow>
     (b \<longleftrightarrow> guard_valid g now \<and> (g = None \<or> \<not> pp_fragmented pp) \<and>
       (arp \<or> ok \<and>
         (dhcp_request pp \<and> (pp_dst pp = gatewayIPv4 \<or> is_broadcast (pp_dst pp))
            \<and> pp_src pp \<in> {guestIPv4, IP4 0 0 0 0} \<or>
          pp_src pp = guestIPv4 \<and> pp_dst pp = gatewayIPv4 \<and> (pp_proto pp = protoTCP \<longrightarrow> tcpTupleValid pp) \<and>
           ((pp_proto pp = protoUDP \<or> pp_proto pp = protoTCP) \<and> pp_dport pp = 53
              \<and> (g = None \<or> matchGatewayDNS U (p \<lparr> p_guard := g, p_publishedFlows := r \<rparr>) now pp) \<or>
            replies \<and> pp_proto pp = protoUDP \<and> 16000 \<le> pp_dport pp
              \<and> guard_allows g now gatewayIPv4 protoUDP (pp_dport pp) \<or>
            pp_proto pp = protoTCP \<and> pp_dport pp \<noteq> 53 \<and>
              (\<exists>t1. invalidatePublishedReturnSYN pp t = Some t1
                 \<and> matchPublishedReturn pp now t1 = Some (True, t')))))))"
proof -
  let ?P = "installed_barrier replies g r"
  have dns: "g = None \<longrightarrow> matchGatewayDNS U ?P now pp"
    by (simp add: matchGatewayDNS_def dnsFilterActive_def installed_barrier_def barrier_def zero_policy_def)
  have "barrier_admits U now replies g pp arp ok t t' ?P \<longleftrightarrow> b" if "match_tx U now frame ?P t = Some (b, p', t')"
    by (rule barrier_match_tx [OF assms that])
  then show ?thesis
    using FailClosedPolicy_eq dns unfolding barrier_admits_def installed_barrier_def by auto
qed

text \<open>Under the barrier a UDP datagram to the local network stays inside, and a DNS query still leaves.\<close>

theorem fail_closed_barrier_witness:
  "\<exists>p b p' t' b' q' u'. FailClosedPolicy True = Inr p \<and>
     match_tx hub_unpack 5 lan_frame (p \<lparr> p_guard := None, p_publishedFlows := None \<rparr>) newPublishedFlowTable
       = Some (b, p', t') \<and> \<not> b \<and>
     match_tx hub_unpack 5 hub_frame (p \<lparr> p_guard := None, p_publishedFlows := None \<rparr>) newPublishedFlowTable
       = Some (b', q', u') \<and> b'"
proof -
  let ?P = "installed_barrier True None None"
  obtain b p' t' where lan: "match_tx hub_unpack 5 lan_frame ?P newPublishedFlowTable = Some (b, p', t')"
    by (simp add: match_tx_def parse_lan_frame udp_packet_def guard_valid_def
        is_broadcast_def subnetBroadcast_def gatewayIPv4_def barrier_Allows Let_def)
  obtain b' q' u' where hub: "match_tx hub_unpack 5 hub_frame ?P newPublishedFlowTable = Some (b', q', u')"
    by (simp add: match_tx_def parse_hub_frame udp_packet_def guard_valid_def
        is_broadcast_def subnetBroadcast_def gatewayIPv4_def guestIPv4_def dhcp_request_def match_gateway_def
        invalidatePublishedReturnSYN_def publishedFlowFromReturn_def tcpTupleValid_def protoTCP_def protoUDP_def
        matchGatewayDNS_def)
  obtain p where p: "FailClosedPolicy True = Inr p" "p \<lparr> p_guard := None, p_publishedFlows := None \<rparr> = ?P"
    using FailClosedPolicy_eq [of True] by (simp add: installed_barrier_def)
  have "\<not> b"
    using fail_closed_barrier [OF parse_lan_frame, of True hub_unpack 5 None None newPublishedFlowTable b p' t'] p lan
    by (auto simp: udp_packet_def gatewayIPv4_def is_broadcast_def subnetBroadcast_def)
  moreover have "b'"
    using fail_closed_barrier [OF parse_hub_frame, of True hub_unpack 5 None None newPublishedFlowTable b' q' u'] p hub
    by (auto simp: udp_packet_def guard_valid_def protoUDP_def protoTCP_def)
  ultimately show ?thesis using p lan hub by auto
qed

section \<open>Overriding a rule\<close>

lemma same_selector_matches:
  assumes "sameRuleSelector a b" "rule_v4 a" "rule_v4 b"
  shows "rule_matches a dst proto port = rule_matches b dst proto port"
proof -
  have "CIDR a = CIDR b"
  proof (cases "CIDR a")
    case None
    then show ?thesis using assms(1) by (cases "CIDR b") (auto simp: sameRuleSelector_def split: if_splits)
  next
    case (Some x)
    then obtain y where y: "CIDR b = Some y" "IPNet_String x = IPNet_String y"
      using assms(1) by (cases "CIDR b") (auto simp: sameRuleSelector_def split: if_splits)
    have "net4 x" "net4 y" using assms(2,3) Some y(1) by (simp_all add: rule_v4_def)
    then have "x = y" using ParseCIDR_String y(2) by (metis option.inject)
    then show ?thesis using Some y(1) by simp
  qed
  moreover have "Proto a = Proto b" "Ports a = Ports b"
    using assms(1) by (auto simp: sameRuleSelector_def split: if_splits option.splits)
  ultimately show ?thesis by (simp add: rule_matches_def)
qed

lemma verdict_filter:
  assumes "\<forall>r \<in> set rs. sel r \<longrightarrow> \<not> rule_matches r dst proto port"
  shows "explicitRuleVerdict (filter (\<lambda>r. \<not> sel r) rs) dst proto port = explicitRuleVerdict rs dst proto port"
  using assms by (induction rs) auto

text \<open>C29. Overriding a traffic decision changes exactly that decision. After \<open>WithRule\<close> the first rule
  that speaks about the named traffic is the new one, whatever rules stood before; on all other
  traffic the explicit verdict is what it was, although rules with the same selector are dropped; and
  nothing but the rules and the flag computed from them differs from the copied policy.\<close>

theorem rule_override_exact:
  assumes "clonePolicy p = Inr c" and "parse_spec spec = Inr r"
    and "rule_v4 r" and "\<forall>existing \<in> set (Rules c). rule_v4 existing"
  shows "\<exists>q. WithRule p spec = Inr q \<and>
    explicitRuleVerdict (Rules q) dst proto port =
      (if rule_matches r dst proto port then Some (\<not> Deny r)
       else explicitRuleVerdict (Rules c) dst proto port) \<and>
    hasPortScopedDeny q = port_scoped_deny (Rules q) \<and>
    q \<lparr> Rules := Rules c, hasPortScopedDeny := hasPortScopedDeny c \<rparr> = c"
proof -
  define rs where "rs = filter (\<lambda>existing. \<not> sameRuleSelector existing r) (Rules c)"
  have "explicitRuleVerdict rs dst proto port = explicitRuleVerdict (Rules c) dst proto port"
    if "\<not> rule_matches r dst proto port"
    unfolding rs_def using that same_selector_matches assms(3,4) by (intro verdict_filter) blast
  moreover have "WithRule p spec = Inr (with_rules c (r # rs))"
    using assms(1,2) by (simp add: WithRule_def rs_def)
  ultimately show ?thesis by (simp add: with_rules_def refreshPortScopedDeny_def)
qed

definition block_spec :: RuleSpec where
  "block_spec = \<lparr> rs_Action = ''deny'', rs_CIDR = '''', rs_Protocol = ''tcp'', rs_Ports = '''' \<rparr>"

lemma block_spec_parses:
  "parse_spec block_spec = Inr \<lparr> Deny = True, CIDR = None, Proto = 6, Ports = [] \<rparr>"
  by (simp add: parse_spec_def block_spec_def Parse_def parse_guard_opt_def parse_default_def parse_rule_def
      parse_action_def parse_cidr_def parse_proto_def parse_ports_def protoTCP_def zero_policy_def)

lemma clone_zero: "clonePolicy (zero_policy \<lparr> DefaultAllow := True \<rparr>) = Inr (zero_policy \<lparr> DefaultAllow := True \<rparr>)"
  by (simp add: clonePolicy_def Parse_def Marshal_def parse_guard_opt_def parse_default_def
      port_scoped_deny_def zero_policy_def)

theorem rule_override_exact_witness:
  "\<exists>q. WithRule (zero_policy \<lparr> DefaultAllow := True \<rparr>) block_spec = Inr q \<and>
     explicitRuleVerdict (Rules q) (IP4 1 2 3 4) 6 443 = Some False"
  using rule_override_exact [OF clone_zero block_spec_parses, of "IP4 1 2 3 4" 6 443]
  by (auto simp: rule_v4_def zero_policy_def rule_matches_def)

end
