(* ===== verification/Virtio_Net.thy ===== *)
theory Virtio_Net
  imports Virtqueue_Correct Pending_Ring Netpol_Correct
begin

text \<open>
  The network device of \<open>internal/virtio/vnet.go\<close>: both queue handlers, the single egress
  enforcement point, the receive path with its bounded queue, and the QEMU stream framing.  The
  policy is the one of \<open>Netpol_Policy\<close>, reached through its store; \<open>wire\<close> lists the frames handed to
  the packet connection, \<open>tx_seen\<close> and \<open>rx_seen\<close> the calls to the traffic observer.  The clock of the
  policy is the sequence \<open>net_clock\<close>, one reading per policy call.
\<close>

unbundle bit_operations_syntax

section \<open>QEMU stream framing\<close>

definition virtioNetMaxFrame :: nat where "virtioNetMaxFrame = 65562"
definition virtioNetHdrLen :: nat where "virtioNetHdrLen = 12"
definition virtioNetRxQ :: nat where "virtioNetRxQ = 0"
definition virtioNetTxQ :: nat where "virtioNetTxQ = 1"
definition netMaxChainBytes :: nat where "netMaxChainBytes = virtioNetMaxFrame + virtioNetHdrLen + 1024"

definition BEPutUint32 :: "u32 \<Rightarrow> bytes" where "BEPutUint32 x = rev (PutUint32 x)"
definition BEUint32 :: "bytes \<Rightarrow> u32" where "BEUint32 bs = Uint32 (rev (take 4 bs))"

datatype frame_error = FrameTooBig | FrameOverBuffer | StreamEOF | ShortWrite | WriteFailed

text \<open>
  \<open>writePacket\<close> on a writer whose calls answer with the listed counts, \<open>None\<close> for an error: the bytes
  written and how it ended.
\<close>

fun writePacket :: "nat option list \<Rightarrow> bytes \<Rightarrow> bytes \<times> frame_error option" where
  "writePacket rs [] = ([], None)"
| "writePacket (Some n # rs) (b # p) =
    (if n = 0 then ([], Some ShortWrite)
     else case writePacket rs (drop n (b # p)) of (w, e) \<Rightarrow> (take n (b # p) @ w, e))"
| "writePacket _ (b # p) = ([], Some WriteFailed)"

definition qemu_frame :: "bytes \<Rightarrow> bytes" where
  "qemu_frame p = BEPutUint32 (of_nat (length p)) @ p"

definition qemu_Write :: "nat option list \<Rightarrow> bytes \<Rightarrow> bytes \<times> (frame_error + nat)" where
  "qemu_Write rs p =
    (if virtioNetMaxFrame < length p then ([], Inl FrameTooBig)
     else case writePacket rs (qemu_frame p) of
       (w, Some e) \<Rightarrow> (w, Inl e)
     | (w, None) \<Rightarrow> (w, Inr (length p)))"

text \<open>\<open>Read\<close> into a buffer of length \<open>n\<close> from a stream that ends after the given bytes: the result and
  the bytes left.\<close>

definition qemu_Read :: "nat \<Rightarrow> bytes \<Rightarrow> (frame_error + bytes) \<times> bytes" where
  "qemu_Read bufLen s =
    (if length s < 4 then (Inl StreamEOF, [])
     else let n = unat (BEUint32 (take 4 s)); rest = drop 4 s in
       if virtioNetMaxFrame < n then (Inl FrameTooBig, rest)
       else if bufLen < n then (Inl FrameOverBuffer, rest)
       else if length rest < n then (Inl StreamEOF, [])
       else (Inr (take n rest), drop n rest))"

section \<open>The device\<close>

record Net =
  net_mac :: bytes
  net_pending :: "bytes pendingRing"
  net_policy :: "(NetStore \<times> nat) option"
  net_traffic :: bool
  net_clock :: "nat \<Rightarrow> Time"
  net_ticks :: nat
  wire :: "bytes list"
  tx_seen :: "(bytes \<times> bool) list"
  rx_seen :: "bytes list"

definition NewNetConn :: "bytes \<Rightarrow> (nat \<Rightarrow> Time) \<Rightarrow> Net" where
  "NewNetConn mac clk = \<lparr> net_mac = mac, net_pending = new_ring [], net_policy = None, net_traffic = False,
     net_clock = clk, net_ticks = 0, wire = [], tx_seen = [], rx_seen = [] \<rparr>"

definition SetPolicy :: "NetStore \<times> nat \<Rightarrow> Net \<Rightarrow> Net" where
  "SetPolicy pol v = v \<lparr> net_policy := Some pol \<rparr>"

definition SetTrafficObserver :: "Net \<Rightarrow> Net" where
  "SetTrafficObserver v = v \<lparr> net_traffic := True \<rparr>"

text \<open>The address is six bytes, as its Go type says.\<close>

definition net_configRead :: "Net \<Rightarrow> u64 \<Rightarrow> bytes \<Rightarrow> bytes" where
  "net_configRead v offs p =
    (let cfg = net_mac v @ replicate 4 0 in
     if unat offs < 10
     then take (length p) (drop (unat offs) cfg) @ drop (10 - unat offs) p
     else p)"

definition net_reset :: "Net \<Rightarrow> Net" where
  "net_reset v = v \<lparr> net_pending := ring_Reset [] (net_pending v) \<rparr>"

text \<open>The call into the policy, on the next clock reading.\<close>

definition policy_match :: "unpack \<Rightarrow> bytes \<Rightarrow> Net \<Rightarrow> (bool \<times> Net) option" where
  "policy_match U frame v =
    (case net_policy v of
       None \<Rightarrow> Some (True, v)
     | Some (s, p) \<Rightarrow>
         map_option (\<lambda>(b, s1). (b, v \<lparr> net_policy := Some (s1, p), net_ticks := Suc (net_ticks v) \<rparr>))
           (MatchTX U (net_clock v (net_ticks v)) frame s p))"

definition policy_observe :: "unpack \<Rightarrow> bytes \<Rightarrow> Net \<Rightarrow> Net option" where
  "policy_observe U frame v =
    (case net_policy v of
       None \<Rightarrow> Some v
     | Some (s, p) \<Rightarrow>
         map_option (\<lambda>s1. v \<lparr> net_policy := Some (s1, p), net_ticks := Suc (net_ticks v) \<rparr>)
           (ObserveRX U (net_clock v (net_ticks v)) frame s p))"

definition writeFrame :: "unpack \<Rightarrow> bytes \<Rightarrow> Net \<Rightarrow> Net option" where
  "writeFrame U frame v =
    map_option (\<lambda>(allowed, v1).
      let v2 = (if net_traffic v1 then v1 \<lparr> tx_seen := tx_seen v1 @ [(frame, allowed)] \<rparr> else v1)
      in if \<not> allowed then v2 else v2 \<lparr> wire := wire v2 @ [frame] \<rparr>)
      (policy_match U frame v)"

definition readFrame :: "unpack \<Rightarrow> bytes \<Rightarrow> Net \<Rightarrow> Net option" where
  "readFrame U frame v =
    (if frame = [] then Some v
     else map_option (\<lambda>v1. if net_traffic v1 then v1 \<lparr> rx_seen := rx_seen v1 @ [frame] \<rparr> else v1)
       (policy_observe U frame v))"

definition net_tx_step :: "unpack \<Rightarrow> u16 \<Rightarrow> desc list \<Rightarrow> Core \<times> Net \<Rightarrow> (Core \<times> Net) option" where
  "net_tx_step U hx chain cv =
    (case readChains (mem (fst cv)) (fst (splitChain chain)) of
       Inr buf \<Rightarrow>
         if virtioNetHdrLen \<le> length buf \<and> drop virtioNetHdrLen buf \<noteq> []
         then map_option (\<lambda>v. (pushUsed virtioNetTxQ hx 0 (fst cv), v))
                (writeFrame U (drop virtioNetHdrLen buf) (snd cv))
         else Some (pushUsed virtioNetTxQ hx 0 (fst cv), snd cv)
     | Inl _ \<Rightarrow> Some (pushUsed virtioNetTxQ hx 0 (fst cv), snd cv))"

definition net_maxChainBytes :: "nat \<Rightarrow> u64" where
  "net_maxChainBytes qn = of_nat netMaxChainBytes"

definition net_handleTx :: "unpack \<Rightarrow> Core \<times> Net \<Rightarrow> (Core \<times> Net) outcome" where
  "net_handleTx U cv =
    loop_result (drain (Some net_maxChainBytes) (\<lambda>h ch x. returned (net_tx_step U h ch x)) virtioNetTxQ cv)"

definition enqueueRXFrame :: "bytes \<Rightarrow> Net \<Rightarrow> bool \<times> Net" where
  "enqueueRXFrame frame v =
    (if ring_Full (net_pending v) then (False, v)
     else case ring_Push (replicate virtioNetHdrLen 0 @ frame) (net_pending v) of
       (q, _, ok) \<Rightarrow> (ok, v \<lparr> net_pending := q \<rparr>))"

text \<open>Delivering the front packet into one chain: the used length is 0 when the chain is too small or
  cannot be written.\<close>

definition rx_deliver :: "u16 \<Rightarrow> desc list \<Rightarrow> bytes \<Rightarrow> Core \<Rightarrow> Core" where
  "rx_deliver hx chain packet c =
    (let inn = snd (splitChain chain);
         capacity = sum_list (map d_len inn)
     in if capacity < of_nat (length packet) then pushUsed virtioNetRxQ hx 0 c
        else case writeChains inn packet c of
          (c1, n, e) \<Rightarrow> pushUsed virtioNetRxQ hx (if e = None then n else 0) c1)"

function rx_loop :: "Core \<times> Net \<Rightarrow> Core \<times> Net" where
  "rx_loop (c, v) =
    (case ring_Front (net_pending v) of
       None \<Rightarrow> (c, v)
     | Some (packet, _) \<Rightarrow>
         (case availChain (chainLimit (Some net_maxChainBytes) (mem c) virtioNetRxQ) virtioNetRxQ c of
            (c1, None) \<Rightarrow> (c1, v)
          | (c1, Some (hx, chain)) \<Rightarrow>
              rx_loop (rx_deliver hx chain packet c1, v \<lparr> net_pending := ring_Pop [] (net_pending v) \<rparr>)))"
  by pat_completeness auto
termination
  by (relation "measure (\<lambda>(c, v). count (net_pending v))")
    (auto simp: ring_Front_def count_Pop split: if_splits)

declare rx_loop.simps [simp del]

definition tryRx :: "Core \<times> Net \<Rightarrow> Core \<times> Net" where
  "tryRx cv = (if \<not> ready (queues (fst cv) ! virtioNetRxQ) then cv else rx_loop cv)"

definition net_handleQueue :: "unpack \<Rightarrow> nat \<Rightarrow> Core \<times> Net \<Rightarrow> (Core \<times> Net) outcome" where
  "net_handleQueue U qn cv =
    (if qn = virtioNetRxQ then Done (tryRx cv)
     else if qn = virtioNetTxQ then net_handleTx U cv
     else Done cv)"

text \<open>One round of the read loop: a frame from the packet connection.\<close>

definition readLoop_round :: "unpack \<Rightarrow> bytes \<Rightarrow> Core \<times> Net \<Rightarrow> (Core \<times> Net) option" where
  "readLoop_round U frame cv =
    map_option (\<lambda>v.
      if frame = [] then (fst cv, v)
      else case enqueueRXFrame frame v of
        (ok, v1) \<Rightarrow> if ok then tryRx (fst cv, v1) else (fst cv, v1))
      (readFrame U frame (snd cv))"

definition NetDevice :: "unpack \<Rightarrow> Net Device" where
  "NetDevice U = \<lparr> deviceID = 1, features = (\<lambda>_. 2 ^ 5), numQueues = 2, configRead = net_configRead,
     configWrite = (\<lambda>v _ _. v), dev_reset = net_reset, handleQueue = net_handleQueue U \<rparr>"

end
