(* ===== verification/Virtio_Net_Correct.thy ===== *)
theory Virtio_Net_Correct
  imports Virtio_Net
begin

text \<open>
  Properties of the network device composed with the egress policy: what can reach the wire under
  any interleaving of guest writes, host frames and policy replacements, that the receive path
  makes progress, and that the stream framing loses nothing.
\<close>

unbundle bit_operations_syntax

section \<open>The policy's tables stay usable\<close>

definition store_ok :: "NetStore \<Rightarrow> bool" where
  "store_ok s \<longleftrightarrow> (\<forall>r. flows_ok (ns_table s r))"

text \<open>What every frame on the wire must look like: ARP, or IPv4 from the guest's own address, or a DHCP
  request from the unspecified address to the gateway or a broadcast address.\<close>

definition egress_shape :: "bytes \<Rightarrow> bool" where
  "egress_shape frame =
    (case parseFrame frame of (pp, arp, ok) \<Rightarrow>
       arp \<or> ok \<and> (pp_src pp = guestIPv4 \<or>
         pp_src pp = IP4 0 0 0 0 \<and> dhcp_request pp \<and> (pp_dst pp = gatewayIPv4 \<or> is_broadcast (pp_dst pp))))"

lemma match_tx_shape: "match_tx U now frame p t = Some (True, p', t') \<Longrightarrow> egress_shape frame"
  by (auto simp: match_tx_def egress_shape_def Let_def split: prod.splits if_splits)

lemma matchPublishedReturn_ok:
  "flows_ok t \<Longrightarrow> \<exists>b t'. matchPublishedReturn pp now t = Some (b, t') \<and> flows_ok t'"
  using flow_match_ok [of t] by (fastforce simp: matchPublishedReturn_def split: option.split)

lemma match_gateway_ok:
  assumes "flows_ok t"
  shows "\<exists>b p' t'. match_gateway U now pp p t = Some (b, p', t') \<and> flows_ok t'"
proof -
  obtain t1 where t1: "invalidatePublishedReturnSYN pp t = Some t1" "flows_ok t1"
    using invalidate_ok [OF assms, of pp] by blast
  obtain b t2 where "matchPublishedReturn pp now t1 = Some (b, t2)" "flows_ok t2"
    using matchPublishedReturn_ok [OF t1(2)] by blast
  then show ?thesis
    using t1 assms by (auto simp: match_gateway_def split: option.split prod.split bool.split)
qed

lemma match_tx_ok:
  assumes "flows_ok t"
  shows "\<exists>b p' t'. match_tx U now frame p t = Some (b, p', t') \<and> flows_ok t'"
proof -
  define good where "good r \<longleftrightarrow> (\<exists>b p' t'. r = Some (b, p', t') \<and> flows_ok t')"
    for r :: "(bool \<times> Policy \<times> publishedFlowTable) option"
  have plain: "good (Some (b, p', t))" for b p' using assms by (simp add: good_def)
  have gate: "good (match_gateway U now pp p t)" for pp
    using match_gateway_ok [OF assms] by (simp add: good_def)
  obtain pp arp ok where pf: "parseFrame frame = (pp, arp, ok)" by (cases "parseFrame frame")
  obtain b p1 where al: "Allows p now (pp_dst pp) (pp_proto pp) (pp_dport pp) = (b, p1)" by fastforce
  have "good (match_tx U now frame p t)"
    by (simp add: match_tx_def pf al plain gate Let_def)
  then show ?thesis by (simp add: good_def)
qed

lemma observe_rx_ok:
  assumes "flows_ok t"
  shows "\<exists>p' t'. observe_rx U now frame p t = Some (p', t') \<and> flows_ok t'"
proof -
  obtain pp arp ok where pf: "parseFrame frame = (pp, arp, ok)" by (cases "parseFrame frame")
  have "\<exists>t'. observePublishedIngress pp now t = Some t' \<and> flows_ok t'"
  proof (cases "publishedFlowFromIngress pp")
    case (Some ff)
    then show ?thesis
      using flow_observe_ok [OF assms, of "fst ff" "snd ff" now]
      by (auto simp: observePublishedIngress_def case_prod_beta)
  qed (simp add: observePublishedIngress_def assms)
  then show ?thesis using pf assms by (auto simp: observe_rx_def)
qed

lemma policy_table_ok: "store_ok s \<Longrightarrow> policy_table s q = (s1, r) \<Longrightarrow> store_ok s1"
  by (auto simp: policy_table_def store_ok_def split: option.splits)

lemma MatchTX_ok:
  assumes "store_ok s" "MatchTX U now frame s p = Some (b, s')"
  shows "store_ok s' \<and> (b \<longrightarrow> egress_shape frame)"
proof -
  obtain q where res: "resolve s p = Some q" using assms(2) by (auto simp: MatchTX_def bind_eq_Some_conv)
  obtain s1 r where "policy_table s q = (s1, r)" by (cases "policy_table s q")
  then obtain pol t where q: "policy_table s q = (s1, r)"
      "match_tx U now frame (ns_policy s1 q) (ns_table s1 r) = Some (b, pol, t)" "s' = put_back s1 q pol r t"
    using assms(2) res by (auto simp: MatchTX_def)
  have s1: "store_ok s1" using policy_table_ok [OF assms(1) q(1)] .
  then have "flows_ok t"
    using match_tx_ok [of "ns_table s1 r" U now frame "ns_policy s1 q"] q(2) by (auto simp: store_ok_def)
  then have "store_ok s'" using s1 q(3) by (simp add: store_ok_def put_back_def)
  moreover have "b \<longrightarrow> egress_shape frame" using match_tx_shape q(2) by (cases b) auto
  ultimately show ?thesis by blast
qed

lemma ObserveRX_ok:
  assumes "store_ok s" "ObserveRX U now frame s p = Some s'"
  shows "store_ok s'"
proof -
  obtain q where res: "resolve s p = Some q" using assms(2) by (auto simp: ObserveRX_def bind_eq_Some_conv)
  obtain s1 r where "policy_table s q = (s1, r)" by (cases "policy_table s q")
  then obtain pol t where q: "policy_table s q = (s1, r)"
      "observe_rx U now frame (ns_policy s1 q) (ns_table s1 r) = Some (pol, t)" "s' = put_back s1 q pol r t"
    using assms(2) res by (auto simp: ObserveRX_def)
  have s1: "store_ok s1" using policy_table_ok [OF assms(1) q(1)] .
  then have "flows_ok t"
    using observe_rx_ok [of "ns_table s1 r" U now frame "ns_policy s1 q"] q(2) by (auto simp: store_ok_def)
  then show ?thesis using s1 q(3) by (simp add: store_ok_def put_back_def)
qed

lemma Replace_ok: "store_ok s \<Longrightarrow> policy_replace g s p n = Some s' \<Longrightarrow> store_ok s'"
  by (auto simp: policy_replace_def InheritGuard_def policy_table_def store_ok_def Let_def
      split: option.splits if_splits prod.splits)

section \<open>The device keeps its invariant\<close>

definition net_ok :: "Net \<Rightarrow> bool" where
  "net_ok v \<longleftrightarrow> ring_ok [] (net_pending v) \<and>
     (\<exists>s p. net_policy v = Some (s, p) \<and> store_ok s) \<and> list_all egress_shape (wire v)"

lemma writeFrame_ok:
  assumes "net_ok v" "writeFrame U frame v = Some v'"
  shows "net_ok v'"
proof -
  obtain s p where p: "net_policy v = Some (s, p)" "store_ok s" using assms(1) by (auto simp: net_ok_def)
  obtain b s1 where m: "MatchTX U (net_clock v (net_ticks v)) frame s p = Some (b, s1)"
      "v' = (let v1 = v \<lparr> net_policy := Some (s1, p), net_ticks := Suc (net_ticks v) \<rparr>;
                 v2 = (if net_traffic v1 then v1 \<lparr> tx_seen := tx_seen v1 @ [(frame, b)] \<rparr> else v1)
             in if \<not> b then v2 else v2 \<lparr> wire := wire v2 @ [frame] \<rparr>)"
    using assms(2) p(1) by (auto simp: writeFrame_def policy_match_def)
  from MatchTX_ok [OF p(2) m(1)] assms(1) show ?thesis
    unfolding m(2) by (auto simp: net_ok_def Let_def)
qed

lemma readFrame_ok:
  assumes "net_ok v" "readFrame U frame v = Some v'"
  shows "net_ok v'"
proof (cases "frame = []")
  case True
  then show ?thesis using assms by (simp add: readFrame_def)
next
  case False
  obtain s p where p: "net_policy v = Some (s, p)" "store_ok s" using assms(1) by (auto simp: net_ok_def)
  obtain s1 where m: "ObserveRX U (net_clock v (net_ticks v)) frame s p = Some s1"
      "v' = (let v1 = v \<lparr> net_policy := Some (s1, p), net_ticks := Suc (net_ticks v) \<rparr>
             in if net_traffic v1 then v1 \<lparr> rx_seen := rx_seen v1 @ [frame] \<rparr> else v1)"
    using assms(2) p(1) False by (auto simp: readFrame_def policy_observe_def)
  from ObserveRX_ok [OF p(2) m(1)] assms(1) show ?thesis
    unfolding m(2) by (auto simp: net_ok_def Let_def)
qed

lemma net_tx_step_ok:
  assumes "core_ok c" "net_ok v" "net_tx_step U hx chain (c, v) = Some (c', v')"
  shows "core_ok c' \<and> same_config c c' \<and> net_ok v'"
proof -
  have "c' = pushUsed virtioNetTxQ hx 0 c" "net_ok v'"
    using assms writeFrame_ok by (auto simp: net_tx_step_def split: sum.splits if_splits)
  then show ?thesis using assms(1) core_ok_pushUsed same_config_pushUsed by blast
qed

interpretation netq: chain_processor "Some net_maxChainBytes" "\<lambda>h ch x. returned (net_tx_step U h ch x)" net_ok for U
  by unfold_locales (auto simp: safely_returned dest: net_tx_step_ok)

lemma rx_deliver_ok:
  assumes "core_ok c"
  shows "core_ok (rx_deliver hx chain packet c) \<and> same_config c (rx_deliver hx chain packet c)"
proof -
  let ?w = "writeChains (snd (splitChain chain)) packet c"
  have w: "core_ok (fst ?w)" "same_config c (fst ?w)"
    using assms core_ok_writeChains same_config_writeChains by (simp_all add: core_ok_def)
  then show ?thesis
    using assms core_ok_pushUsed same_config_pushUsed same_config_trans [OF w(2)]
    by (auto simp: rx_deliver_def Let_def split: prod.split)
qed

text \<open>
  The receive path as it should be: each packet of a list, in order, goes to one available chain. A chain
  with room for it gets the whole packet and is returned with the packet's length; a chain that is
  too small is returned with length 0 and the packet is lost.
\<close>

abbreviation rxAvail :: "Core \<Rightarrow> Core \<times> (u16 \<times> desc list) option" where
  "rxAvail c \<equiv> availChain (chainLimit (Some net_maxChainBytes) (mem c) virtioNetRxQ) virtioNetRxQ c"

inductive rx_rounds :: "Core \<Rightarrow> bytes list \<Rightarrow> Core \<Rightarrow> bool" where
  rx_none: "rx_rounds c [] c"
| rx_whole: "rxAvail c = (c1, Some (hx, chain)) \<Longrightarrow> splitChain chain = (out, inn) \<Longrightarrow>
    length packet \<le> desc_bytes inn \<Longrightarrow> writeChains inn packet c1 = (c2, of_nat (length packet), None) \<Longrightarrow>
    rx_rounds (pushUsed virtioNetRxQ hx (of_nat (length packet)) c2) packets c' \<Longrightarrow>
    rx_rounds c (packet # packets) c'"
| rx_too_small: "rxAvail c = (c1, Some (hx, chain)) \<Longrightarrow> splitChain chain = (out, inn) \<Longrightarrow>
    desc_bytes inn < length packet \<Longrightarrow> rx_rounds (pushUsed virtioNetRxQ hx 0 c1) packets c' \<Longrightarrow>
    rx_rounds c (packet # packets) c'"

inductive_cases rx_rounds_NilE: "rx_rounds c [] c'"

lemma capacity_sum: "desc_bytes ds < 2 ^ 32 \<Longrightarrow> unat (sum_list (map d_len ds)) = desc_bytes ds"
proof (induction ds)
  case (Cons d ds)
  then show ?case by (simp add: unat_add_no_wrap)
qed simp

lemma rx_deliver_round:
  assumes "core_ok c" "rxAvail c = (c1, Some (hx, chain))" "length packet < 2 ^ 32"
    and rest: "rx_rounds (rx_deliver hx chain packet c1) packets c'"
  shows "rx_rounds c (packet # packets) c'"
proof -
  obtain out inn where sp: "splitChain chain = (out, inn)" by (cases "splitChain chain")
  have c1: "core_ok c1" "mem c1 = mem c"
    using core_ok_availChain [OF assms(1)] assms(2) availChain_Some(3) [OF assms(2)]
    by (metis fst_conv, simp add: bump_avail_def)
  have "desc_bytes chain < 2 ^ 32"
    using chain_facts(4) [OF assms(2)]
    by (simp add: chainLimit_def net_maxChainBytes_def netMaxChainBytes_def virtioNetMaxFrame_def virtioNetHdrLen_def)
  then have cap: "unat (sum_list (map d_len inn)) = desc_bytes inn"
    using splitChain_append [OF sp] by (intro capacity_sum) simp
  have len: "unat (of_nat (length packet) :: u32) = length packet"
    using assms(3) by (simp add: unat_of_nat take_bit_nat_eq_self_iff)
  show ?thesis
  proof (cases "length packet \<le> desc_bytes inn")
    case True
    have "\<forall>d \<in> set inn. contains (mem c1) (d_addr d) (ucast (d_len d))"
      using chain_facts(5) [OF assms(2)] splitChain_append [OF sp] c1(2) by (auto simp: desc_ok_def)
    from writeChains_fits [OF c1(1) this True assms(3)]
    obtain c2 where w: "writeChains inn packet c1 = (c2, of_nat (length packet), None)" by blast
    have "rx_deliver hx chain packet c1 = pushUsed virtioNetRxQ hx (of_nat (length packet)) c2"
      using True sp w by (simp add: rx_deliver_def word_less_nat_alt cap len)
    then show ?thesis using rx_whole [OF assms(2) sp True w] rest by simp
  next
    case False
    then have "rx_deliver hx chain packet c1 = pushUsed virtioNetRxQ hx 0 c1"
      using sp by (simp add: rx_deliver_def word_less_nat_alt cap len)
    then show ?thesis using rx_too_small [OF assms(2) sp] False rest by simp
  qed
qed

lemma ring_Front_items:
  assumes "ring_ok [] q" "ring_Front q = Some (packet, i)"
  shows "ring_items q = packet # tl (ring_items q)"
proof -
  have "count q \<noteq> 0" "packet = ring_at q 0"
    using assms by (auto simp: ring_Front_def ring_at_def ring_ok_def split: if_splits)
  then show ?thesis by (simp add: ring_items_def upt_rec)
qed

definition packets_fit :: "bytes list \<Rightarrow> bool" where
  "packets_fit ps \<longleftrightarrow> list_all (\<lambda>p. length p \<le> virtioNetHdrLen + virtioNetMaxFrame) ps"

text \<open>How far a run of the receive loop got: the packets it took went out in rounds, and it ended
  because none was left or because the queue offered no chain.\<close>

definition rx_run :: "Core \<Rightarrow> bytes list \<Rightarrow> Core \<Rightarrow> bytes list \<Rightarrow> bool" where
  "rx_run c items c' items' \<longleftrightarrow> (\<exists>taken c0. items = taken @ items' \<and> rx_rounds c taken c0 \<and>
     (if items' = [] then c' = c0 else rxAvail c0 = (c', None)))"

lemma rx_run_round:
  assumes "core_ok c" "rxAvail c = (c1, Some (hx, chain))" "length packet < 2 ^ 32"
    and "rx_run (rx_deliver hx chain packet c1) items c' items'"
  shows "rx_run c (packet # items) c' items'"
  using assms(4) rx_deliver_round [OF assms(1-3)] unfolding rx_run_def by (metis append_Cons)

lemma rx_loop_ok:
  assumes "core_ok c" "ring_ok [] (net_pending v)" "rx_loop (c, v) = (c', v')"
  shows "core_ok c' \<and> same_config c c' \<and> ring_ok [] (net_pending v') \<and> v' = v \<lparr> net_pending := net_pending v' \<rparr> \<and>
    (packets_fit (ring_items (net_pending v)) \<longrightarrow>
     rx_run c (ring_items (net_pending v)) c' (ring_items (net_pending v')))"
  using assms
proof (induction "(c, v)" arbitrary: c v rule: rx_loop.induct)
  case (1 c v)
  note av_ok = core_ok_availChain [OF 1(2)] same_config_availChain
  show ?case
  proof (cases "ring_Front (net_pending v)")
    case None
    then have "ring_items (net_pending v) = []" by (auto simp: ring_Front_def ring_items_def split: if_splits)
    then show ?thesis
      using 1(2-4) None by (subst (asm) rx_loop.simps) (auto simp: rx_run_def intro: rx_none)
  next
    case (Some pi)
    obtain packet i where pi: "pi = (packet, i)" by (cases pi)
    have items: "ring_items (net_pending v) = packet # tl (ring_items (net_pending v))"
      using ring_Front_items [OF 1(3)] Some pi by simp
    obtain c1 r where r: "rxAvail c = (c1, r)" by (cases "rxAvail c")
    have c1: "core_ok c1" "same_config c c1" using av_ok r by (metis fst_conv)+
    show ?thesis
    proof (cases r)
      case None
      then have "c' = c1" "v' = v"
        using 1(4) Some pi r by (subst (asm) rx_loop.simps, simp)+
      moreover have "rx_run c (ring_items (net_pending v)) c1 (ring_items (net_pending v))"
        using r None items rx_none [of c] unfolding rx_run_def by (metis append_Nil list.distinct(1))
      ultimately show ?thesis using c1 1(3) by auto
    next
      case hc: (Some hc)
      obtain hx chain where hc': "hc = (hx, chain)" by (cases hc)
      let ?c2 = "rx_deliver hx chain packet c1"
      let ?v2 = "v \<lparr> net_pending := ring_Pop [] (net_pending v) \<rparr>"
      have c2: "core_ok ?c2" "same_config c ?c2"
        using rx_deliver_ok [OF c1(1)] same_config_trans [OF c1(2)] by blast+
      have q2: "ring_ok [] (net_pending ?v2)" "ring_items (net_pending ?v2) = tl (ring_items (net_pending v))"
        using ring_Pop_ok [OF 1(3)] by auto
      have "rx_loop (?c2, ?v2) = (c', v')"
        using 1(4) Some pi r hc hc' by (subst (asm) rx_loop.simps) simp
      note IH = 1(1) [OF Some pi [symmetric] r [symmetric] hc hc' [symmetric] c2(1) q2(1) this]
      have "rx_run c (ring_items (net_pending v)) c' (ring_items (net_pending v'))"
        if fit: "packets_fit (ring_items (net_pending v))"
      proof -
        have "length packet < 2 ^ 32" "packets_fit (tl (ring_items (net_pending v)))"
          using fit by (subst (asm) items, simp add: packets_fit_def virtioNetHdrLen_def virtioNetMaxFrame_def)+
        then have "rx_run ?c2 (tl (ring_items (net_pending v))) c' (ring_items (net_pending v'))"
          using IH q2(2) by simp
        then show ?thesis
          using rx_run_round [OF 1(2)] r hc hc' \<open>length packet < 2 ^ 32\<close> items by metis
      qed
      then show ?thesis using IH c2(2) same_config_trans by (auto simp: q2(2))
    qed
  qed
qed

lemma tryRx_ok:
  assumes "core_ok c" "net_ok v" "tryRx (c, v) = (c', v')"
  shows "core_ok c' \<and> same_config c c' \<and> net_ok v'"
proof (cases "ready (queues c ! virtioNetRxQ)")
  case True
  then have "rx_loop (c, v) = (c', v')" using assms(3) by (simp add: tryRx_def)
  from rx_loop_ok [OF assms(1) _ this] assms(2)
  have k: "core_ok c' \<and> same_config c c' \<and> ring_ok [] (net_pending v')" and v': "v' = v \<lparr> net_pending := net_pending v' \<rparr>"
    by (auto simp: net_ok_def)
  have "net_policy v' = net_policy v" "wire v' = wire v" by (subst v', simp)+
  then show ?thesis using k assms(2) by (simp add: net_ok_def)
next
  case False
  then show ?thesis using assms by (simp add: tryRx_def)
qed

interpretation netdev: virtio_device "NetDevice U" net_ok for U
proof
  fix c v qn
  assume ok: "core_ok c" "net_ok v"
  have "case tryRx (c, v) of (c', v') \<Rightarrow> core_ok c' \<and> same_config c c' \<and> net_ok v'"
    using tryRx_ok [OF ok] by (cases "tryRx (c, v)") simp
  then show "safely (\<lambda>(c', d'). core_ok c' \<and> same_config c c' \<and> net_ok d') (handleQueue (NetDevice U) qn (c, v))"
    using ok netq.drain_ok [OF ok]
    by (simp add: NetDevice_def net_handleQueue_def net_handleTx_def)
next
  fix v
  assume "net_ok v"
  then show "net_ok (dev_reset (NetDevice U) v)"
    using ring_Reset_ok [of "[]" "net_pending v"] by (simp add: NetDevice_def net_reset_def net_ok_def)
qed (simp_all add: NetDevice_def)

lemma enqueueRXFrame_ok:
  assumes "net_ok v"
  shows "net_ok (snd (enqueueRXFrame frame v))"
proof (cases "ring_Full (net_pending v)")
  case False
  then have "count (net_pending v) < pendingRingCapacity"
    using assms by (auto simp: ring_Full_def net_ok_def ring_ok_def)
  then have "ring_ok [] (fst (ring_Push (replicate virtioNetHdrLen 0 @ frame) (net_pending v)))"
    using ring_Push_ok(1) assms by (auto simp: net_ok_def)
  then show ?thesis using False assms by (auto simp: enqueueRXFrame_def net_ok_def split: prod.split)
qed (use assms in \<open>simp add: enqueueRXFrame_def\<close>)

lemma readLoop_round_ok:
  assumes "core_ok c" "net_ok v" "readLoop_round U frame (c, v) = Some (c', v')"
  shows "core_ok c' \<and> same_config c c' \<and> net_ok v'"
proof -
  obtain v1 where v1: "readFrame U frame v = Some v1" using assms(3) by (auto simp: readLoop_round_def)
  have ok1: "net_ok v1" using readFrame_ok [OF assms(2) v1] .
  obtain ok v2 where e: "enqueueRXFrame frame v1 = (ok, v2)" by (cases "enqueueRXFrame frame v1")
  then have ok2: "net_ok v2" using enqueueRXFrame_ok [OF ok1, of frame] by simp
  show ?thesis
    using assms v1 e ok1 ok2 tryRx_ok [OF assms(1) ok2]
    by (auto simp: readLoop_round_def split: if_splits)
qed

section \<open>What reaches the wire\<close>

text \<open>The device in its environment: the guest writes registers, the packet connection delivers a frame,
  the host replaces the policy.\<close>

inductive net_trans :: "unpack \<Rightarrow> Core \<times> Net \<Rightarrow> Core \<times> Net \<Rightarrow> bool" for U where
  net_guest: "MMIOWrite (NetDevice U) offs val s = Done s' \<Longrightarrow> net_trans U s s'"
| net_host: "readLoop_round U frame s = Some s' \<Longrightarrow> net_trans U s s'"
| net_policy_change: "net_policy v = Some (st, p) \<Longrightarrow> policy_replace inherit st (Some p) nxt = Some st' \<Longrightarrow>
    net_trans U (c, v) (c, v \<lparr> net_policy := Some (st', p) \<rparr>)"

inductive net_reachable :: "unpack \<Rightarrow> RAM \<Rightarrow> NetStore \<Rightarrow> nat \<Rightarrow> Core \<times> Net \<Rightarrow> bool" for U m st p where
  net_init: "net_reachable U m st p (NewCoreAt (NetDevice U) m b i, SetPolicy (st, p) (NewNetConn mac clk))"
| net_step: "net_reachable U m st p s \<Longrightarrow> net_trans U s s' \<Longrightarrow> net_reachable U m st p s'"

lemma net_trans_ok:
  assumes "net_trans U s s'" "netdev.machine_ok U s"
  shows "netdev.machine_ok U s'"
  using assms
proof (induction rule: net_trans.induct)
  case (net_guest offs val s s')
  then show ?case using netdev.mmio_write_ok [of U "fst s" "snd s" offs val] by simp
next
  case (net_host frame s s')
  obtain c v c' v' where s: "s = (c, v)" "s' = (c', v')" by (cases s, cases s')
  have ok: "core_ok c" "net_ok v" "length (queues c) = numQueues (NetDevice U)"
    using net_host(2) by (simp_all add: netdev.machine_ok_def s)
  have "core_ok c' \<and> same_config c c' \<and> net_ok v'"
    using readLoop_round_ok [OF ok(1,2)] net_host(1) s by blast
  then show ?case using ok(3) same_config_length [of c c'] by (simp add: netdev.machine_ok_def s)
next
  case (net_policy_change v st p inherit nxt st' c)
  then show ?case
    using Replace_ok [of st inherit "Some p" nxt st']
    by (simp add: netdev.machine_ok_def) (auto simp: net_ok_def)
qed

lemma new_ring_ok: "ring_ok z (new_ring z)"
  by (simp add: ring_ok_def new_ring_def ring_at_def pendingRingCapacity_def)

lemma net_reachable_ok:
  assumes "net_reachable U m st p s" "ram_ok m" "store_ok st"
  shows "netdev.machine_ok U s"
  using assms
proof (induction rule: net_reachable.induct)
  case (net_init b i mac clk)
  then show ?case
    by (intro netdev.machine_ok_new) (simp_all add: net_ok_def SetPolicy_def NewNetConn_def new_ring_ok)
next
  case (net_step s s')
  then show ?case using net_trans_ok by blast
qed

text \<open>C1. No spoofed frame leaves the machine. Whatever the guest writes to the network device's
  registers and puts in its rings, whatever frames the host delivers and whenever the host replaces the
  policy, every frame that was handed to the packet connection is ARP, or IPv4 with the guest's own
  source address, or a DHCP request from 0.0.0.0; the transport and the bounded receive queue stay
  well formed, with at most 256 frames waiting.\<close>

theorem net_no_spoofing:
  assumes "net_reachable U m st p s" and "ram_ok m" and "store_ok st"
  shows "core_ok (fst s) \<and> ring_ok [] (net_pending (snd s)) \<and>
    length (ring_items (net_pending (snd s))) \<le> pendingRingCapacity \<and>
    (\<forall>frame \<in> set (wire (snd s)). egress_shape frame)"
proof -
  have "netdev.machine_ok U s" using net_reachable_ok [OF assms] .
  then show ?thesis by (auto simp: netdev.machine_ok_def net_ok_def ring_ok_def list_all_iff)
qed

lemma empty_store_ok: "store_ok empty_store"
  by (simp add: store_ok_def empty_store_def)

section \<open>The receive path makes progress\<close>

text \<open>C15. The receive path delivers what waits. When \<open>tryRx\<close> runs on a ready queue whose waiting packets
  are at most as long as the device's read buffer allows, it returns having changed nothing of the device
  but the waiting packets. It took the first \<open>k\<close> of them, in order, one available chain each: a chain
  whose writable part has room for the packet received all of its bytes and was returned with the packet's
  length, which never fails; a chain that is too small was returned with length 0 and cost the
  packet. It stopped because nothing waits any more, or because \<open>availChain\<close> then offered no chain: none
  was available, or the next one was malformed and was skipped.\<close>

theorem rx_progress:
  assumes "core_ok c" and "ring_ok [] (net_pending v)" and "ready (queues c ! virtioNetRxQ)"
    and "list_all (\<lambda>p. length p \<le> virtioNetHdrLen + virtioNetMaxFrame) (ring_items (net_pending v))"
  shows "\<exists>c' q k c0. tryRx (c, v) = (c', v \<lparr> net_pending := q \<rparr>) \<and> ring_ok [] q \<and>
    k \<le> length (ring_items (net_pending v)) \<and> ring_items q = drop k (ring_items (net_pending v)) \<and>
    rx_rounds c (take k (ring_items (net_pending v))) c0 \<and>
    (if k = length (ring_items (net_pending v)) then c' = c0
     else availChain (chainLimit (Some net_maxChainBytes) (mem c0) virtioNetRxQ) virtioNetRxQ c0 = (c', None))"
proof -
  obtain c' v' where r: "rx_loop (c, v) = (c', v')" by (cases "rx_loop (c, v)")
  note ok = rx_loop_ok [OF assms(1,2) r]
  then obtain taken c0 where t: "ring_items (net_pending v) = taken @ ring_items (net_pending v')"
      "rx_rounds c taken c0" "if ring_items (net_pending v') = [] then c' = c0 else rxAvail c0 = (c', None)"
    using assms(4) by (auto simp: rx_run_def packets_fit_def)
  have k: "length taken \<le> length (ring_items (net_pending v))"
      "(length taken = length (ring_items (net_pending v))) = (ring_items (net_pending v') = [])"
      "take (length taken) (ring_items (net_pending v)) = taken"
      "drop (length taken) (ring_items (net_pending v)) = ring_items (net_pending v')"
    unfolding t(1) by (simp_all flip: length_ring_items)
  have "tryRx (c, v) = (c', v \<lparr> net_pending := net_pending v' \<rparr>)" using r assms(3) ok by (simp add: tryRx_def)
  then show ?thesis
    using ok k t(2,3) by (intro exI [of _ c'] exI [of _ "net_pending v'"] exI [of _ "length taken"] exI [of _ c0]) auto
qed

text \<open>A guest that offers one writable buffer of 46 bytes, and a frame of 34 bytes waiting.\<close>

definition inbound_ram :: RAM where
  "inbound_ram = NewRAM
     ([48, 0, 0, 0, 0, 0, 0, 0, 46, 0, 0, 0, 2, 0, 0, 0,
       0, 0, 1, 0, 0, 0, 0, 0] @ replicate 70 0) 0"

definition inbound_queue :: virtq where
  "inbound_queue = \<lparr>ready = True, num = 1, descAddr = 0, availAddr = 16, usedAddr = 24, lastAvail = 0\<rparr>"

definition inbound_core :: Core where
  "inbound_core = \<lparr>mem = inbound_ram, irq = 0, base = 0, featureSel = 0, driverFeat = 0, driverSel = 0,
     queueSel = 0, queues = [inbound_queue, zero_virtq], status = 0, isr = 0, gen = 0, irqTrace = []\<rparr>"

definition inbound_net :: Net where
  "inbound_net = snd (enqueueRXFrame (replicate 34 9) (NewNetConn [2, 0, 0, 0, 0, 1] (\<lambda>_. 0)))"

lemma inbound_rangeOff: "rangeOff inbound_ram a n = (if a \<le> 94 \<and> n \<le> 94 - a then Some a else None)"
  by (simp add: inbound_ram_def rangeOff_def NewRAM_def Let_def)

lemma inbound_reads:
  "readAt inbound_ram 16 2 = Inr [0, 0]" "readAt inbound_ram 18 2 = Inr [1, 0]"
  "readAt inbound_ram 20 2 = Inr [0, 0]"
  "readAt inbound_ram 0 16 = Inr [48, 0, 0, 0, 0, 0, 0, 0, 46, 0, 0, 0, 2, 0, 0, 0]"
  unfolding readAt_def inbound_rangeOff by (simp_all add: inbound_ram_def NewRAM_def slice_def)

lemma inbound_avail:
  "rxAvail inbound_core = (bump_avail virtioNetRxQ inbound_core,
     Some (0, [\<lparr>d_addr = 48, d_len = 46, d_flags = 2, d_next = 0\<rparr>]))"
  by (simp add: availChain_def inbound_core_def inbound_queue_def numValid_def inbound_reads Let_def
      descAt_def vring_consts Uint16_def Uint32_def Uint64_def virtioNetRxQ_def chainLimit_def net_maxChainBytes_def
      netMaxChainBytes_def virtioNetMaxFrame_def virtioNetHdrLen_def
      contains_def inbound_rangeOff chain_walk.simps bump_avail_def)

lemma inbound_waiting:
  "ring_ok [] (net_pending inbound_net)" "ring_items (net_pending inbound_net) = [replicate 12 0 @ replicate 34 9]"
proof -
  let ?q = "new_ring [] :: bytes pendingRing" and ?p = "replicate virtioNetHdrLen 0 @ replicate 34 9 :: bytes"
  have q: "ring_ok [] ?q" "count ?q < pendingRingCapacity"
    using new_ring_ok by (simp_all add: new_ring_def pendingRingCapacity_def)
  have "net_pending inbound_net = fst (ring_Push ?p ?q)"
    by (simp add: inbound_net_def enqueueRXFrame_def NewNetConn_def ring_Full_def new_ring_def
        pendingRingCapacity_def split: prod.split)
  moreover have "ring_items ?q = []" by (simp add: ring_items_def new_ring_def)
  ultimately show "ring_ok [] (net_pending inbound_net)"
      "ring_items (net_pending inbound_net) = [replicate 12 0 @ replicate 34 9]"
    using ring_Push_ok [OF q] by (simp_all add: virtioNetHdrLen_def)
qed

text \<open>The waiting frame is delivered whole.\<close>

theorem rx_progress_witness:
  "\<exists>c' q. tryRx (inbound_core, inbound_net) = (c', inbound_net \<lparr> net_pending := q \<rparr>) \<and> ring_items q = [] \<and>
    rx_rounds inbound_core [replicate 12 0 @ replicate 34 9] c'"
proof -
  have ok: "core_ok inbound_core"
    by (simp add: inbound_core_def core_ok_def inbound_ram_def ram_ok_NewRAM queue_ok_def numValid_def
        inbound_queue_def zero_virtq_def vring_consts)
  have rdy: "ready (queues inbound_core ! virtioNetRxQ)"
    by (simp add: inbound_core_def inbound_queue_def virtioNetRxQ_def)
  have "list_all (\<lambda>p. length p \<le> virtioNetHdrLen + virtioNetMaxFrame) (ring_items (net_pending inbound_net))"
    by (simp add: inbound_waiting virtioNetHdrLen_def virtioNetMaxFrame_def)
  from rx_progress [OF ok inbound_waiting(1) rdy this] obtain c' q k c0 where
    t: "tryRx (inbound_core, inbound_net) = (c', inbound_net \<lparr> net_pending := q \<rparr>)"
      "ring_items q = drop k [replicate 12 0 @ replicate 34 9]"
      "rx_rounds inbound_core (take k [replicate 12 0 @ replicate 34 9]) c0"
      "if k = 1 then c' = c0 else rxAvail c0 = (c', None)" "k \<le> 1"
    unfolding inbound_waiting(2) by auto
  have "k = 1"
  proof (rule ccontr)
    assume "k \<noteq> 1"
    then have "k = 0" using t(5) by simp
    then have "c0 = inbound_core" using t(3) by (auto elim: rx_rounds_NilE)
    then show False using t(4) \<open>k \<noteq> 1\<close> inbound_avail by simp
  qed
  then show ?thesis using t by auto
qed

section \<open>The stream framing\<close>

lemma writePacket_all: "writePacket rs p = (w, None) \<Longrightarrow> w = p"
proof (induction rs p arbitrary: w rule: writePacket.induct)
  case (2 n rs b p)
  then show ?case by (auto split: if_splits prod.splits)
qed auto

lemma qemu_Read_frame:
  assumes "length p \<le> virtioNetMaxFrame" "length p \<le> n"
  shows "qemu_Read n (qemu_frame p @ rest) = (Inr p, rest)"
proof -
  have len: "length (BEPutUint32 x) = 4" for x by (simp add: BEPutUint32_def)
  have "BEUint32 (BEPutUint32 x) = x" for x by (simp add: BEUint32_def BEPutUint32_def)
  moreover have "unat (of_nat (length p) :: u32) = length p"
    using assms(1) by (simp add: unat_of_nat virtioNetMaxFrame_def)
  ultimately show ?thesis
    using assms len by (simp add: qemu_Read_def qemu_frame_def Let_def)
qed

text \<open>Sending a list of frames, each with the counts the connection answers, and receiving as many.\<close>

fun qemu_send :: "(nat option list \<times> bytes) list \<Rightarrow> bytes option" where
  "qemu_send [] = Some []"
| "qemu_send ((rs, p) # jobs) =
    (case qemu_Write rs p of
       (w, Inr _) \<Rightarrow> map_option ((@) w) (qemu_send jobs)
     | _ \<Rightarrow> None)"

fun qemu_recv :: "nat \<Rightarrow> bytes \<Rightarrow> bytes list \<times> bytes" where
  "qemu_recv 0 s = ([], s)"
| "qemu_recv (Suc k) s =
    (case qemu_Read virtioNetMaxFrame s of
       (Inr p, rest) \<Rightarrow> (case qemu_recv k rest of (ps, r) \<Rightarrow> (p # ps, r))
     | (Inl _, rest) \<Rightarrow> ([], rest))"

text \<open>C40. The QEMU stream framing is faithful. If every frame of a sequence was written without error,
  however the connection split the writes, then the peer reading that many frames from the bytes
  obtains exactly those frames in order and consumes exactly those bytes.\<close>

theorem qemu_stream_roundtrip:
  assumes "qemu_send jobs = Some s"
  shows "qemu_recv (length jobs) (s @ rest) = (map snd jobs, rest)"
  using assms
proof (induction jobs arbitrary: s)
  case (Cons job jobs)
  obtain rs p where job: "job = (rs, p)" by (cases job)
  have len: "length p \<le> virtioNetMaxFrame"
    using Cons.prems job by (auto simp: qemu_Write_def split: if_splits)
  obtain w where w: "writePacket rs (qemu_frame p) = (w, None)" "qemu_Write rs p = (w, Inr (length p))"
    using Cons.prems job by (auto simp: qemu_Write_def split: if_splits prod.splits option.splits)
  then obtain s2 where s2: "qemu_send jobs = Some s2" "s = qemu_frame p @ s2"
    using Cons.prems job writePacket_all [OF w(1)] by auto
  then show ?case
    using Cons.IH [OF s2(1)] job qemu_Read_frame [OF len len, of "s2 @ rest"] by simp
qed simp

lemma put_le_numeral: "put_le (numeral n) x = of_nat x # put_le (pred_numeral n) (x div 256)"
  by (subst numeral_eq_Suc) (simp only: put_le.simps)

theorem qemu_stream_roundtrip_witness:
  "qemu_recv 2 ([0, 0, 0, 1, 7, 0, 0, 0, 2, 8, 9] @ []) = ([[7], [8, 9]], [])"
proof -
  have "qemu_send [([Some 5], [7]), ([Some 1, Some 5], [8, 9])] = Some [0, 0, 0, 1, 7, 0, 0, 0, 2, 8, 9]"
    by (simp add: qemu_Write_def qemu_frame_def BEPutUint32_def PutUint32_def virtioNetMaxFrame_def put_le_numeral)
  from qemu_stream_roundtrip [OF this, of "[]"] show ?thesis by (simp add: numeral_eq_Suc)
qed

end
