(* ===== verification/Virtio_Termination.thy ===== *)
theory Virtio_Termination
  imports Virtio_Net_Correct
begin

text \<open>
  When the queue loop returns.  A device that leaves the available index alone drains its queue in as
  many rounds as the index is ahead of the device; the transmit path of the network device is such a device
  when the used ring and the available index do not share memory.
\<close>

unbundle bit_operations_syntax

section \<open>Draining a stable ring\<close>

definition avail_bytes :: "nat \<Rightarrow> Core \<Rightarrow> mem_error + bytes" where
  "avail_bytes qn c = readAt (mem c) (availAddr (queues c ! qn) + 2) 2"

definition backlog :: "nat \<Rightarrow> Core \<Rightarrow> nat" where
  "backlog qn c = (case avail_bytes qn c of Inl _ \<Rightarrow> 0 | Inr b \<Rightarrow> unat (Uint16 b - lastAvail (queues c ! qn)))"

lemma availChain_backlog:
  assumes "availChain limit qn c = (c', Some hc)"
  obtains b where "avail_bytes qn c = Inr b" "Uint16 b \<noteq> lastAvail (queues c ! qn)"
  using assms by (auto simp: availChain_def avail_bytes_def Let_def split: if_splits sum.splits)

lemma drain_returns:
  assumes stable: "\<And>c d hx chain. P c d \<Longrightarrow> qn < length (queues c) \<Longrightarrow>
      availChain (chainLimit limiter (mem c) qn) qn c = (bump_avail qn c, Some (hx, chain)) \<Longrightarrow>
      \<exists>c2 d2. step hx chain (bump_avail qn c, d) = Done (c2, d2) \<and> P c2 d2
        \<and> avail_bytes qn c2 = avail_bytes qn c \<and> lastAvail (queues c2 ! qn) = lastAvail (queues c ! qn) + 1"
  shows "P c d \<Longrightarrow> \<exists>r. drain limiter step qn (c, d) = Some (Done r)"
proof (induct "backlog qn c" arbitrary: c d rule: less_induct)
  case less
  let ?lim = "chainLimit limiter (mem c) qn"
  show ?case
  proof (cases "snd (availChain ?lim qn c)")
    case None
    then show ?thesis by (subst drain.simps) (auto split: prod.split)
  next
    case (Some hc)
    then have "availChain ?lim qn c = (fst (availChain ?lim qn c), Some (fst hc, snd hc))"
      by (metis prod.collapse)
    from this availChain_Some(1,3) [OF this]
    have av: "availChain ?lim qn c = (bump_avail qn c, Some (fst hc, snd hc))" and q: "qn < length (queues c)"
      by simp_all
    obtain c2 d2 where s: "step (fst hc) (snd hc) (bump_avail qn c, d) = Done (c2, d2)" "P c2 d2"
      "avail_bytes qn c2 = avail_bytes qn c" "lastAvail (queues c2 ! qn) = lastAvail (queues c ! qn) + 1"
      using stable [OF less.prems q av] by blast
    obtain b where b: "avail_bytes qn c = Inr b" "Uint16 b \<noteq> lastAvail (queues c ! qn)"
      using availChain_backlog [OF av] by blast
    have "Uint16 b - lastAvail (queues c ! qn) \<noteq> 0" using b(2) by simp
    then have "unat (Uint16 b - (lastAvail (queues c ! qn) + 1)) < unat (Uint16 b - lastAvail (queues c ! qn))"
      by (simp add: diff_diff_eq [symmetric] unat_minus_one unat_gt_0)
    then have "backlog qn c2 < backlog qn c" using b s(3,4) by (simp add: backlog_def)
    from less.hyps [OF this s(2)] show ?thesis using av s(1) by (subst drain.simps) simp
  qed
qed

section \<open>Rings that do not overlap\<close>

definition ring_separate :: "RAM \<Rightarrow> virtq \<Rightarrow> bool" where
  "ring_separate m q \<longleftrightarrow> (\<forall>i j. host_off m (availAddr q + 2) 2 = Some j \<longrightarrow>
     (\<forall>x. host_off m (used_slot q x) 8 = Some i \<longrightarrow> disjoint_ranges i 8 j 2)
   \<and> (host_off m (usedAddr q + 2) 2 = Some i \<longrightarrow> disjoint_ranges i 2 j 2))"

lemma writeAt_keeps_read:
  assumes "ram_ok m" "length p < 2 ^ 63" "writeAt m a p = Inr m'" "n < 2 ^ 63"
    and "\<And>i j. host_off m a (length p) = Some i \<Longrightarrow> host_off m b n = Some j \<Longrightarrow> disjoint_ranges i (length p) j n"
  shows "readAt m' b n = readAt m b n"
proof (cases "host_off m b n")
  case None
  have "ram_ok m'" "host_off m' = host_off m" using gmem.wr_Inr [OF assms(1-3)] by simp_all
  then show ?thesis using None assms(1,4) by (simp add: readAt_host_off)
next
  case (Some j)
  obtain i where "host_off m a (length p) = Some i" using assms(1-3) by (auto simp: writeAt_host_off split: option.splits)
  then show ?thesis using gmem.rd_frame [OF assms(1,2,4,3)] assms(5) Some by blast
qed

lemma pushUsed_keeps_avail:
  assumes "ram_ok (mem c)" "ring_separate (mem c) (queues c ! qn)"
  shows "avail_bytes qn (pushUsed qn hx w c) = avail_bytes qn c"
proof -
  let ?q = "queues c ! qn" and ?elem = "PutUint32 (ucast hx) @ PutUint32 w"
  have first: "readAt m1 (availAddr ?q + 2) 2 = readAt (mem c) (availAddr ?q + 2) 2"
      "ram_ok m1" "host_off m1 = host_off (mem c)"
    if "writeAt (mem c) (used_slot ?q x) ?elem = Inr m1" for m1 x
    using writeAt_keeps_read [OF assms(1) _ that, of 2 "availAddr ?q + 2"] assms(2) gmem.wr_Inr [OF assms(1) _ that]
    by (auto simp: ring_separate_def)
  have second: "readAt m2 (availAddr ?q + 2) 2 = readAt (mem c) (availAddr ?q + 2) 2"
    if "writeAt (mem c) (used_slot ?q x) ?elem = Inr m1" "writeAt m1 (usedAddr ?q + 2) (PutUint16 y) = Inr m2" for m1 m2 x y
    using writeAt_keeps_read [OF first(2) [OF that(1)] _ that(2), of 2 "availAddr ?q + 2"] first [OF that(1)] assms(2)
    by (auto simp: ring_separate_def)
  show ?thesis
    by (auto simp: pushUsed_def avail_bytes_def Let_def raiseIRQ_def used_slot_def [symmetric] first(1) second
        split: sum.split)
qed

lemma ring_separate_config:
  assumes "same_config c c'" "qn < length (queues c)"
  shows "ring_separate (mem c') (queues c' ! qn) = ring_separate (mem c) (queues c ! qn)"
proof -
  have r: "rangeOff (mem c') = rangeOff (mem c)" using assms(1) by (simp add: same_config_def)
  then have h: "host_off (mem c') = host_off (mem c)" by (simp add: host_off_def fun_eq_iff)
  from same_config_nth [OF assms] have "availAddr (queues c' ! qn) = availAddr (queues c ! qn)"
    "usedAddr (queues c' ! qn) = usedAddr (queues c ! qn)" "num (queues c' ! qn) = num (queues c ! qn)"
    by (metis (no_types, lifting) virtq.ext_inject virtq.surjective virtq.update_convs(6))+
  then show ?thesis by (simp add: ring_separate_def used_slot_def h)
qed

lemma pushUsed_queues: "queues (pushUsed qn hx w c) = queues c"
  by (simp add: pushUsed_def Let_def raiseIRQ_def split: sum.split)

section \<open>The policy check returns\<close>

lemma resolve_same_active:
  assumes "\<And>x. current s' x = current s x"
  shows "resolve s p = Some q \<Longrightarrow> resolve s' p = Some q"
proof -
  have "st = s \<longrightarrow> resolve s' x = Some y" if "resolve st x = Some y" for st x y
  proof (rule resolve.raw_induct [OF _ that])
    fix f :: "NetStore \<Rightarrow> nat \<Rightarrow> nat option" and st x y
    assume IH: "\<And>st x y. f st x = Some y \<Longrightarrow> st = s \<longrightarrow> resolve s' x = Some y"
      and eq: "(if current st x \<noteq> x then f st (current st x) else Some x) = Some y"
    show "st = s \<longrightarrow> resolve s' x = Some y"
      using IH eq assms by (subst resolve.simps) (auto split: if_splits)
  qed
  then show "resolve s p = Some q \<Longrightarrow> resolve s' p = Some q" by blast
qed

lemma Allows_active: "Allows p now dst proto dport = (b, p') \<Longrightarrow> p_active p' = p_active p"
  by (auto simp: Allows_def split: if_splits option.splits)

lemma match_gateway_active: "match_gateway U now pp p t = Some (b, p', t') \<Longrightarrow> p_active p' = p_active p"
  by (auto simp: match_gateway_def dest: Allows_active split: if_splits option.splits prod.splits bool.splits)

lemma match_tx_active: "match_tx U now frame p t = Some (b, p', t') \<Longrightarrow> p_active p' = p_active p"
  by (auto simp: match_tx_def Let_def dest: Allows_active match_gateway_active split: if_splits prod.splits)

lemma policy_table_current: "policy_table s q = (s1, r) \<Longrightarrow> current s1 x = current s x"
  by (cases "x = q") (auto simp: policy_table_def current_def split: option.splits)

lemma MatchTX_returns:
  assumes "store_ok s" "resolve s p = Some q"
  shows "\<exists>b s'. MatchTX U now frame s p = Some (b, s') \<and> store_ok s' \<and> resolve s' p = Some q"
proof -
  obtain s1 r where t: "policy_table s q = (s1, r)" by (cases "policy_table s q")
  have s1: "store_ok s1" "current s1 x = current s x" for x
    using policy_table_ok [OF assms(1) t] policy_table_current [OF t] by simp_all
  obtain b pol tb where m: "match_tx U now frame (ns_policy s1 q) (ns_table s1 r) = Some (b, pol, tb)"
    using match_tx_ok [of "ns_table s1 r" U now frame "ns_policy s1 q"] s1(1) by (auto simp: store_ok_def)
  have e: "MatchTX U now frame s p = Some (b, put_back s1 q pol r tb)"
    using assms(2) t m by (simp add: MatchTX_def)
  have "current (put_back s1 q pol r tb) x = current s x" for x
    using match_tx_active [OF m] s1(2) [of x] by (auto simp: put_back_def current_def)
  then have "resolve (put_back s1 q pol r tb) p = Some q" using assms(2) by (rule resolve_same_active)
  then show ?thesis using e MatchTX_ok [OF assms(1) e] by blast
qed

definition policy_settled :: "Net \<Rightarrow> bool" where
  "policy_settled v \<longleftrightarrow> (case net_policy v of None \<Rightarrow> True | Some (s, p) \<Rightarrow> store_ok s \<and> resolve s p \<noteq> None)"

lemma writeFrame_returns:
  assumes "policy_settled v"
  shows "\<exists>v'. writeFrame U frame v = Some v' \<and> policy_settled v'"
proof (cases "net_policy v")
  case None
  then show ?thesis by (auto simp: writeFrame_def policy_match_def policy_settled_def Let_def)
next
  case (Some sp)
  then obtain s p q where sp: "net_policy v = Some (s, p)" "store_ok s" "resolve s p = Some q"
    using assms by (cases sp) (auto simp: policy_settled_def)
  obtain b s' where "MatchTX U (net_clock v (net_ticks v)) frame s p = Some (b, s')" "store_ok s'" "resolve s' p = Some q"
    using MatchTX_returns [OF sp(2,3)] by blast
  then show ?thesis using sp(1) by (auto simp: writeFrame_def policy_match_def policy_settled_def Let_def)
qed

lemma net_tx_step_returns:
  assumes "policy_settled v"
  shows "\<exists>v'. net_tx_step U hx chain (c, v) = Some (pushUsed virtioNetTxQ hx 0 c, v') \<and> policy_settled v'"
  using assms writeFrame_returns [OF assms, of U] by (fastforce simp: net_tx_step_def split: sum.split)


definition tx_core :: Core where
  "tx_core = sample_core \<lparr> queues := [sample_queue, sample_queue] \<rparr>"

lemma tx_core_separate: "ring_separate (mem tx_core) (queues tx_core ! virtioNetTxQ)"
proof -
  have "(x :: u16) mod 1 = 0" for x by (simp add: word_mod_def)
  then have u: "used_slot sample_queue x = 28" for x by (simp add: used_slot_def sample_queue_def)
  have "host_off sample_ram 18 2 = Some 18" "host_off sample_ram 26 2 = Some 26" "host_off sample_ram 28 8 = Some 28"
    by (simp_all add: host_off_def rangeOff_def sample_ram_def NewRAM_def)
  then show ?thesis
    unfolding ring_separate_def
    by (simp add: u tx_core_def sample_core_def virtioNetTxQ_def disjoint_ranges_def)
      (simp add: sample_queue_def)
qed


end
