(* ===== verification/Net_Example.thy ===== *)
theory Net_Example
  imports Virtio_Termination
begin

text \<open>
  A guest that programs its transmit queue through the register interface and sends one ARP request,
  evaluated on the model: a state of the network device in which a frame has reached the wire.
\<close>

unbundle bit_operations_syntax

definition arp_frame :: bytes where
  "arp_frame = [255, 255, 255, 255, 255, 255, 2, 0, 0, 0, 0, 1, 8, 6,
     0, 0, 0, 0, 0, 0, 0, 0, 0, 0, 0, 0, 0, 0, 0, 0, 0, 0, 0, 0]"

text \<open>The descriptor table at 0 with one descriptor of 46 bytes at 48, the available ring at 16 offering
  it, the used ring at 24.\<close>

definition arp_ram :: RAM where
  "arp_ram = NewRAM
     ([48, 0, 0, 0, 0, 0, 0, 0, 46, 0, 0, 0, 0, 0, 0, 0,
       0, 0, 1, 0, 0, 0, 0, 0,
       0, 0, 0, 0, 0, 0, 0, 0, 0, 0, 0, 0, 0, 0, 0, 0, 0, 0, 0, 0, 0, 0, 0, 0,
       0, 0, 0, 0, 0, 0, 0, 0, 0, 0, 0, 0] @ arp_frame) 0"

definition arp_net :: Net where
  "arp_net = SetPolicy (empty_store, 0) (NewNetConn [2, 0, 0, 0, 0, 1] (\<lambda>_. 0))"

definition no_unpack :: unpack where
  "no_unpack = (\<lambda>_. None)"

fun guest_writes :: "(u64 \<times> u32) list \<Rightarrow> Core \<times> Net \<Rightarrow> (Core \<times> Net) option" where
  "guest_writes [] s = Some s"
| "guest_writes ((offs, val) # ws) s =
    (case MMIOWrite (NetDevice no_unpack) offs val s of Done s' \<Rightarrow> guest_writes ws s' | _ \<Rightarrow> None)"

lemma guest_writes_reachable:
  "net_reachable no_unpack m st p s \<Longrightarrow> guest_writes ws s = Some s' \<Longrightarrow> net_reachable no_unpack m st p s'"
proof (induct ws s rule: guest_writes.induct)
  case (2 offs val ws s)
  then show ?case by (auto split: outcome.splits intro: net_step net_guest)
qed simp

definition arp_setup :: "(u64 \<times> u32) list" where
  "arp_setup = [(0x030, 1), (0x038, 1), (0x090, 16), (0x0a0, 24), (0x044, 1)]"

definition arp_queue :: virtq where
  "arp_queue = \<lparr>ready = True, num = 1, descAddr = 0, availAddr = 16, usedAddr = 24, lastAvail = 0\<rparr>"

definition arp_core :: Core where
  "arp_core = \<lparr>mem = arp_ram, irq = 0, base = 0, featureSel = 0, driverFeat = 0, driverSel = 0,
     queueSel = 1, queues = [zero_virtq, arp_queue], status = 0, isr = 0, gen = 0, irqTrace = []\<rparr>"

lemma arp_setup_run:
  "guest_writes arp_setup (NewCoreAt (NetDevice no_unpack) arp_ram 0 0, arp_net) = Some (arp_core, arp_net)"
  by (simp add: arp_setup_def arp_core_def NewCoreAt_def NetDevice_def MMIOWrite_def at_selected_def
      replicate_numeral zero_virtq_def arp_queue_def virtqSize_def numValid_def set_low_def vring_consts)

lemma arp_rangeOff: "rangeOff arp_ram a n = (if a \<le> 94 \<and> n \<le> 94 - a then Some a else None)"
  by (simp add: arp_ram_def arp_frame_def rangeOff_def NewRAM_def Let_def)

lemma arp_read: "readAt arp_ram a n =
    (if a \<le> 94 \<and> of_nat n \<le> 94 - a then (case slice (unat a) n (ram arp_ram) of
        None \<Rightarrow> Inl SlicePanic | Some p \<Rightarrow> Inr p) else Inl OutsideRAM)"
  by (simp add: readAt_def arp_rangeOff)

lemma arp_reads:
  "readAt arp_ram 16 2 = Inr [0, 0]" "readAt arp_ram 18 2 = Inr [1, 0]"
  "readAt arp_ram 20 2 = Inr [0, 0]" 
  "readAt arp_ram 0 16 = Inr [48, 0, 0, 0, 0, 0, 0, 0, 46, 0, 0, 0, 0, 0, 0, 0]"
  "readAt arp_ram 48 46 = Inr ([0, 0, 0, 0, 0, 0, 0, 0, 0, 0, 0, 0] @ arp_frame)"
  unfolding arp_read by (simp_all add: arp_ram_def arp_frame_def NewRAM_def slice_def)

definition arp_desc :: desc where
  "arp_desc = \<lparr>d_addr = 48, d_len = 46, d_flags = 0, d_next = 0\<rparr>"

lemma arp_avail: "availChain (chainLimit (Some net_maxChainBytes) arp_ram virtioNetTxQ) virtioNetTxQ arp_core =
    (bump_avail virtioNetTxQ arp_core, Some (0, [arp_desc]))"
  by (simp add: availChain_def arp_core_def arp_queue_def numValid_def arp_reads Let_def
      descAt_def vring_consts Uint16_def Uint32_def Uint64_def virtioNetTxQ_def chainLimit_def net_maxChainBytes_def
      netMaxChainBytes_def virtioNetMaxFrame_def virtioNetHdrLen_def
      contains_def arp_rangeOff chain_walk.simps bump_avail_def arp_desc_def)

lemma arp_separate: "ring_separate arp_ram arp_queue"
proof -
  have "(x :: u16) mod 1 = 0" for x by (simp add: word_mod_def)
  then have "used_slot arp_queue x = 28" for x by (simp add: used_slot_def arp_queue_def)
  moreover have "host_off arp_ram 18 2 = Some 18" "host_off arp_ram 26 2 = Some 26" "host_off arp_ram 28 8 = Some 28"
    by (simp_all add: host_off_def arp_rangeOff)
  ultimately show ?thesis
    unfolding ring_separate_def by (simp add: disjoint_ranges_def) (simp add: arp_queue_def)
qed

lemma availChain_idle:
  assumes "avail_bytes qn c = Inr b" "Uint16 b = lastAvail (queues c ! qn)"
  shows "availChain limit qn c = (c, None)"
  using assms by (auto simp: availChain_def avail_bytes_def Let_def split: sum.split)

lemma arp_sent:
  "\<exists>v. writeFrame no_unpack arp_frame arp_net = Some v \<and> wire v = [arp_frame]"
proof -
  have "parseFrame arp_frame = (zero_packet, True, False)"
    by (simp add: parseFrame_def arp_frame_def BEUint16_def etherTypeARP_def Let_def)
  moreover have "resolve empty_store 0 = Some 0"
    by (subst resolve.simps) (simp add: current_def empty_store_def zero_policy_def)
  ultimately show ?thesis
    by (simp add: writeFrame_def policy_match_def arp_net_def SetPolicy_def NewNetConn_def MatchTX_def
        policy_table_def match_tx_def empty_store_def zero_policy_def guard_valid_def)
qed

lemma arp_transmit:
  "\<exists>s. MMIOWrite (NetDevice no_unpack) 0x050 1 (arp_core, arp_net) = Done s \<and> wire (snd s) = [arp_frame]"
proof -
  let ?b = "bump_avail virtioNetTxQ arp_core"
  let ?c = "pushUsed virtioNetTxQ 0 0 ?b"
  obtain v where v: "writeFrame no_unpack arp_frame arp_net = Some v" "wire v = [arp_frame]"
    using arp_sent by blast
  have "readChains (mem ?b) (fst (splitChain [arp_desc])) = Inr ([0, 0, 0, 0, 0, 0, 0, 0, 0, 0, 0, 0] @ arp_frame)"
    by (simp add: bump_avail_def arp_core_def arp_desc_def splitChain_def readChains_def arp_reads vring_consts)
  then have s: "net_tx_step no_unpack 0 [arp_desc] (?b, arp_net) = Some (?c, v)"
    using v(1) by (simp add: net_tx_step_def virtioNetHdrLen_def) (simp add: arp_frame_def)
  have "queues ?b ! virtioNetTxQ = arp_queue \<lparr> lastAvail := 1 \<rparr>" "mem ?b = arp_ram"
    by (simp_all add: bump_avail_def arp_core_def virtioNetTxQ_def) (simp add: arp_queue_def)
  moreover have "ring_separate arp_ram (arp_queue \<lparr> lastAvail := 1 \<rparr>)"
    using arp_separate by (simp add: ring_separate_def used_slot_def)
  moreover have "ram_ok arp_ram" by (simp add: arp_ram_def ram_ok_NewRAM arp_frame_def)
  ultimately have "avail_bytes virtioNetTxQ ?c = Inr [1, 0]"
    using pushUsed_keeps_avail [of ?b virtioNetTxQ 0 0]
    by (simp add: avail_bytes_def) (simp add: arp_queue_def arp_reads)
  moreover have "lastAvail (queues ?c ! virtioNetTxQ) = 1"
    by (simp add: pushUsed_queues bump_avail_def arp_core_def virtioNetTxQ_def arp_queue_def)
  ultimately have idle: "availChain limit virtioNetTxQ ?c = (?c, None)" for limit
    using availChain_idle [of virtioNetTxQ ?c "[1, 0]"] by (simp add: Uint16_def)
  have "net_handleTx no_unpack (arp_core, arp_net) = Done (?c, v)"
    unfolding net_handleTx_def
    using arp_avail s idle
    by (subst drain.simps, simp add: arp_core_def [THEN arg_cong [of _ _ mem]]) (subst drain.simps, simp)
  then show ?thesis
    using v(2) by (simp add: MMIOWrite_def NetDevice_def net_handleQueue_def virtioNetTxQ_def virtioNetRxQ_def
        arp_core_def arp_queue_def)
qed

text \<open>The frame on the wire has the shape that every reachable state guarantees.\<close>

theorem net_no_spoofing_witness:
  "\<exists>s. net_reachable no_unpack arp_ram empty_store 0 s \<and> wire (snd s) = [arp_frame]
     \<and> core_ok (fst s) \<and> list_all egress_shape (wire (snd s))"
proof -
  obtain s where s: "MMIOWrite (NetDevice no_unpack) 0x050 1 (arp_core, arp_net) = Done s" "wire (snd s) = [arp_frame]"
    using arp_transmit by blast
  have "net_reachable no_unpack arp_ram empty_store 0 (arp_core, arp_net)"
    using guest_writes_reachable [OF _ arp_setup_run] net_init by (simp add: arp_net_def)
  then have r: "net_reachable no_unpack arp_ram empty_store 0 s" using net_step net_guest [OF s(1)] by blast
  have "ram_ok arp_ram" by (simp add: arp_ram_def ram_ok_NewRAM arp_frame_def)
  from net_no_spoofing [OF r this empty_store_ok] show ?thesis
    using r s(2) by (intro exI [of _ s]) (simp add: list_all_iff)
qed

end
