(* ===== verification/Irqchips.thy ===== *)
theory Irqchips
  imports Gantry_Prelude
begin

text \<open>
  The user-space interrupt controllers of \<open>internal/vmm/devices\<close>: the cascaded 8259 pair
  (\<open>pic.go\<close>), the I/O APIC (\<open>ioapic.go\<close>) and the serialized line delivery (\<open>irq_queue.go\<close>).  A call
  of the delivery callback is the optional second component of a result.  The arbitration of the
  8259 pair is shown equal to a search in priority order over sixteen lines.
\<close>

unbundle bit_operations_syntax

section \<open>The 8259 pair\<close>

record picChip =
  imr :: byte
  irr :: byte
  in_service :: byte
  vectorBase :: byte
  initStep :: byte
  needICW4 :: bool
  autoEOI :: bool
  readISR :: bool

text \<open>\<open>pic_deliver\<close> says whether the delivery callback is set.\<close>

record PIC8259 =
  pic_master :: picChip
  pic_slave :: picChip
  pic_lines :: "bool list"
  pic_deliver :: bool

definition zero_chip :: picChip where
  "zero_chip = \<lparr> imr = 0, irr = 0, in_service = 0, vectorBase = 0, initStep = 0, needICW4 = False,
     autoEOI = False, readISR = False \<rparr>"

definition NewPIC :: "bool \<Rightarrow> PIC8259" where
  "NewPIC deliver = \<lparr> pic_master = zero_chip \<lparr> vectorBase := 0x08 \<rparr>,
     pic_slave = zero_chip \<lparr> vectorBase := 0x70 \<rparr>, pic_lines = replicate 16 False,
     pic_deliver = deliver \<rparr>"

definition lowest_set :: "byte \<Rightarrow> nat option" where
  "lowest_set bits = find (\<lambda>irq. bits AND push_bit irq 1 \<noteq> 0) [0 ..< 8]"

definition highestPriorityBit :: "byte \<Rightarrow> byte" where
  "highestPriorityBit bits = (case lowest_set bits of Some irq \<Rightarrow> push_bit irq 1 | None \<Rightarrow> 0)"

text \<open>\<open>pendingIRQ\<close>, with \<open>None\<close> for the result -1.\<close>

definition pendingIRQ :: "byte \<Rightarrow> byte \<Rightarrow> nat option" where
  "pendingIRQ pend inService =
    lowest_set (if inService \<noteq> 0 then pend AND (highestPriorityBit inService - 1) else pend)"

definition slave_irq :: "PIC8259 \<Rightarrow> nat option" where
  "slave_irq p = pendingIRQ (irr (pic_slave p) AND NOT (imr (pic_slave p))) (in_service (pic_slave p))"

definition cascadeRequestLocked :: "PIC8259 \<Rightarrow> byte" where
  "cascadeRequestLocked p = (if slave_irq p \<noteq> None then push_bit 2 1 else 0)"

text \<open>Acknowledging a request on one chip.\<close>

definition chip_ack :: "nat \<Rightarrow> picChip \<Rightarrow> picChip" where
  "chip_ack irq ch = ch \<lparr> irr := irr ch AND NOT (push_bit irq 1),
     in_service := (if autoEOI ch then in_service ch else in_service ch OR push_bit irq 1) \<rparr>"

definition chip_serve :: "nat \<Rightarrow> picChip \<Rightarrow> picChip" where
  "chip_serve irq ch = ch \<lparr> in_service := (if autoEOI ch then in_service ch else in_service ch OR push_bit irq 1) \<rparr>"

definition dispatchLocked :: "PIC8259 \<Rightarrow> PIC8259 \<times> u32 option" where
  "dispatchLocked p =
    (let sirq = slave_irq p;
         m = pic_master p;
         pend = irr m AND NOT (imr m);
         pend = (if sirq \<noteq> None \<and> imr m AND push_bit 2 1 = 0 then pend OR push_bit 2 1 else pend)
     in case pendingIRQ pend (in_service m) of
          None \<Rightarrow> (p, None)
        | Some mirq \<Rightarrow>
            (case sirq of
               Some si \<Rightarrow>
                 if mirq = 2
                 then (p \<lparr> pic_slave := chip_ack si (pic_slave p), pic_master := chip_serve 2 m \<rparr>,
                       Some (ucast (vectorBase (pic_slave p)) + of_nat si))
                 else (p \<lparr> pic_master := chip_ack mirq m \<rparr>, Some (ucast (vectorBase m) + of_nat mirq))
             | None \<Rightarrow> (p \<lparr> pic_master := chip_ack mirq m \<rparr>, Some (ucast (vectorBase m) + of_nat mirq))))"

definition pic_IORead :: "PIC8259 \<Rightarrow> u16 \<Rightarrow> byte" where
  "pic_IORead p port =
    (if port = 0x21 then imr (pic_master p)
     else if port = 0xa1 then imr (pic_slave p)
     else if port = 0x20 then
       (if readISR (pic_master p) then in_service (pic_master p)
        else irr (pic_master p) OR cascadeRequestLocked p)
     else if port = 0xa0 then
       (if readISR (pic_slave p) then in_service (pic_slave p) else irr (pic_slave p))
     else 0xff)"

definition chip_command :: "byte \<Rightarrow> picChip \<Rightarrow> picChip" where
  "chip_command val ch =
    (if val AND 0x10 \<noteq> 0 then
       ch \<lparr> initStep := 2, needICW4 := (val AND 1 \<noteq> 0), imr := 0, irr := 0, in_service := 0,
            autoEOI := False, readISR := False \<rparr>
     else if val AND 0x18 = 0x08 then
       (if val AND 0x02 \<noteq> 0 then ch \<lparr> readISR := (val AND 0x01 \<noteq> 0) \<rparr> else ch)
     else
       let command = drop_bit 5 val AND 7 in
       if command = 1 \<or> command = 5 then
         ch \<lparr> in_service := in_service ch AND NOT (highestPriorityBit (in_service ch)) \<rparr>
       else if command = 3 \<or> command = 7 then
         ch \<lparr> in_service := in_service ch AND NOT (push_bit (unat (val AND 7)) 1) \<rparr>
       else ch)"

definition chip_data :: "byte \<Rightarrow> picChip \<Rightarrow> picChip" where
  "chip_data val ch =
    (if initStep ch = 2 then ch \<lparr> vectorBase := val AND 0xf8, initStep := 3 \<rparr>
     else if initStep ch = 3 then ch \<lparr> initStep := (if needICW4 ch then 4 else 0) \<rparr>
     else if initStep ch = 4 then ch \<lparr> autoEOI := (val AND 0x02 \<noteq> 0), initStep := 0 \<rparr>
     else ch \<lparr> imr := val \<rparr>)"

definition pic_program :: "u16 \<Rightarrow> byte \<Rightarrow> PIC8259 \<Rightarrow> PIC8259" where
  "pic_program port val p =
    (let f = (if port = 0x20 \<or> port = 0xa0 then chip_command val else chip_data val) in
     if port = 0xa0 \<or> port = 0xa1 then p \<lparr> pic_slave := f (pic_slave p) \<rparr>
     else p \<lparr> pic_master := f (pic_master p) \<rparr>)"

text \<open>The callback runs for the dispatched vector only when it is set.\<close>

definition dispatch_deliver :: "PIC8259 \<Rightarrow> PIC8259 \<times> u32 option" where
  "dispatch_deliver p = (case dispatchLocked p of (p', v) \<Rightarrow> (p', if pic_deliver p then v else None))"

definition pic_IOWrite :: "u16 \<Rightarrow> byte \<Rightarrow> PIC8259 \<Rightarrow> PIC8259 \<times> u32 option" where
  "pic_IOWrite port val p = dispatch_deliver (pic_program port val p)"

definition pic_latch :: "int \<Rightarrow> bool \<Rightarrow> PIC8259 \<Rightarrow> PIC8259" where
  "pic_latch irq level p =
    (let previous = pic_lines p ! nat irq;
         p1 = p \<lparr> pic_lines := (pic_lines p)[nat irq := level] \<rparr>
     in if level \<and> \<not> previous then
          (if irq < 8
           then p1 \<lparr> pic_master := (pic_master p1) \<lparr> irr := irr (pic_master p1) OR push_bit (nat irq) 1 \<rparr> \<rparr>
           else p1 \<lparr> pic_slave := (pic_slave p1) \<lparr> irr := irr (pic_slave p1) OR push_bit (nat irq - 8) 1 \<rparr> \<rparr>)
        else p1)"

definition pic_Raise :: "int \<Rightarrow> bool \<Rightarrow> PIC8259 \<Rightarrow> PIC8259 \<times> u32 option" where
  "pic_Raise irq level p =
    (if irq < 0 \<or> 16 \<le> irq then (p, None) else dispatch_deliver (pic_latch irq level p))"

definition SetDeliver :: "bool \<Rightarrow> PIC8259 \<Rightarrow> PIC8259 \<times> u32 option" where
  "SetDeliver deliver p = dispatch_deliver (p \<lparr> pic_deliver := deliver \<rparr>)"

section \<open>Arbitration in priority order\<close>

text \<open>
  The sixteen lines in the order the pair serves them: the slave's eight lines stand in the place of
  the master's line 2, and the master's own line 2 comes after them.
\<close>

definition priority_order :: "nat list" where
  "priority_order = [0, 1] @ [8 ..< 16] @ [2 ..< 8]"

definition no_higher_in_service :: "nat \<Rightarrow> picChip \<Rightarrow> bool" where
  "no_higher_in_service i ch \<longleftrightarrow> (\<forall>j \<le> i. \<not> bit (in_service ch) j)"

definition wants :: "nat \<Rightarrow> picChip \<Rightarrow> bool" where
  "wants i ch \<longleftrightarrow> bit (irr ch) i \<and> \<not> bit (imr ch) i \<and> no_higher_in_service i ch"

definition deliverable_irq :: "PIC8259 \<Rightarrow> nat \<Rightarrow> bool" where
  "deliverable_irq p i =
    (if i < 8 then wants i (pic_master p)
     else wants (i - 8) (pic_slave p) \<and> \<not> bit (imr (pic_master p)) 2 \<and> no_higher_in_service 2 (pic_master p))"

definition acknowledge :: "PIC8259 \<Rightarrow> nat \<Rightarrow> PIC8259 \<times> u32 option" where
  "acknowledge p i =
    (if i < 8 then (p \<lparr> pic_master := chip_ack i (pic_master p) \<rparr>, Some (ucast (vectorBase (pic_master p)) + of_nat i))
     else (p \<lparr> pic_slave := chip_ack (i - 8) (pic_slave p), pic_master := chip_serve 2 (pic_master p) \<rparr>,
           Some (ucast (vectorBase (pic_slave p)) + of_nat (i - 8))))"

lemma lowest_set_bit: "lowest_set b = find (bit b) [0 ..< 8]"
  unfolding lowest_set_def bit_iff_and_push_bit_not_eq_0 ..

lemma lowest_set_Some:
  "lowest_set b = Some i \<longleftrightarrow> i < 8 \<and> bit b i \<and> (\<forall>j < i. \<not> bit b j)"
  unfolding lowest_set_bit find_Some_iff by (auto simp del: upt_rec_numeral)

lemma lowest_set_None: "lowest_set b = None \<longleftrightarrow> (\<forall>i < 8. \<not> bit b i)"
  unfolding lowest_set_bit find_None_iff by auto

lemma byte_bit_imp_less: "bit (b :: byte) i \<Longrightarrow> i < 8"
  using bit_imp_le_length [of b i] by simp

lemma byte_nonzero_bit: "b \<noteq> (0 :: byte) \<Longrightarrow> \<exists>i < 8. bit b i"
  using bit_eq_iff [of b 0] byte_bit_imp_less [of b] by auto

lemma highest_minus_one:
  assumes "s \<noteq> 0"
  shows "bit (highestPriorityBit s - 1) i \<longleftrightarrow> i < 8 \<and> (\<forall>j \<le> i. \<not> bit s j)"
proof -
  obtain k where k: "lowest_set s = Some k"
    using byte_nonzero_bit [OF assms] lowest_set_None [of s] by (cases "lowest_set s") auto
  then have "highestPriorityBit s - 1 = mask k"
    by (simp add: highestPriorityBit_def mask_eq_exp_minus_1 push_bit_eq_mult)
  then have "bit (highestPriorityBit s - 1) i \<longleftrightarrow> i < k \<and> i < 8" by (auto simp: bit_mask_iff)
  then show ?thesis using k [unfolded lowest_set_Some] by (metis leD leI le_less_trans less_or_eq_imp_le)
qed

lemma pendingIRQ_Some:
  "pendingIRQ q s = Some i \<longleftrightarrow>
    bit q i \<and> (\<forall>j \<le> i. \<not> bit s j) \<and> (\<forall>j < i. \<not> (bit q j \<and> (\<forall>k \<le> j. \<not> bit s k)))"
proof (cases "s = 0")
  case True
  then show ?thesis by (auto simp: pendingIRQ_def lowest_set_Some dest: byte_bit_imp_less)
next
  case False
  then show ?thesis
    by (auto simp: pendingIRQ_def lowest_set_Some bit_and_iff highest_minus_one dest: byte_bit_imp_less)
qed

lemma pendingIRQ_None: "pendingIRQ q s = None \<longleftrightarrow> (\<forall>i. \<not> (bit q i \<and> (\<forall>j \<le> i. \<not> bit s j)))"
proof (cases "s = 0")
  case True
  then show ?thesis by (auto simp: pendingIRQ_def lowest_set_None dest: byte_bit_imp_less)
next
  case False
  then show ?thesis
    by (auto simp: pendingIRQ_def lowest_set_None bit_and_iff highest_minus_one dest: byte_bit_imp_less)
qed

lemma slave_irq_Some:
  "slave_irq p = Some i \<longleftrightarrow> wants i (pic_slave p) \<and> (\<forall>j < i. \<not> wants j (pic_slave p))"
  by (auto simp: slave_irq_def pendingIRQ_Some wants_def no_higher_in_service_def bit_and_iff bit_not_iff
      dest: byte_bit_imp_less)

lemma slave_irq_None: "slave_irq p = None \<longleftrightarrow> (\<forall>i. \<not> wants i (pic_slave p))"
  by (auto simp: slave_irq_def pendingIRQ_None wants_def no_higher_in_service_def bit_and_iff bit_not_iff
      dest: byte_bit_imp_less)

lemma find_map: "find P (map f xs) = map_option f (find (P \<circ> f) xs)"
  by (induct xs) simp_all

lemma find_append: "find P (xs @ ys) = (case find P xs of None \<Rightarrow> find P ys | Some x \<Rightarrow> Some x)"
  by (induct xs) simp_all

lemma find_upt_Some: "find P [0 ..< n] = Some i \<longleftrightarrow> i < n \<and> P i \<and> (\<forall>j < i. \<not> P j)"
  unfolding find_Some_iff by (auto simp del: upt_rec_numeral)

lemma pendingIRQ_find: "pendingIRQ q s = find (\<lambda>i. bit q i \<and> (\<forall>j \<le> i. \<not> bit s j)) [0 ..< 8]"
  (is "_ = ?f")
proof (cases "pendingIRQ q s")
  case None
  then have "?f = None" unfolding find_None_iff by (auto simp: pendingIRQ_None)
  with None show ?thesis by simp
next
  case (Some i)
  then have "?f = Some i" unfolding find_upt_Some by (auto simp: pendingIRQ_Some byte_bit_imp_less)
  with Some show ?thesis by simp
qed

lemma slave_irq_find: "slave_irq p = find (\<lambda>i. wants i (pic_slave p)) [0 ..< 8]"
  unfolding slave_irq_def pendingIRQ_find
  by (intro find_cong refl) (auto simp: wants_def no_higher_in_service_def bit_and_iff bit_not_iff)

definition cascade_open :: "PIC8259 \<Rightarrow> bool" where
  "cascade_open p \<longleftrightarrow> \<not> bit (imr (pic_master p)) 2 \<and> no_higher_in_service 2 (pic_master p)"

lemma deliverable_slave:
  "find (deliverable_irq p) [8 ..< 16] = (if cascade_open p then map_option ((+) 8) (slave_irq p) else None)"
proof -
  have "[8 ..< 16] = map ((+) 8) [0 ..< 8 :: nat]" by (simp add: upt_rec)
  then have *: "find (deliverable_irq p) [8 ..< 16]
      = map_option ((+) 8) (find (\<lambda>i. wants i (pic_slave p) \<and> cascade_open p) [0 ..< 8])"
    unfolding find_map [symmetric] by (simp add: find_map comp_def deliverable_irq_def cascade_open_def)
  show ?thesis unfolding * slave_irq_find by (cases "cascade_open p") (simp_all add: find_None_iff)
qed

definition master_pending :: "PIC8259 \<Rightarrow> byte" where
  "master_pending p =
    (let pend = irr (pic_master p) AND NOT (imr (pic_master p))
     in if slave_irq p \<noteq> None \<and> imr (pic_master p) AND push_bit 2 1 = 0 then pend OR push_bit 2 1 else pend)"

lemma bit_master_pending:
  "bit (master_pending p) i \<longleftrightarrow>
    (bit (irr (pic_master p)) i \<and> \<not> bit (imr (pic_master p)) i)
    \<or> (i = 2 \<and> slave_irq p \<noteq> None \<and> \<not> bit (imr (pic_master p)) 2)"
proof -
  have "imr (pic_master p) AND push_bit 2 1 = 0 \<longleftrightarrow> \<not> bit (imr (pic_master p)) 2"
    using bit_iff_and_push_bit_not_eq_0 [of "imr (pic_master p)" 2] by blast
  then show ?thesis
    by (auto simp: master_pending_def Let_def bit_and_iff bit_or_iff bit_not_iff bit_push_bit_iff bit_1_iff
        dest: byte_bit_imp_less simp del: push_bit_numeral push_bit_of_1)
qed

lemma master_irq_find:
  "pendingIRQ (master_pending p) (in_service (pic_master p))
    = find (\<lambda>i. wants i (pic_master p) \<or> (i = 2 \<and> slave_irq p \<noteq> None \<and> cascade_open p)) [0 ..< 8]"
  unfolding pendingIRQ_find
  by (intro find_cong refl) (auto simp: bit_master_pending wants_def no_higher_in_service_def cascade_open_def)

lemma upt_8: "[0 ..< 8] = [0, 1] @ [2 ..< (8 :: nat)]" "[2 ..< 8] = (2 :: nat) # [3 ..< 8]"
  by (simp_all add: upt_rec)

lemma pendingIRQ_less: "pendingIRQ q s = Some i \<Longrightarrow> i < 8"
  by (auto simp: pendingIRQ_Some dest: byte_bit_imp_less)

lemma dispatch_master:
  "dispatchLocked p = (case pendingIRQ (master_pending p) (in_service (pic_master p)) of
      None \<Rightarrow> (p, None)
    | Some mirq \<Rightarrow> (case slave_irq p of
           Some si \<Rightarrow> if mirq = 2 then acknowledge p (8 + si) else acknowledge p mirq
         | None \<Rightarrow> acknowledge p mirq))"
proof (cases "pendingIRQ (master_pending p) (in_service (pic_master p))")
  case None
  then show ?thesis by (simp add: dispatchLocked_def master_pending_def Let_def)
next
  case (Some mirq)
  then show ?thesis using pendingIRQ_less [OF Some]
    by (cases "slave_irq p") (auto simp: dispatchLocked_def master_pending_def Let_def acknowledge_def)
qed

lemma master_search:
  "pendingIRQ (master_pending p) (in_service (pic_master p))
    = (if wants 0 (pic_master p) then Some 0 else if wants 1 (pic_master p) then Some 1
       else if wants 2 (pic_master p) \<or> (slave_irq p \<noteq> None \<and> cascade_open p) then Some 2
       else find (\<lambda>i. wants i (pic_master p)) [3 ..< 8])"
proof -
  have *: "find (\<lambda>i. wants i (pic_master p) \<or> (i = 2 \<and> slave_irq p \<noteq> None \<and> cascade_open p)) [3 ..< 8]
      = find (\<lambda>i. wants i (pic_master p)) [3 ..< 8]" by (intro find_cong) auto
  show ?thesis unfolding master_irq_find upt_8 find_append find.simps * by simp
qed

lemma order_search:
  "find (deliverable_irq p) priority_order
    = (if wants 0 (pic_master p) then Some 0 else if wants 1 (pic_master p) then Some 1
       else if slave_irq p \<noteq> None \<and> cascade_open p then map_option ((+) 8) (slave_irq p)
       else if wants 2 (pic_master p) then Some 2
       else find (\<lambda>i. wants i (pic_master p)) [3 ..< 8])"
proof -
  have "find (deliverable_irq p) [3 ..< 8] = find (\<lambda>i. wants i (pic_master p)) [3 ..< 8]"
    by (intro find_cong) (auto simp: deliverable_irq_def)
  moreover have "deliverable_irq p 0 = wants 0 (pic_master p)"
    "deliverable_irq p 1 = wants 1 (pic_master p)" "deliverable_irq p 2 = wants 2 (pic_master p)"
    by (simp_all add: deliverable_irq_def)
  ultimately show ?thesis
    unfolding priority_order_def find_append deliverable_slave upt_8(2) find.simps
    by (auto split: option.splits)
qed

lemma find_ge_3: "find P [3 ..< 8] = Some i \<Longrightarrow> i \<noteq> (2 :: nat)"
  using find_Some_iff [of P "[3 ..< 8]" i] nth_mem [of _ "[3 ..< 8 :: nat]"]
  by (metis atLeastLessThan_iff eval_nat_numeral(3) not_less_eq_eq order_refl set_upt)

lemma dispatch_eq_arbitration:
  "dispatchLocked p =
    (case find (deliverable_irq p) priority_order of None \<Rightarrow> (p, None) | Some i \<Rightarrow> acknowledge p i)"
proof -
  have "wants 2 (pic_master p) \<Longrightarrow> cascade_open p" by (simp add: wants_def cascade_open_def)
  then show ?thesis unfolding dispatch_master master_search order_search
    using find_ge_3 by (auto split: option.splits)
qed

section \<open>Edges are never lost\<close>

datatype pic_input = PicWrite u16 byte | PicLine int bool | PicDeliver bool

definition pic_step :: "pic_input \<Rightarrow> PIC8259 \<Rightarrow> PIC8259 \<times> u32 option" where
  "pic_step a p = (case a of PicWrite port val \<Rightarrow> pic_IOWrite port val p | PicLine irq level \<Rightarrow> pic_Raise irq level p
     | PicDeliver d \<Rightarrow> SetDeliver d p)"

definition requested :: "PIC8259 \<Rightarrow> nat \<Rightarrow> bool" where
  "requested p i = (if i < 8 then bit (irr (pic_master p)) i else bit (irr (pic_slave p)) (i - 8))"

definition rising_edge :: "pic_input \<Rightarrow> PIC8259 \<Rightarrow> nat \<Rightarrow> bool" where
  "rising_edge a p i = (case a of PicLine irq level \<Rightarrow> irq = int i \<and> level \<and> \<not> pic_lines p ! i | _ \<Rightarrow> False)"

text \<open>An initialization command word sent to the chip that owns line \<open>i\<close>.\<close>

definition reinitializes :: "pic_input \<Rightarrow> nat \<Rightarrow> bool" where
  "reinitializes a i = (case a of
     PicWrite port val \<Rightarrow> val AND 0x10 \<noteq> 0 \<and> port = (if i < 8 then 0x20 else 0xa0) | _ \<Rightarrow> False)"

definition in_range :: "pic_input \<Rightarrow> bool" where
  "in_range a = (case a of PicLine irq level \<Rightarrow> 0 \<le> irq \<and> irq < 16 | _ \<Rightarrow> True)"

definition pic_vector :: "PIC8259 \<Rightarrow> nat \<Rightarrow> u32" where
  "pic_vector p i = (if i < 8 then ucast (vectorBase (pic_master p)) + of_nat i
     else ucast (vectorBase (pic_slave p)) + of_nat (i - 8))"

definition pic_apply :: "pic_input \<Rightarrow> PIC8259 \<Rightarrow> PIC8259" where
  "pic_apply a p = (case a of PicWrite port val \<Rightarrow> pic_program port val p | PicLine irq level \<Rightarrow> pic_latch irq level p
     | PicDeliver d \<Rightarrow> p \<lparr> pic_deliver := d \<rparr>)"

lemma pic_step_dispatch: "in_range a \<Longrightarrow> pic_step a p = dispatch_deliver (pic_apply a p)"
  by (cases a) (simp_all add: pic_step_def pic_apply_def in_range_def pic_IOWrite_def pic_Raise_def SetDeliver_def)

lemma irr_chip_command: "val AND 0x10 = 0 \<Longrightarrow> irr (chip_command val ch) = irr ch"
  by (simp add: chip_command_def Let_def)

lemma irr_chip_data: "irr (chip_data val ch) = irr ch"
  by (simp add: chip_data_def)

lemma requested_program:
  "requested p i \<Longrightarrow> \<not> reinitializes (PicWrite port val) i \<Longrightarrow> requested (pic_program port val p) i"
  by (auto simp: requested_def reinitializes_def pic_program_def Let_def irr_chip_command irr_chip_data
      split: if_splits)

lemma requested_latch:
  assumes "i < 16" "requested p i \<or> rising_edge (PicLine irq level) p i" "0 \<le> irq" "irq < 16"
  shows "requested (pic_latch irq level p) i"
  using assms
  by (auto simp: requested_def rising_edge_def pic_latch_def Let_def bit_or_iff bit_exp_iff)

lemma requested_deliver: "requested (p \<lparr> pic_deliver := d \<rparr>) i = requested p i"
  by (simp add: requested_def)

lemma requested_apply:
  assumes "i < 16" "in_range a" "\<not> reinitializes a i" "requested p i \<or> rising_edge a p i"
  shows "requested (pic_apply a p) i"
  using assms
  by (cases a)
    (auto simp: pic_apply_def in_range_def rising_edge_def requested_deliver
      intro: requested_program requested_latch)

lemma set_priority_order: "set priority_order = {..< 16}"
  unfolding priority_order_def set_append set_upt by auto

lemma bit_cleared: "bit (b AND NOT (push_bit k 1)) j \<longleftrightarrow> bit (b :: byte) j \<and> j \<noteq> k"
  by (auto simp: bit_and_iff bit_not_iff bit_exp_iff dest: byte_bit_imp_less)

lemma irr_chip_ack: "bit (irr (chip_ack k ch)) j \<longleftrightarrow> bit (irr ch) j \<and> j \<noteq> k"
  by (simp add: chip_ack_def bit_cleared del: push_bit_of_1)

lemma chip_ack_serve_frame:
  "vectorBase (chip_ack k ch) = vectorBase ch" "vectorBase (chip_serve k ch) = vectorBase ch"
  "irr (chip_serve k ch) = irr ch"
  by (simp_all add: chip_ack_def chip_serve_def)

lemma requested_acknowledge:
  assumes "acknowledge p k = (p', out)" "requested p i"
  shows "requested p' i \<or> out = Some (pic_vector p' i)"
proof (cases "i = k")
  case True
  then show ?thesis using assms
    by (auto simp: acknowledge_def pic_vector_def chip_ack_serve_frame split: if_splits)
next
  case False
  then show ?thesis using assms
    by (auto simp: acknowledge_def requested_def irr_chip_ack chip_ack_serve_frame split: if_splits)
qed

lemma dispatch_keeps:
  assumes "i < 16" "requested p i" "dispatchLocked p = (p', out)"
  shows "(requested p' i \<or> out = Some (pic_vector p' i)) \<and> (out = None \<longrightarrow> \<not> deliverable_irq p' i)"
proof (cases "find (deliverable_irq p) priority_order")
  case None
  then have "\<forall>k \<in> set priority_order. \<not> deliverable_irq p k" by (simp add: find_None_iff)
  moreover have "i \<in> set priority_order" using assms(1) by (simp add: set_priority_order)
  ultimately show ?thesis using assms None by (auto simp: dispatch_eq_arbitration)
next
  case (Some k)
  then have "acknowledge p k = (p', out)" using assms(3) by (simp add: dispatch_eq_arbitration)
  moreover have "out \<noteq> None" using calculation by (auto simp: acknowledge_def split: if_splits)
  ultimately show ?thesis
    using requested_acknowledge [OF _ assms(2)] by auto
qed

text \<open>C33.  The arbitration of the 8259 pair (\<open>dispatchLocked\<close>, with \<open>pendingIRQ\<close> and
  \<open>highestPriorityBit\<close>) equals a search of the sixteen lines in the fixed priority order 0, 1,
  8..15, 2..7 for the first line that is requested, unmasked and not blocked by an interrupt of equal
  or higher priority in service on its chip, where a slave line also needs the cascade input of the
  master to be unmasked and not blocked.  The line found is acknowledged and its vector delivered; with
  no such line nothing changes.\<close>

theorem pic_arbitration:
  "dispatchLocked p =
    (case find (deliverable_irq p) priority_order of None \<Rightarrow> (p, None) | Some i \<Rightarrow> acknowledge p i)"
  by (rule dispatch_eq_arbitration)

text \<open>C32.  The 8259 pair loses a request in at most two situations: the delivery callback is not set, or
  an ICW1 command word re-initializes the chip the line is on.  For every port write, change of a line 0
  to 15 or installation of the delivery callback that leaves the callback set, a line with a latched
  request or a rising edge, on a chip that does not receive an ICW1, is afterwards still latched or its
  vector is the one delivered; and when nothing is delivered the line is masked or blocked.  So a request
  made while masked is delivered by the write that unmasks it or stays latched.\<close>

theorem pic_no_lost_edge:
  assumes "i < 16" "in_range a" "\<not> reinitializes a i" "requested p i \<or> rising_edge a p i"
    and "pic_deliver (pic_apply a p)" "pic_step a p = (p', out)"
  shows "(requested p' i \<or> out = Some (pic_vector p' i)) \<and> (out = None \<longrightarrow> \<not> deliverable_irq p' i)"
  using dispatch_keeps [OF assms(1) requested_apply [OF assms(1-4)]] assms(5,6)
  by (auto simp: pic_step_dispatch [OF assms(2)] dispatch_deliver_def split: prod.splits)

text \<open>A masked request on line 10, delivered as vector \<open>0x72\<close> by the write that unmasks it.\<close>

definition masked_pic :: PIC8259 where
  "masked_pic = fst (pic_Raise 10 True (fst (pic_IOWrite 0xa1 0xff (NewPIC True))))"

theorem pic_no_lost_edge_witness:
  "requested masked_pic 10 \<and> \<not> deliverable_irq masked_pic 10
   \<and> snd (pic_step (PicWrite 0xa1 0) masked_pic) = Some 0x72
   \<and> (requested (fst (pic_step (PicWrite 0xa1 0) masked_pic)) 10
      \<or> snd (pic_step (PicWrite 0xa1 0) masked_pic) = Some (pic_vector (fst (pic_step (PicWrite 0xa1 0) masked_pic)) 10))"
proof -
  have 1: "requested masked_pic 10" by code_simp
  have 2: "\<not> bit (in_service (pic_slave masked_pic)) 0 \<and> \<not> deliverable_irq masked_pic 10" by code_simp
  have 3: "snd (pic_step (PicWrite 0xa1 0) masked_pic) = Some 0x72" by code_simp
  have 4: "in_range (PicWrite 0xa1 0)" "\<not> reinitializes (PicWrite 0xa1 0) 10"
    by (simp_all add: in_range_def reinitializes_def)
  have 5: "pic_deliver (pic_apply (PicWrite 0xa1 0) masked_pic)" by code_simp
  show ?thesis
    using 1 2 3 pic_no_lost_edge [OF _ 4 disjI1 [OF 1] 5 surjective_pairing] by simp
qed

text \<open>Both side conditions are needed: without the callback the rising edge of line 3 is acknowledged and
  goes nowhere, and an ICW1 clears the request that is latched on the slave.\<close>

lemma pic_edge_lost_without_callback:
  "snd (pic_step (PicLine 3 True) (NewPIC False)) = None
   \<and> \<not> requested (fst (pic_step (PicLine 3 True) (NewPIC False))) 3"
  by code_simp

lemma pic_request_lost_by_icw1:
  "requested masked_pic 10 \<and> snd (pic_step (PicWrite 0xa0 0x10) masked_pic) = None
   \<and> \<not> requested (fst (pic_step (PicWrite 0xa0 0x10) masked_pic)) 10"
  by code_simp

section \<open>The I/O APIC\<close>

definition ioApicPins :: nat where "ioApicPins = 24"

record IOAPIC =
  apic_id :: u32
  regSel :: u32
  rte :: "u64 list"
  apic_lines :: "bool list"

definition NewIOAPIC :: "u32 \<Rightarrow> IOAPIC" where
  "NewIOAPIC i = \<lparr> apic_id = i AND 0xf, regSel = 0, rte = replicate ioApicPins (push_bit 16 1),
     apic_lines = replicate ioApicPins False \<rparr>"

definition is_rte_reg :: "u32 \<Rightarrow> bool" where
  "is_rte_reg reg \<longleftrightarrow> 0x10 \<le> reg \<and> reg < 0x10 + 2 * of_nat ioApicPins"

definition readReg :: "u32 \<Rightarrow> IOAPIC \<Rightarrow> u32" where
  "readReg reg a =
    (if reg = 0x00 then push_bit 24 (apic_id a)
     else if reg = 0x01 then 0x11 OR push_bit 16 (of_nat ioApicPins - 1)
     else if reg = 0x02 then 0
     else if is_rte_reg reg then
       let i = unat ((reg - 0x10) div 2)
       in if reg AND 1 = 0 then ucast (rte a ! i) else ucast (drop_bit 32 (rte a ! i))
     else 0)"

definition writeReg :: "u32 \<Rightarrow> u32 \<Rightarrow> IOAPIC \<Rightarrow> IOAPIC" where
  "writeReg reg val a =
    (if reg = 0x00 then a \<lparr> apic_id := drop_bit 24 val AND 0xf \<rparr>
     else if is_rte_reg reg then
       let i = unat ((reg - 0x10) div 2)
       in if reg AND 1 = 0
          then a \<lparr> rte := (rte a)[i := (rte a ! i AND 0xffffffff00000000) OR ucast val] \<rparr>
          else a \<lparr> rte := (rte a)[i := (rte a ! i AND 0x00000000ffffffff) OR push_bit 32 (ucast val)] \<rparr>
     else a)"

definition ioapic_MMIO :: "bool \<Rightarrow> u64 \<Rightarrow> u32 \<Rightarrow> IOAPIC \<Rightarrow> IOAPIC \<times> u32" where
  "ioapic_MMIO isWrite off val a =
    (if off = 0x00 then (if isWrite then (a \<lparr> regSel := val \<rparr>, 0) else (a, regSel a))
     else if off = 0x10 then
       (if isWrite then (writeReg (regSel a) val a, 0) else (a, readReg (regSel a) a))
     else (a, 0))"

text \<open>The result is \<open>None\<close> for the index panic of a line outside the 24 pins, and otherwise holds the
  destination, vector and trigger mode of the delivery, if there is one.\<close>

definition ioapic_Raise :: "int \<Rightarrow> bool \<Rightarrow> IOAPIC \<Rightarrow> (IOAPIC \<times> (u32 \<times> u32 \<times> bool) option) option" where
  "ioapic_Raise gsi level a =
    (if gsi < 0 \<or> int ioApicPins \<le> gsi then None
     else
       let e = rte a ! nat gsi;
           prev = apic_lines a ! nat gsi;
           masked = (e AND push_bit 16 1 \<noteq> 0);
           isLevel = (e AND push_bit 15 1 \<noteq> 0);
           vector = (ucast (e AND 0xff) :: u32);
           delmode = (ucast (drop_bit 8 e AND 7) :: u32);
           dest = (ucast (drop_bit 56 e) :: u32);
           fire = (level \<and> \<not> masked \<and> delmode = 0 \<and> (isLevel \<and> \<not> prev \<or> \<not> isLevel))
       in Some (a \<lparr> apic_lines := (apic_lines a)[nat gsi := level] \<rparr>,
                if fire then Some (dest, vector, isLevel) else None))"

definition ioapic_wf :: "IOAPIC \<Rightarrow> bool" where
  "ioapic_wf a \<longleftrightarrow> length (rte a) = ioApicPins \<and> length (apic_lines a) = ioApicPins \<and> apic_id a \<le> 0xf"

lemma NewIOAPIC_wf: "ioapic_wf (NewIOAPIC i)"
  by (simp add: NewIOAPIC_def ioapic_wf_def word_and_le1)

lemma writeReg_wf: "ioapic_wf a \<Longrightarrow> ioapic_wf (writeReg reg val a)"
  by (simp add: writeReg_def ioapic_wf_def Let_def word_and_le1)

lemma ioapic_MMIO_wf: "ioapic_wf a \<Longrightarrow> ioapic_wf (fst (ioapic_MMIO w off val a))"
  by (simp add: ioapic_MMIO_def writeReg_wf) (simp add: ioapic_wf_def)

lemma rte_reg_index:
  assumes "is_rte_reg reg"
  shows "unat ((reg - 0x10) div 2) < ioApicPins"
proof -
  have "0x10 \<le> unat reg" "unat reg < 0x10 + 48"
    using assms by (simp_all add: is_rte_reg_def ioApicPins_def word_le_nat_alt word_less_nat_alt)
  moreover have "unat (reg - 0x10) = unat reg - 0x10"
    using assms by (simp add: is_rte_reg_def unat_sub)
  ultimately show ?thesis by (simp add: unat_div ioApicPins_def)
qed

text \<open>What the guest writes to half of a redirection entry is what it reads back, and the other
  half is untouched.\<close>

lemma word_halves:
  "ucast ((x AND 0xffffffff00000000) OR (ucast val :: u64)) = (val :: u32)"
  "ucast (drop_bit 32 ((x AND 0x00000000ffffffff) OR push_bit 32 (ucast val :: u64))) = (val :: u32)"
proof -
  have hi: "0xffffffff00000000 = push_bit 32 (mask 32 :: u64)" by (simp add: mask_eq_exp_minus_1 push_bit_eq_mult)
  have lo: "0x00000000ffffffff = (mask 32 :: u64)" by (simp add: mask_eq_exp_minus_1)
  show "ucast ((x AND 0xffffffff00000000) OR (ucast val :: u64)) = (val :: u32)"
    unfolding hi by (rule bit_word_eqI) (auto simp: bit_simps)
  show "ucast (drop_bit 32 ((x AND 0x00000000ffffffff) OR push_bit 32 (ucast val :: u64))) = (val :: u32)"
    unfolding lo by (rule bit_word_eqI) (auto simp: bit_simps)
qed

lemma high_half: "ucast (drop_bit 32 (push_bit 32 (ucast val :: u64))) = (val :: u32)"
  by (rule bit_word_eqI) (auto simp: bit_simps)

lemma rte_write_read:
  assumes "ioapic_wf a" "is_rte_reg reg"
  shows "readReg reg (writeReg reg val a) = val"
proof -
  have "reg \<noteq> 0" "reg \<noteq> 1" "reg \<noteq> 2" using assms(2) by (auto simp: is_rte_reg_def word_le_nat_alt)
  moreover have "unat ((reg - 0x10) div 2) < length (rte a)"
    using assms rte_reg_index by (simp add: ioapic_wf_def)
  ultimately show ?thesis using assms(2) by (simp add: readReg_def writeReg_def Let_def word_halves high_half)
qed

section \<open>Serialized line delivery\<close>

text \<open>\<open>set_line\<close> is the hypervisor's line setter; its error is wrapped with the line and the level.\<close>

record IRQChange =
  chg_irq :: int
  chg_level :: bool

definition Inject :: "IRQChange \<Rightarrow> (int \<Rightarrow> bool \<Rightarrow> 's \<Rightarrow> 's \<times> 'e option) \<Rightarrow> 's
    \<Rightarrow> 's \<times> (int \<times> bool \<times> 'e) option" where
  "Inject change set_line s = (case set_line (chg_irq change) (chg_level change) s of
     (s', Some err) \<Rightarrow> (s', Some (chg_irq change, chg_level change, err)) | (s', None) \<Rightarrow> (s', None))"

end
