(* ===== verification/Serial_Ports.thy ===== *)
theory Serial_Ports
  imports Gantry_Prelude
begin

text \<open>
  The two console ports of \<open>internal/vmm/devices\<close>: the 16550A of x86 guests (\<open>uart16550.go\<close>) and the
  PL011 of arm64 guests (\<open>uart.go\<close>, \<open>uart_stdin.go\<close>).  What both promise is the interface
  \<open>serial_port\<close>: host input reaches the guest in order and without loss, and the interrupt line
  follows the level condition of the registers.
\<close>

unbundle bit_operations_syntax

section \<open>Calls of the host callbacks\<close>

datatype uart_event = RaiseLine bool | OutByte byte

text \<open>The interrupt line after a sequence of callbacks, and the bytes put out.\<close>

fun line_after :: "uart_event list \<Rightarrow> bool \<Rightarrow> bool" where
  "line_after [] l = l"
| "line_after (RaiseLine b # es) l = line_after es b"
| "line_after (OutByte c # es) l = line_after es l"

fun bytes_out :: "uart_event list \<Rightarrow> byte list" where
  "bytes_out [] = []"
| "bytes_out (RaiseLine b # es) = bytes_out es"
| "bytes_out (OutByte c # es) = c # bytes_out es"

lemma line_after_append [simp]: "line_after (xs @ ys) l = line_after ys (line_after xs l)"
  by (induct xs l rule: line_after.induct) simp_all

lemma bytes_out_append [simp]: "bytes_out (xs @ ys) = bytes_out xs @ bytes_out ys"
  by (induct xs rule: bytes_out.induct) simp_all

lemma bytes_out_OutByte [simp]: "bytes_out (map OutByte bs) = bs"
  by (induct bs) simp_all

lemma line_after_OutByte [simp]: "line_after (map OutByte bs) l = l"
  by (induct bs) simp_all

section \<open>The 16550A\<close>

definition SerialPort :: u16 where "SerialPort = 0x3f8"

record UART16550 =
  rx :: "byte list"
  ier :: byte
  fcr :: byte
  lcr :: byte
  mcr :: byte
  scr :: byte
  dll :: byte
  dlm :: byte

definition NewUART16550 :: UART16550 where
  "NewUART16550 = \<lparr> rx = [], ier = 0, fcr = 0, lcr = 0, mcr = 0, scr = 0, dll = 0, dlm = 0 \<rparr>"

definition dlab :: "UART16550 \<Rightarrow> bool" where
  "dlab u \<longleftrightarrow> lcr u AND 0x80 \<noteq> 0"

definition irqLevel :: "UART16550 \<Rightarrow> bool" where
  "irqLevel u = (let rxi = (rx u \<noteq> [] \<and> ier u AND 0x01 \<noteq> 0); thre = (ier u AND 0x02 \<noteq> 0) in rxi \<or> thre)"

definition syncIRQ :: "UART16550 \<Rightarrow> uart_event list" where
  "syncIRQ u = [RaiseLine (irqLevel u)]"

definition uart_feed :: "byte list \<Rightarrow> UART16550 \<Rightarrow> UART16550 \<times> uart_event list" where
  "uart_feed b u = (let u = u \<lparr> rx := rx u @ b \<rparr> in (u, syncIRQ u))"

definition uart_IORead :: "u16 \<Rightarrow> UART16550 \<Rightarrow> UART16550 \<times> uart_event list \<times> byte" where
  "uart_IORead port u =
    (let r = (ucast (port - SerialPort) :: byte) in
     if r = 0 \<and> dlab u then (u, [], dll u)
     else if r = 1 \<and> dlab u then (u, [], dlm u)
     else if r = 0 then
       (case rx u of
          [] \<Rightarrow> (u, syncIRQ u, 0)
        | b # bs \<Rightarrow> let u = u \<lparr> rx := bs \<rparr> in (u, syncIRQ u, b))
     else if r = 1 then (u, [], ier u)
     else if r = 2 then
       (let iir = (if rx u \<noteq> [] \<and> ier u AND 0x01 \<noteq> 0 then 0x04 else if ier u AND 0x02 \<noteq> 0 then 0x02 else 0x01)
        in (u, [], if fcr u AND 0x01 \<noteq> 0 then iir OR 0xc0 else iir))
     else if r = 3 then (u, [], lcr u)
     else if r = 4 then (u, [], mcr u)
     else if r = 5 then (u, [], if rx u \<noteq> [] then 0x60 OR 0x01 else 0x60)
     else if r = 6 then (u, [], 0xb0)
     else if r = 7 then (u, [], scr u)
     else (u, [], 0xff))"

definition uart_IOWrite :: "u16 \<Rightarrow> byte \<Rightarrow> UART16550 \<Rightarrow> UART16550 \<times> uart_event list" where
  "uart_IOWrite port val u =
    (let r = (ucast (port - SerialPort) :: byte) in
     if r = 0 \<and> dlab u then (u \<lparr> dll := val \<rparr>, [])
     else if r = 1 \<and> dlab u then (u \<lparr> dlm := val \<rparr>, [])
     else if r = 0 then (u, [OutByte val])
     else if r = 1 then let u = u \<lparr> ier := val AND 0x0f \<rparr> in (u, syncIRQ u)
     else if r = 2 then (u \<lparr> fcr := val AND 0xc9 \<rparr>, [])
     else if r = 3 then (u \<lparr> lcr := val \<rparr>, [])
     else if r = 4 then (u \<lparr> mcr := val \<rparr>, [])
     else if r = 7 then (u \<lparr> scr := val \<rparr>, [])
     else (u, []))"

section \<open>The PL011\<close>

definition PL011IRQ :: int where "PL011IRQ = 33"

text \<open>\<open>pl_raise\<close> says whether the raise callback is set; \<open>noUartIRQ\<close> is the value of the variable read
  from the environment, under which the port never calls it.\<close>

record PL011 =
  rxBuf :: "byte list"
  imsc :: u32
  cr :: u32
  pl_irqLevel :: bool
  pl_raise :: bool

definition NewPL011 :: "bool \<Rightarrow> PL011" where
  "NewPL011 raise = \<lparr> rxBuf = [], imsc = 0, cr = 0, pl_irqLevel = False, pl_raise = raise \<rparr>"

definition updateIRQLocked :: "bool \<Rightarrow> PL011 \<Rightarrow> PL011 \<times> uart_event list" where
  "updateIRQLocked noUartIRQ u =
    (if \<not> pl_raise u then (u, [])
     else let level = (rxBuf u \<noteq> [] \<and> imsc u AND 0x10 \<noteq> 0) in
     if level \<noteq> pl_irqLevel u
     then (u \<lparr> pl_irqLevel := level \<rparr>, if noUartIRQ then [] else [RaiseLine level])
     else (u, []))"

definition ris :: "PL011 \<Rightarrow> u32" where
  "ris u = (if rxBuf u \<noteq> [] then 0x10 else 0)"

definition pl011ID :: "byte list" where
  "pl011ID = [0x11, 0x10, 0x14, 0x00, 0x0d, 0xf0, 0x05, 0xb1]"

definition pl011_feed :: "bool \<Rightarrow> byte list \<Rightarrow> PL011 \<Rightarrow> PL011 \<times> uart_event list" where
  "pl011_feed noUartIRQ b u = updateIRQLocked noUartIRQ (u \<lparr> rxBuf := rxBuf u @ b \<rparr>)"

text \<open>A result \<open>None\<close> is the index panic of a data slice shorter than the access or of an offset past
  the register page.  The bytes of a wide data write are the first \<open>min length 8\<close> of the slice.\<close>

definition pl011_MMIO :: "bool \<Rightarrow> bool \<Rightarrow> u64 \<Rightarrow> byte list \<Rightarrow> u32 \<Rightarrow> PL011
    \<Rightarrow> (PL011 \<times> uart_event list \<times> u32) option" where
  "pl011_MMIO noUartIRQ isWrite off data len u =
    (let word16 = (\<lambda>d. (ucast (d ! 0) :: u32) OR push_bit 8 (ucast (d ! 1))) in
     if isWrite \<and> off = 0x00 then
       (let n = min (unat len) 8 in
        if length data < n then None
        else Some (u, map OutByte (filter (\<lambda>c. c \<noteq> 0) (take n data)), 0))
     else if \<not> isWrite \<and> off = 0x00 then
       (let (v, u) = (case rxBuf u of [] \<Rightarrow> (0, u) | b # bs \<Rightarrow> (b, u \<lparr> rxBuf := bs \<rparr>));
            (u, es) = updateIRQLocked noUartIRQ u
        in Some (u, es, ucast v))
     else if \<not> isWrite \<and> off = 0x18 then
       Some (u, [], if rxBuf u = [] then 0x80 OR 0x10 else 0x80)
     else if isWrite \<and> off = 0x30 then
       (if length data < 2 then None else Some (u \<lparr> cr := word16 data \<rparr>, [], 0))
     else if \<not> isWrite \<and> off = 0x30 then Some (u, [], cr u)
     else if \<not> isWrite \<and> off = 0x38 then Some (u, [], imsc u)
     else if isWrite \<and> off = 0x38 then
       (if length data < 2 then None
        else let (u, es) = updateIRQLocked noUartIRQ (u \<lparr> imsc := word16 data \<rparr>) in Some (u, es, 0))
     else if \<not> isWrite \<and> off = 0x3c then Some (u, [], ris u)
     else if \<not> isWrite \<and> off = 0x40 then Some (u, [], ris u AND imsc u)
     else if isWrite \<and> off = 0x44 then Some (u, [], 0)
     else if \<not> isWrite \<and> 0xfe0 \<le> off then
       (let i = unat ((off - 0xfe0) div 4) in
        if i < length pl011ID then Some (u, [], ucast (pl011ID ! i)) else None)
     else Some (u, [], 0))"

section \<open>The serial port interface\<close>

type_synonym ('a, 'u) serial_step = "'a \<Rightarrow> 'u \<Rightarrow> ('u \<times> uart_event list \<times> byte list) option"

text \<open>A run over a list of inputs: the callbacks in order, and the data bytes the guest read.\<close>

fun run_serial :: "('a, 'u) serial_step \<Rightarrow> 'a list \<Rightarrow> 'u \<Rightarrow> ('u \<times> uart_event list \<times> byte list) option" where
  "run_serial stp [] u = Some (u, [], [])"
| "run_serial stp (a # as) u = (case stp a u of
     None \<Rightarrow> None
   | Some (u1, es1, t1) \<Rightarrow> (case run_serial stp as u1 of
       None \<Rightarrow> None | Some (u2, es2, t2) \<Rightarrow> Some (u2, es1 @ es2, t1 @ t2)))"

text \<open>The bytes the guest's writes ask to put out along a run.\<close>

fun run_sent :: "('a, 'u) serial_step \<Rightarrow> ('a \<Rightarrow> 'u \<Rightarrow> byte list) \<Rightarrow> 'a list \<Rightarrow> 'u \<Rightarrow> byte list" where
  "run_sent stp sent [] u = []"
| "run_sent stp sent (a # as) u = sent a u @ (case stp a u of None \<Rightarrow> [] | Some (u1, _) \<Rightarrow> run_sent stp sent as u1)"

locale serial_port =
  fixes stp :: "('a, 'u) serial_step"
    and queue :: "'u \<Rightarrow> byte list"
    and level :: "'u \<Rightarrow> bool"
    and good :: "'u \<Rightarrow> bool"
    and fed :: "'a \<Rightarrow> byte list"
    and sent :: "'a \<Rightarrow> 'u \<Rightarrow> byte list"
  assumes step_good: "good u \<Longrightarrow> stp a u = Some (u', es, t) \<Longrightarrow> good u'"
    and step_queue: "stp a u = Some (u', es, t) \<Longrightarrow> queue u @ fed a = t @ queue u'"
    and step_line: "good u \<Longrightarrow> stp a u = Some (u', es, t) \<Longrightarrow> line_after es (level u) = level u'"
    and step_out: "stp a u = Some (u', es, t) \<Longrightarrow> bytes_out es = sent a u"
begin

lemma run_cases:
  assumes "run_serial stp (a # as) u = Some (u2, es, t)"
  obtains u1 es1 t1 es2 t2 where "stp a u = Some (u1, es1, t1)" "run_serial stp as u1 = Some (u2, es2, t2)"
    "es = es1 @ es2" "t = t1 @ t2"
  using assms by (auto split: option.splits prod.splits)

lemma run_good: "good u \<Longrightarrow> run_serial stp as u = Some (u', es, t) \<Longrightarrow> good u'"
proof (induct as arbitrary: u es t)
  case (Cons a as)
  from Cons.prems(2) obtain u1 es1 t1 es2 t2 where "stp a u = Some (u1, es1, t1)"
    "run_serial stp as u1 = Some (u', es2, t2)" by (rule run_cases)
  then show ?case using Cons.prems(1) Cons.hyps [of u1 es2 t2] step_good by blast
qed simp

lemma run_queue: "run_serial stp as u = Some (u', es, t) \<Longrightarrow> queue u @ concat (map fed as) = t @ queue u'"
proof (induct as arbitrary: u es t)
  case (Cons a as)
  from Cons.prems obtain u1 es1 t1 es2 t2 where "stp a u = Some (u1, es1, t1)"
    "run_serial stp as u1 = Some (u', es2, t2)" "t = t1 @ t2" by (rule run_cases)
  then have "queue u @ fed a = t1 @ queue u1" "queue u1 @ concat (map fed as) = t2 @ queue u'"
    using step_queue Cons.hyps by blast+
  then have "(queue u @ fed a) @ concat (map fed as) = (t1 @ t2) @ queue u'" by simp
  then show ?case using \<open>t = t1 @ t2\<close> by simp
qed simp

lemma run_line: "good u \<Longrightarrow> run_serial stp as u = Some (u', es, t) \<Longrightarrow> line_after es (level u) = level u'"
proof (induct as arbitrary: u es t)
  case (Cons a as)
  from Cons.prems(2) obtain u1 es1 t1 es2 t2 where "stp a u = Some (u1, es1, t1)"
    "run_serial stp as u1 = Some (u', es2, t2)" "es = es1 @ es2" by (rule run_cases)
  then show ?case using Cons.prems(1) Cons.hyps [of u1 es2 t2] step_line step_good by auto
qed simp

lemma run_out: "run_serial stp as u = Some (u', es, t) \<Longrightarrow> bytes_out es = run_sent stp sent as u"
proof (induct as arbitrary: u es t)
  case (Cons a as)
  from Cons.prems obtain u1 es1 t1 es2 t2 where "stp a u = Some (u1, es1, t1)"
    "run_serial stp as u1 = Some (u', es2, t2)" "es = es1 @ es2" by (rule run_cases)
  then show ?case using Cons.hyps [of u1 es2 t2] step_out by auto
qed simp

end

section \<open>Both ports keep the interface\<close>

datatype uart_input = UFeed "byte list" | UIn u16 | UOut u16 byte

definition uart_reg :: "u16 \<Rightarrow> byte" where
  "uart_reg port = ucast (port - SerialPort)"

definition uart_step :: "(uart_input, UART16550) serial_step" where
  "uart_step a u = Some (case a of
     UFeed b \<Rightarrow> (case uart_feed b u of (u', es) \<Rightarrow> (u', es, []))
   | UIn port \<Rightarrow> (case uart_IORead port u of (u', es, v) \<Rightarrow>
       (u', es, if uart_reg port = 0 \<and> \<not> dlab u \<and> rx u \<noteq> [] then [v] else []))
   | UOut port val \<Rightarrow> (case uart_IOWrite port val u of (u', es) \<Rightarrow> (u', es, [])))"

definition uart_fed :: "uart_input \<Rightarrow> byte list" where
  "uart_fed a = (case a of UFeed b \<Rightarrow> b | _ \<Rightarrow> [])"

definition uart_sent :: "uart_input \<Rightarrow> UART16550 \<Rightarrow> byte list" where
  "uart_sent a u = (case a of UOut port val \<Rightarrow> if uart_reg port = 0 \<and> \<not> dlab u then [val] else [] | _ \<Rightarrow> [])"

datatype pl011_input = PFeed "byte list" | PAccess bool u64 "byte list" u32

definition pl011_step :: "bool \<Rightarrow> (pl011_input, PL011) serial_step" where
  "pl011_step noUartIRQ a u = (case a of
     PFeed b \<Rightarrow> (case pl011_feed noUartIRQ b u of (u', es) \<Rightarrow> Some (u', es, []))
   | PAccess w off data len \<Rightarrow> map_option (\<lambda>(u', es, v).
       (u', es, if \<not> w \<and> off = 0 \<and> rxBuf u \<noteq> [] then [ucast v] else [])) (pl011_MMIO noUartIRQ w off data len u))"

definition pl011_fed :: "pl011_input \<Rightarrow> byte list" where
  "pl011_fed a = (case a of PFeed b \<Rightarrow> b | _ \<Rightarrow> [])"

text \<open>The bytes of a guest write to the data register, and what the port makes of them: it looks at eight
  of them at most and puts out those that are not NUL.\<close>

definition pl011_written :: "pl011_input \<Rightarrow> byte list" where
  "pl011_written a = (case a of
     PAccess w off data len \<Rightarrow> if w \<and> off = 0 then take (unat len) data else []
   | _ \<Rightarrow> [])"

definition pl011_sent :: "pl011_input \<Rightarrow> byte list" where
  "pl011_sent a = filter (\<lambda>c. c \<noteq> 0) (take 8 (pl011_written a))"

definition pl011_pending :: "PL011 \<Rightarrow> bool" where
  "pl011_pending u \<longleftrightarrow> rxBuf u \<noteq> [] \<and> imsc u AND 0x10 \<noteq> 0"

definition pl011_good :: "PL011 \<Rightarrow> bool" where
  "pl011_good u \<longleftrightarrow> pl_irqLevel u = (pl_raise u \<and> pl011_pending u)"

text \<open>The level the port has put on the interrupt line.\<close>

definition pl011_line :: "bool \<Rightarrow> PL011 \<Rightarrow> bool" where
  "pl011_line noUartIRQ u \<longleftrightarrow> \<not> noUartIRQ \<and> pl_irqLevel u"

lemma uart_laws:
  assumes "uart_step a u = Some (u', es, t)"
  shows "rx u @ uart_fed a = t @ rx u' \<and> line_after es (irqLevel u) = irqLevel u' \<and> bytes_out es = uart_sent a u"
proof (cases a)
  case (UFeed b)
  then show ?thesis using assms
    by (auto simp: uart_step_def uart_feed_def uart_fed_def uart_sent_def syncIRQ_def Let_def)
next
  case (UIn port)
  then show ?thesis using assms
    by (auto simp: uart_step_def uart_IORead_def uart_fed_def uart_sent_def uart_reg_def syncIRQ_def Let_def
        split: if_splits list.splits)
next
  case (UOut port val)
  have "irqLevel (u\<lparr>dll := v\<rparr>) = irqLevel u" "irqLevel (u\<lparr>dlm := v\<rparr>) = irqLevel u"
    "irqLevel (u\<lparr>fcr := v\<rparr>) = irqLevel u" "irqLevel (u\<lparr>lcr := v\<rparr>) = irqLevel u"
    "irqLevel (u\<lparr>mcr := v\<rparr>) = irqLevel u" "irqLevel (u\<lparr>scr := v\<rparr>) = irqLevel u" for v
    by (simp_all add: irqLevel_def)
  then show ?thesis using assms UOut
    by (auto simp: uart_step_def uart_IOWrite_def uart_fed_def uart_sent_def uart_reg_def syncIRQ_def Let_def
        split: if_splits)
qed

interpretation uart: serial_port uart_step rx irqLevel "\<lambda>_. True" uart_fed uart_sent
  by unfold_locales (use uart_laws in blast)+

lemma updateIRQLocked_laws:
  assumes "updateIRQLocked q u = (u', es)"
  shows "rxBuf u' = rxBuf u \<and> (\<not> pl_raise u \<longrightarrow> u' = u) \<and> (pl_raise u \<longrightarrow> pl011_good u') \<and> pl_raise u' = pl_raise u
    \<and> line_after es (pl011_line q u) = pl011_line q u' \<and> bytes_out es = []"
  using assms
  by (auto simp: updateIRQLocked_def pl011_good_def pl011_pending_def pl011_line_def Let_def split: if_splits)

lemma updateIRQLocked_keeps:
  assumes "updateIRQLocked q u = (u', es)" "pl_irqLevel u = pl_irqLevel v" "pl_raise u = pl_raise v"
  shows "rxBuf u' = rxBuf u \<and> (pl011_good v \<longrightarrow> pl011_good u') \<and> pl_raise u' = pl_raise v
    \<and> line_after es (pl011_line q v) = pl011_line q u' \<and> bytes_out es = []"
proof -
  have "pl011_line q v = pl011_line q u" using assms(2) by (simp add: pl011_line_def)
  moreover have "pl011_good v \<longrightarrow> \<not> pl_raise u \<longrightarrow> pl011_good u"
    using assms(2,3) by (simp add: pl011_good_def)
  ultimately show ?thesis using updateIRQLocked_laws [OF assms(1)] assms(3) by auto
qed

lemma pl011_write_laws:
  assumes "pl011_MMIO q True off data len u = Some (u', es, v)"
  shows "rxBuf u' = rxBuf u \<and> (pl011_good u \<longrightarrow> pl011_good u') \<and> pl_raise u' = pl_raise u
    \<and> line_after es (pl011_line q u) = pl011_line q u' \<and> bytes_out es = pl011_sent (PAccess True off data len)"
proof (cases "off = 0x38")
  case True
  then obtain w where "updateIRQLocked q (u \<lparr> imsc := w \<rparr>) = (u', es)"
    using assms by (auto simp: pl011_MMIO_def Let_def split: if_splits prod.splits)
  from updateIRQLocked_keeps [OF this, of u] show ?thesis using True
    by (simp add: pl011_sent_def pl011_written_def)
next
  case False
  then show ?thesis using assms
    by (auto simp: pl011_MMIO_def pl011_sent_def pl011_written_def pl011_good_def pl011_pending_def pl011_line_def
        min.commute Let_def split: if_splits)
qed

lemma byte_reg_byte: "ucast (ucast b :: u32) = (b :: byte)"
  by (rule bit_word_eqI) (auto simp: bit_simps)

lemma pl011_read_laws:
  assumes "pl011_MMIO q False off data len u = Some (u', es, v)"
  shows "rxBuf u = (if off = 0 \<and> rxBuf u \<noteq> [] then [ucast v] else []) @ rxBuf u'
    \<and> (pl011_good u \<longrightarrow> pl011_good u') \<and> pl_raise u' = pl_raise u
    \<and> line_after es (pl011_line q u) = pl011_line q u' \<and> bytes_out es = []"
proof (cases "off = 0")
  case True
  define u1 where "u1 = (case rxBuf u of [] \<Rightarrow> u | b # bs \<Rightarrow> u \<lparr> rxBuf := bs \<rparr>)"
  have up: "updateIRQLocked q u1 = (u', es)" and v: "rxBuf u \<noteq> [] \<longrightarrow> ucast v = hd (rxBuf u)"
    using True assms by (auto simp: pl011_MMIO_def u1_def byte_reg_byte Let_def split: list.splits prod.splits)
  have "pl_irqLevel u1 = pl_irqLevel u" "pl_raise u1 = pl_raise u" "rxBuf u1 = tl (rxBuf u)"
    by (auto simp: u1_def split: list.split)
  then show ?thesis using updateIRQLocked_keeps [OF up, of u] v True by (cases "rxBuf u") auto
next
  case False
  then show ?thesis using assms by (auto simp: pl011_MMIO_def Let_def split: if_splits)
qed

lemma pl011_laws:
  assumes "pl011_step q a u = Some (u', es, t)"
  shows "rxBuf u @ pl011_fed a = t @ rxBuf u' \<and> (pl011_good u \<longrightarrow> pl011_good u') \<and> pl_raise u' = pl_raise u
    \<and> line_after es (pl011_line q u) = pl011_line q u' \<and> bytes_out es = pl011_sent a"
proof (cases a)
  case (PFeed b)
  then have up: "updateIRQLocked q (u \<lparr> rxBuf := rxBuf u @ b \<rparr>) = (u', es)" and "t = []"
    using assms by (auto simp: pl011_step_def pl011_feed_def split: prod.splits)
  then show ?thesis using updateIRQLocked_keeps [OF up, of u] PFeed
    by (simp add: pl011_fed_def pl011_sent_def pl011_written_def)
next
  case (PAccess w off data len)
  then obtain v where m: "pl011_MMIO q w off data len u = Some (u', es, v)"
    and t: "t = (if \<not> w \<and> off = 0 \<and> rxBuf u \<noteq> [] then [ucast v] else [])"
    using assms by (auto simp: pl011_step_def)
  show ?thesis
  proof (cases w)
    case True
    then show ?thesis using pl011_write_laws m t PAccess by (simp add: pl011_fed_def)
  next
    case False
    then show ?thesis using pl011_read_laws [of q off data len u u' es v] m t PAccess
      by (simp add: pl011_fed_def pl011_sent_def pl011_written_def)
  qed
qed

interpretation pl011: serial_port "pl011_step q" rxBuf "pl011_line q" "\<lambda>u. pl011_good u \<and> pl_raise u = raise"
    pl011_fed "\<lambda>a u. pl011_sent a" for q raise
  by unfold_locales (use pl011_laws in blast)+

lemma updateIRQLocked_silent:
  assumes "q \<or> \<not> pl_raise u" "updateIRQLocked q u = (u', es)"
  shows "es = []"
  using assms by (auto simp: updateIRQLocked_def Let_def split: if_splits)

lemma pl011_step_silent:
  assumes "q \<or> \<not> pl_raise u" "pl011_step q a u = Some (u', es, t)"
  shows "RaiseLine level \<notin> set es"
proof (cases a)
  case (PFeed b)
  then show ?thesis using assms updateIRQLocked_silent [of q "u \<lparr> rxBuf := rxBuf u @ b \<rparr>"]
    by (auto simp: pl011_step_def pl011_feed_def split: prod.splits)
next
  case (PAccess w off data len)
  then obtain v where m: "pl011_MMIO q w off data len u = Some (u', es, v)"
    using assms(2) by (auto simp: pl011_step_def)
  consider "\<not> w" "off = 0" | "w" "off = 0x38" | "w" "off \<noteq> 0x38" | "\<not> w" "off \<noteq> 0" by blast
  then show ?thesis
  proof cases
    case 1
    define u1 where "u1 = (case rxBuf u of [] \<Rightarrow> u | b # bs \<Rightarrow> u \<lparr> rxBuf := bs \<rparr>)"
    have "updateIRQLocked q u1 = (u', es)"
      using 1 m by (auto simp: pl011_MMIO_def u1_def Let_def split: list.splits prod.splits)
    moreover have "pl_raise u1 = pl_raise u" by (auto simp: u1_def split: list.split)
    ultimately show ?thesis using updateIRQLocked_silent [of q u1 u' es] assms(1) by simp
  next
    case 2
    then obtain x where "updateIRQLocked q (u \<lparr> imsc := x \<rparr>) = (u', es)"
      using m by (auto simp: pl011_MMIO_def Let_def split: if_splits prod.splits)
    from updateIRQLocked_silent [OF _ this] show ?thesis using assms(1) by simp
  next
    case 3
    then show ?thesis using m by (auto simp: pl011_MMIO_def Let_def split: if_splits)
  next
    case 4
    then show ?thesis using m by (auto simp: pl011_MMIO_def Let_def split: if_splits)
  qed
qed

lemma pl011_never_raised:
  "run_serial (pl011_step q) ys u = Some (p, es, t) \<Longrightarrow> q \<or> \<not> pl_raise u \<Longrightarrow> RaiseLine level \<notin> set es"
proof (induct ys arbitrary: u es t)
  case (Cons a ys)
  from Cons.prems(1) obtain u1 es1 t1 es2 t2 where s: "pl011_step q a u = Some (u1, es1, t1)"
    "run_serial (pl011_step q) ys u1 = Some (p, es2, t2)" "es = es1 @ es2" by (rule pl011.run_cases)
  have "pl_raise u1 = pl_raise u" using pl011_laws [OF s(1)] by simp
  then show ?case using Cons.hyps [OF s(2)] Cons.prems(2) s pl011_step_silent [OF Cons.prems(2) s(1)] by auto
qed simp

lemma run_sent_stateless:
  "run_serial stp as u = Some r \<Longrightarrow> run_sent stp (\<lambda>a _. f a) as u = concat (map f as)"
  by (induct as arbitrary: u r) (auto split: option.splits prod.splits)

text \<open>C36.  Both console ports are faithful over every sequence of host input and guest accesses from
  power-on that does not end in an index panic.  The bytes the guest has read, followed by those still
  buffered, are exactly the host's input in order.  The 16550A puts out exactly the bytes the guest wrote
  to the data register; the PL011 puts out the first eight bytes of every data-register write without
  its NUL bytes, which are dropped.  The 16550A's interrupt line is high exactly when received data or the
  transmitter-empty condition is pending and enabled; the PL011's line is high exactly when received data
  is pending and enabled, the raise callback is set and \<open>GANTRY_NO_UART_IRQ\<close> is not, and under that
  variable or without the callback the line is never touched.\<close>

theorem serial_ports_faithful:
  assumes "run_serial uart_step xs NewUART16550 = Some (u, es, t)"
    and "run_serial (pl011_step noUartIRQ) ys (NewPL011 raise) = Some (p, es', t')"
  shows "concat (map uart_fed xs) = t @ rx u \<and> bytes_out es = run_sent uart_step uart_sent xs NewUART16550
    \<and> line_after es False = (rx u \<noteq> [] \<and> ier u AND 1 \<noteq> 0 \<or> ier u AND 2 \<noteq> 0)
    \<and> concat (map pl011_fed ys) = t' @ rxBuf p
    \<and> bytes_out es' = concat (map (\<lambda>a. filter (\<lambda>c. c \<noteq> 0) (take 8 (pl011_written a))) ys)
    \<and> line_after es' False = (rxBuf p \<noteq> [] \<and> imsc p AND 0x10 \<noteq> 0 \<and> raise \<and> \<not> noUartIRQ)
    \<and> (noUartIRQ \<or> \<not> raise \<longrightarrow> (\<forall>level. RaiseLine level \<notin> set es'))"
proof -
  have u0: "rx NewUART16550 = []" "irqLevel NewUART16550 = False"
    by (simp_all add: NewUART16550_def irqLevel_def)
  have p0: "rxBuf (NewPL011 raise) = []" "pl011_line noUartIRQ (NewPL011 raise) = False"
      "pl011_good (NewPL011 raise) \<and> pl_raise (NewPL011 raise) = raise"
    by (simp_all add: NewPL011_def pl011_good_def pl011_pending_def pl011_line_def)
  have "bytes_out es' = concat (map pl011_sent ys)"
    using pl011.run_out [OF assms(2)] run_sent_stateless [OF assms(2)] by simp
  moreover have "pl011_sent = (\<lambda>a. filter (\<lambda>c. c \<noteq> 0) (take 8 (pl011_written a)))"
    by (simp add: fun_eq_iff pl011_sent_def)
  moreover have "noUartIRQ \<or> \<not> raise \<longrightarrow> (\<forall>level. RaiseLine level \<notin> set es')"
    using pl011_never_raised [OF assms(2)] p0(3) by blast
  moreover have "line_after es' False = pl011_line noUartIRQ p" "pl011_good p \<and> pl_raise p = raise"
    using pl011.run_line [OF p0(3) assms(2)] p0(2) pl011.run_good [OF p0(3) assms(2)] by simp_all
  then have "line_after es' False = (rxBuf p \<noteq> [] \<and> imsc p AND 0x10 \<noteq> 0 \<and> raise \<and> \<not> noUartIRQ)"
    unfolding pl011_good_def pl011_pending_def pl011_line_def by blast
  moreover have "line_after es False = irqLevel u"
    using uart.run_line [OF _ assms(1)] u0(2) by simp
  ultimately show ?thesis
    using uart.run_queue [OF assms(1)] uart.run_out [OF assms(1)] pl011.run_queue [OF assms(2)] u0(1) p0(1)
    by (simp add: irqLevel_def)
qed

definition uart_session :: "uart_input list" where
  "uart_session = [UOut 0x3f9 1, UFeed [104, 105], UIn 0x3f8, UOut 0x3f8 33]"

definition pl011_session :: "pl011_input list" where
  "pl011_session = [PAccess True 0x38 [0x10, 0] 4, PFeed [104, 105], PAccess False 0 [] 4, PAccess True 0 [33, 0] 2]"

theorem serial_ports_faithful_witness:
  "\<exists>u es p es'. run_serial uart_step uart_session NewUART16550 = Some (u, es, [104])
    \<and> run_serial (pl011_step False) pl011_session (NewPL011 True) = Some (p, es', [104])
    \<and> concat (map uart_fed uart_session) = [104] @ rx u \<and> line_after es False
    \<and> concat (map pl011_fed pl011_session) = [104] @ rxBuf p \<and> line_after es' False \<and> bytes_out es' = [33]"
proof -
  obtain u es where u: "run_serial uart_step uart_session NewUART16550 = Some (u, es, [104])"
    "rx u \<noteq> [] \<and> ier u AND 1 \<noteq> 0"
    by (simp add: uart_session_def uart_step_def uart_IOWrite_def uart_IORead_def uart_feed_def
        NewUART16550_def SerialPort_def dlab_def uart_reg_def Let_def)
  obtain p es' where p: "run_serial (pl011_step False) pl011_session (NewPL011 True) = Some (p, es', [104])"
    "rxBuf p \<noteq> [] \<and> imsc p AND 0x10 \<noteq> 0"
    by (simp add: pl011_session_def pl011_step_def pl011_MMIO_def pl011_feed_def updateIRQLocked_def
        NewPL011_def Let_def)
  have "concat (map (\<lambda>a. filter (\<lambda>c. c \<noteq> 0) (take 8 (pl011_written a))) pl011_session) = [33]"
    by (simp add: pl011_session_def pl011_written_def)
  then show ?thesis using serial_ports_faithful [OF u(1) p(1)] u p by auto
qed

end
