(* ===== verification/Legacy_PC.thy ===== *)
theory Legacy_PC
  imports Irqchips Serial_Ports
begin

text \<open>
  The remaining legacy devices of an x86 guest and their port dispatch: the interval timer
  (\<open>devices/pit.go\<close>), the CMOS clock (\<open>devices/cmos.go\<close>) and \<open>initX86\<close> and \<open>handleIO\<close> of
  \<open>vmm/x86devices.go\<close>.  Host time is an argument, in nanoseconds; tick arithmetic is at the 64 bits of
  the code.
\<close>

unbundle bit_operations_syntax

section \<open>The interval timer\<close>

definition pitClockHz :: nat where "pitClockHz = 1193182"

record pitChannel =
  pit_access :: byte
  pit_mode :: byte
  pit_reload :: u16
  pit_running :: bool
  pit_start :: int
  writeLSB :: bool
  readLSB :: bool

text \<open>\<open>pit_cancel\<close> holds the period, in nanoseconds, and the one-shot flag of the timer goroutine that
  \<open>cancel\<close> would stop.\<close>

record PIT8254 =
  pit_ch :: "pitChannel list"
  pit_raise :: bool
  pit_cancel :: "(int \<times> bool) option"
  nmi61 :: byte
  pit_closed :: bool

definition zero_channel :: pitChannel where
  "zero_channel = \<lparr> pit_access = 0, pit_mode = 0, pit_reload = 0, pit_running = False, pit_start = 0,
     writeLSB = False, readLSB = False \<rparr>"

definition NewPIT :: "bool \<Rightarrow> PIT8254" where
  "NewPIT r = \<lparr> pit_ch = replicate 3 zero_channel, pit_raise = r, pit_cancel = None, nmi61 = 0, pit_closed = False \<rparr>"

text \<open>\<open>time.Time.Sub\<close> saturates at the largest duration.\<close>

definition time_Sub :: "int \<Rightarrow> int \<Rightarrow> int" where
  "time_Sub t s = max (- (2 ^ 63)) (min (2 ^ 63 - 1) (t - s))"

definition ticksSince :: "int \<Rightarrow> int \<Rightarrow> u64" where
  "ticksSince t start = (let elapsed = time_Sub t start in
     if elapsed \<le> 0 then 0 else of_int elapsed * of_nat pitClockHz div 1000000000)"

definition pit_count :: "int \<Rightarrow> pitChannel \<Rightarrow> u16" where
  "pit_count t c =
    (if \<not> pit_running c \<or> pit_reload c = 0 then 0
     else let ticks = ticksSince t (pit_start c) in
       if pit_mode c = 0
       then (if ucast (pit_reload c) \<le> ticks then 0 else pit_reload c - ucast ticks)
       else pit_reload c - ucast (ticks mod ucast (pit_reload c)))"

definition pit_port61 :: "int \<Rightarrow> PIT8254 \<Rightarrow> byte" where
  "pit_port61 t p =
    (let v = nmi61 p AND NOT 0x20;
         c = pit_ch p ! 2
     in if pit_running c \<and> pit_reload c \<noteq> 0 then
          let ticks = ticksSince t (pit_start c);
              expired = (if pit_mode c = 0 \<or> pit_mode c = 4 then ucast (pit_reload c) \<le> ticks
                         else ucast (pit_reload c) div 2 \<le> ticks mod ucast (pit_reload c))
          in if expired then v OR 0x20 else v
        else v)"

definition pit_IORead :: "int \<Rightarrow> u16 \<Rightarrow> PIT8254 \<Rightarrow> PIT8254 \<times> byte" where
  "pit_IORead t port p =
    (let idx = unat (port - 0x40) in
     if 2 < idx then (p, if port = 0x61 then pit_port61 t p else 0xff)
     else
       let c = pit_ch p ! idx; v = pit_count t c in
       if pit_access c = 1 then (p, ucast v)
       else if pit_access c = 2 then (p, ucast (drop_bit 8 v))
       else if readLSB c then (p \<lparr> pit_ch := (pit_ch p)[idx := c \<lparr> readLSB := False \<rparr>] \<rparr>, ucast (drop_bit 8 v))
       else (p \<lparr> pit_ch := (pit_ch p)[idx := c \<lparr> readLSB := True \<rparr>] \<rparr>, ucast v))"

definition pit_period :: "u16 \<Rightarrow> int" where
  "pit_period r = max 500000 (int (unat r) * 1000000000 div int pitClockHz)"

definition armTimerLocked :: "PIT8254 \<Rightarrow> PIT8254" where
  "armTimerLocked p =
    (let c = pit_ch p ! 0 in p \<lparr> pit_cancel := Some (pit_period (pit_reload c), pit_mode c = 0) \<rparr>)"

definition pit_command :: "byte \<Rightarrow> PIT8254 \<Rightarrow> PIT8254" where
  "pit_command val p =
    (let idx = unat (drop_bit 6 val AND 3) in
     if idx = 3 \<or> drop_bit 4 val AND 3 = 0 then p
     else
       let p1 = p \<lparr> pit_ch := (pit_ch p)[idx := (pit_ch p ! idx) \<lparr> pit_access := drop_bit 4 val AND 3,
                    pit_mode := drop_bit 1 val AND 7, writeLSB := True, pit_running := False \<rparr>] \<rparr>
       in if idx = 0 then p1 \<lparr> pit_cancel := None \<rparr> else p1)"

text \<open>Storing one byte of the reload value; \<open>Inl\<close> is the early return that waits for the high byte.\<close>

definition pit_store :: "byte \<Rightarrow> pitChannel \<Rightarrow> pitChannel + pitChannel" where
  "pit_store val c =
    (if pit_access c = 1 then Inr (c \<lparr> pit_reload := ucast val \<rparr>)
     else if pit_access c = 2 then Inr (c \<lparr> pit_reload := push_bit 8 (ucast val) \<rparr>)
     else if writeLSB c then
       Inl (c \<lparr> pit_reload := (pit_reload c AND 0xff00) OR ucast val, writeLSB := False \<rparr>)
     else Inr (c \<lparr> pit_reload := (pit_reload c AND 0x00ff) OR push_bit 8 (ucast val) \<rparr>))"

definition pit_IOWrite :: "int \<Rightarrow> u16 \<Rightarrow> byte \<Rightarrow> PIT8254 \<Rightarrow> PIT8254" where
  "pit_IOWrite t port val p =
    (if pit_closed p then p
     else if port = 0x43 then pit_command val p
     else if port = 0x61 then p \<lparr> nmi61 := val \<rparr>
     else
       let idx = unat (port - 0x40) in
       if 2 < idx then p
       else case pit_store val (pit_ch p ! idx) of
              Inl c \<Rightarrow> p \<lparr> pit_ch := (pit_ch p)[idx := c] \<rparr>
            | Inr c \<Rightarrow>
                let c = c \<lparr> pit_reload := (if pit_reload c = 0 then 0xffff else pit_reload c),
                            pit_start := t, pit_running := True \<rparr>;
                    p1 = p \<lparr> pit_ch := (pit_ch p)[idx := c] \<rparr>
                in if idx = 0 \<and> pit_raise p then armTimerLocked p1 else p1)"

definition pit_Close :: "PIT8254 \<Rightarrow> PIT8254" where
  "pit_Close p = (if pit_closed p then p else p \<lparr> pit_closed := True, pit_cancel := None \<rparr>)"

section \<open>The CMOS clock\<close>

text \<open>The fields of the host's UTC time that the clock registers show.\<close>

record UTC =
  utc_second :: int
  utc_minute :: int
  utc_hour :: int
  utc_weekday :: int
  utc_day :: int
  utc_month :: int
  utc_year :: int

type_synonym CMOSRTC = byte

definition bcd :: "int \<Rightarrow> byte" where
  "bcd v = word_of_int (push_bit 4 (v div 10) OR (v mod 10))"

definition cmos_IORead :: "UTC \<Rightarrow> u16 \<Rightarrow> CMOSRTC \<Rightarrow> byte" where
  "cmos_IORead t port index =
    (if port = 0x70 then index
     else
       let r = index AND 0x7f in
       if r = 0x00 then bcd (utc_second t)
       else if r = 0x02 then bcd (utc_minute t)
       else if r = 0x04 then bcd (utc_hour t)
       else if r = 0x06 then bcd (utc_weekday t + 1)
       else if r = 0x07 then bcd (utc_day t)
       else if r = 0x08 then bcd (utc_month t)
       else if r = 0x09 then bcd (utc_year t mod 100)
       else if r = 0x0a then 0x26
       else if r = 0x0b then 0x02
       else if r = 0x0c then 0x00
       else if r = 0x0d then 0x80
       else if r = 0x0e then 0x00
       else if r = 0x0f then 0x00
       else if r = 0x32 then bcd (utc_year t div 100)
       else 0)"

definition cmos_IOWrite :: "u16 \<Rightarrow> byte \<Rightarrow> CMOSRTC \<Rightarrow> CMOSRTC" where
  "cmos_IOWrite port val index = (if port = 0x70 then val else index)"

section \<open>Port dispatch\<close>

record x86Devices =
  uartIO :: UART16550
  cmos :: CMOSRTC
  pit :: PIT8254
  pic :: PIC8259

datatype io_effect = SerialEvent uart_event | PicVector u32

definition initX86 :: x86Devices where
  "initX86 = \<lparr> uartIO = NewUART16550, cmos = 0, pit = NewPIT True, pic = NewPIC False \<rparr>"

definition handleIO :: "int \<Rightarrow> UTC \<Rightarrow> bool \<Rightarrow> u16 \<Rightarrow> u32 \<Rightarrow> x86Devices \<Rightarrow> x86Devices \<times> io_effect list \<times> u32" where
  "handleIO t utc isWrite port val m =
    (if SerialPort \<le> port \<and> port < SerialPort + 8 then
       (if isWrite
        then case uart_IOWrite port (ucast val) (uartIO m) of (u, es) \<Rightarrow> (m \<lparr> uartIO := u \<rparr>, map SerialEvent es, 0)
        else case uart_IORead port (uartIO m) of (u, es, v) \<Rightarrow> (m \<lparr> uartIO := u \<rparr>, map SerialEvent es, ucast v))
     else if port = 0x70 \<or> port = 0x71 then
       (if isWrite then (m \<lparr> cmos := cmos_IOWrite port (ucast val) (cmos m) \<rparr>, [], 0)
        else (m, [], ucast (cmos_IORead utc port (cmos m))))
     else if 0x40 \<le> port \<and> port \<le> 0x43 \<or> port = 0x61 then
       (if isWrite then (m \<lparr> pit := pit_IOWrite t port (ucast val) (pit m) \<rparr>, [], 0)
        else case pit_IORead t port (pit m) of (p, v) \<Rightarrow> (m \<lparr> pit := p \<rparr>, [], ucast v))
     else if port = 0x20 \<or> port = 0x21 \<or> port = 0xa0 \<or> port = 0xa1 then
       (if isWrite
        then case pic_IOWrite port (ucast val) (pic m) of (p, v) \<Rightarrow>
               (m \<lparr> pic := p \<rparr>, case v of None \<Rightarrow> [] | Some x \<Rightarrow> [PicVector x], 0)
        else (m, [], ucast (pic_IORead (pic m) port)))
     else (m, [], 0xffffffff))"

section \<open>The counter shows elapsed time\<close>

text \<open>The tick product stays below \<open>2 ^ 64\<close> for almost four hours and eighteen minutes.\<close>

definition tick_horizon :: int where "tick_horizon = 15460000000000"

definition elapsed_ticks :: "int \<Rightarrow> nat" where
  "elapsed_ticks e = nat e * pitClockHz div 1000000000"

definition lohi :: "byte \<Rightarrow> byte \<Rightarrow> nat" where
  "lohi lo hi = unat lo + 256 * unat hi"

lemma unat_ticksSince:
  assumes "s \<le> t" "t - s < tick_horizon"
  shows "unat (ticksSince t s) = elapsed_ticks (t - s)"
proof -
  have e: "time_Sub t s = t - s" using assms by (simp add: time_Sub_def tick_horizon_def)
  have small: "nat (t - s) * pitClockHz < 2 ^ 64"
    using assms by (simp add: tick_horizon_def pitClockHz_def)
  have "(of_int (t - s) * of_nat pitClockHz :: u64) = of_nat (nat (t - s) * pitClockHz)"
    using assms(1) by simp
  then have "unat (of_int (t - s) * of_nat pitClockHz :: u64) = nat (t - s) * pitClockHz"
    using small by (simp only: unat_of_nat) simp
  then show ?thesis using assms(1) by (simp add: ticksSince_def e Let_def elapsed_ticks_def unat_div)
qed

lemma reload_lohi:
  "unat ((((r AND 0xff00) OR ucast lo) AND 0x00ff) OR push_bit 8 (ucast hi) :: u16) = lohi lo hi"
proof -
  have m: "0xff00 = push_bit 8 (mask 8 :: u16)" "0x00ff = (mask 8 :: u16)"
    by (simp_all add: mask_eq_exp_minus_1 push_bit_eq_mult)
  have "(((r AND 0xff00) OR ucast lo) AND 0x00ff) OR push_bit 8 (ucast hi)
      = (ucast lo OR push_bit 8 (ucast hi) :: u16)"
    unfolding m
    by (rule bit_word_eqI) (use byte_bit_imp_less [of lo] in \<open>auto simp: bit_simps\<close>)
  also have "\<dots> = ucast lo + push_bit 8 (ucast hi)"
    by (rule disjunctive_add [symmetric]) (use byte_bit_imp_less [of lo] in \<open>fastforce simp: bit_simps\<close>)
  also have "unat \<dots> = lohi lo hi"
    using unat_less_2p [of lo] unat_less_2p [of hi]
    by (simp add: lohi_def push_bit_eq_mult unat_word_ariths unat_ucast_up)
  finally show ?thesis .
qed

text \<open>The value a channel shows while its tick count is exact.\<close>

lemma unat_pit_count:
  assumes "pit_running c" "pit_reload c \<noteq> 0" "pit_start c \<le> t" "t - pit_start c < tick_horizon"
  shows "unat (pit_count t c) = (let n = unat (pit_reload c); k = elapsed_ticks (t - pit_start c)
    in if pit_mode c = 0 then n - k else n - k mod n)"
proof -
  let ?n = "unat (pit_reload c)" and ?k = "ticksSince t (pit_start c)"
  have k: "unat ?k = elapsed_ticks (t - pit_start c)" using assms(3,4) by (rule unat_ticksSince)
  have n: "unat (ucast (pit_reload c) :: u64) = ?n" by (simp add: unat_ucast_up)
  have n0: "0 < ?n" "?n < 65536"
    using assms(2) unat_less_2p [of "pit_reload c"] by (simp_all add: unat_gt_0)
  have sub: "unat (pit_reload c - ucast x) = ?n - unat x" if "unat x < ?n" for x :: u64
  proof -
    have "unat (ucast x :: u16) = unat x" using that n0 by (simp add: unat_ucast_mod)
    then show ?thesis using that by (simp add: unat_sub word_le_nat_alt)
  qed
  have "unat (?k mod ucast (pit_reload c)) = unat ?k mod ?n" by (simp add: unat_mod n)
  moreover have "unat ?k mod ?n < ?n" using n0 by simp
  ultimately show ?thesis
    using assms(1,2) sub [of ?k] sub [of "?k mod ucast (pit_reload c)"] k
    by (auto simp: pit_count_def Let_def word_le_nat_alt n)
qed

text \<open>Programming a channel: a command word that selects low-then-high access, then the two bytes.\<close>

definition pit_program :: "int \<Rightarrow> nat \<Rightarrow> byte \<Rightarrow> byte \<Rightarrow> byte \<Rightarrow> PIT8254 \<Rightarrow> PIT8254" where
  "pit_program t idx cmd lo hi p =
    pit_IOWrite t (0x40 + of_nat idx) hi (pit_IOWrite t (0x40 + of_nat idx) lo (pit_IOWrite t 0x43 cmd p))"

lemma pit_IOWrite_channel:
  assumes "idx < 3" "\<not> pit_closed p"
  shows "pit_IOWrite t (0x40 + of_nat idx) val p =
    (case pit_store val (pit_ch p ! idx) of
       Inl c \<Rightarrow> p \<lparr> pit_ch := (pit_ch p)[idx := c] \<rparr>
     | Inr c \<Rightarrow>
         let c = c \<lparr> pit_reload := (if pit_reload c = 0 then 0xffff else pit_reload c),
                     pit_start := t, pit_running := True \<rparr>;
             p1 = p \<lparr> pit_ch := (pit_ch p)[idx := c] \<rparr>
         in if idx = 0 \<and> pit_raise p then armTimerLocked p1 else p1)"
proof -
  have "idx = 0 \<or> idx = 1 \<or> idx = 2" using assms(1) by auto
  then show ?thesis using assms(2) by (auto simp: pit_IOWrite_def)
qed

lemma pit_program_channel:
  assumes "idx < 3" "\<not> pit_closed p" "length (pit_ch p) = 3"
    and "unat (drop_bit 6 cmd AND 3) = idx" "drop_bit 4 cmd AND 3 = 3" "lohi lo hi \<noteq> 0"
  shows "\<exists>c. pit_ch (pit_program t idx cmd lo hi p) ! idx = c \<and> unat (pit_reload c) = lohi lo hi
    \<and> pit_mode c = drop_bit 1 cmd AND 7 \<and> pit_start c = t \<and> pit_running c
    \<and> (idx = 0 \<and> pit_raise p \<longrightarrow>
        pit_cancel (pit_program t idx cmd lo hi p) = Some (pit_period (pit_reload c), pit_mode c = 0))"
proof -
  let ?c0 = "(pit_ch p ! idx) \<lparr> pit_access := 3, pit_mode := drop_bit 1 cmd AND 7, writeLSB := True, pit_running := False \<rparr>"
  define p1 where "p1 = pit_IOWrite t 0x43 cmd p"
  have p1: "pit_ch p1 ! idx = ?c0" "\<not> pit_closed p1" "length (pit_ch p1) = 3" "pit_raise p1 = pit_raise p"
    using assms by (auto simp: p1_def pit_IOWrite_def pit_command_def Let_def)
  let ?c1 = "?c0 \<lparr> pit_reload := (pit_reload ?c0 AND 0xff00) OR ucast lo, writeLSB := False \<rparr>"
  define p2 where "p2 = pit_IOWrite t (0x40 + of_nat idx) lo p1"
  have p2: "p2 = p1 \<lparr> pit_ch := (pit_ch p1)[idx := ?c1] \<rparr>"
    unfolding p2_def pit_IOWrite_channel [OF assms(1) p1(2)] p1(1) by (simp add: pit_store_def)
  let ?r = "(pit_reload ?c1 AND 0x00ff) OR push_bit 8 (ucast hi)"
  have r: "unat ?r = lohi lo hi" "?r \<noteq> 0"
    using reload_lohi [of "pit_reload (pit_ch p ! idx)" lo hi] assms(6) by (auto simp: unat_eq_0)
  let ?c2 = "?c1 \<lparr> pit_reload := ?r, pit_start := t, pit_running := True \<rparr>"
  have open2: "\<not> pit_closed p2" "pit_ch p2 ! idx = ?c1" "length (pit_ch p2) = 3" "pit_raise p2 = pit_raise p"
    using p1 assms(1) by (simp_all add: p2)
  have "pit_program t idx cmd lo hi p =
      (let p3 = p2 \<lparr> pit_ch := (pit_ch p2)[idx := ?c2] \<rparr> in if idx = 0 \<and> pit_raise p then armTimerLocked p3 else p3)"
    unfolding pit_program_def p1_def [symmetric] p2_def [symmetric] pit_IOWrite_channel [OF assms(1) open2(1)] open2(2)
    using r(2) open2(4) by (simp add: pit_store_def)
  then show ?thesis using open2 assms(1) r(1) by (auto simp: armTimerLocked_def Let_def)
qed

text \<open>C39.  The interval timer shows host time.  On an open timer, a command word that selects
  low-then-high access for a channel followed by the two bytes of a non-zero reload value starts the channel:
  for the next 15460 seconds the counter reads the reload value less the elapsed ticks at 1193182 Hz,
  stopping at zero in mode 0 and wrapping in the periodic modes, and programming channel 0 arms the host
  timer with the period of the reload value, never below half a millisecond.\<close>

theorem pit_counter:
  assumes "idx < 3" "\<not> pit_closed p" "length (pit_ch p) = 3"
    and "unat (drop_bit 6 cmd AND 3) = idx" "drop_bit 4 cmd AND 3 = 3" "lohi lo hi \<noteq> 0"
    and "t0 \<le> t" "t - t0 < tick_horizon"
  shows "unat (pit_count t (pit_ch (pit_program t0 idx cmd lo hi p) ! idx))
      = (if drop_bit 1 cmd AND 7 = 0 then lohi lo hi - elapsed_ticks (t - t0)
         else lohi lo hi - elapsed_ticks (t - t0) mod lohi lo hi)
    \<and> (idx = 0 \<and> pit_raise p \<longrightarrow> pit_cancel (pit_program t0 idx cmd lo hi p)
         = Some (max 500000 (int (lohi lo hi) * 1000000000 div 1193182), drop_bit 1 cmd AND 7 = 0))"
proof -
  obtain c where c: "pit_ch (pit_program t0 idx cmd lo hi p) ! idx = c" "unat (pit_reload c) = lohi lo hi"
    "pit_mode c = drop_bit 1 cmd AND 7" "pit_start c = t0" "pit_running c"
    "idx = 0 \<and> pit_raise p \<longrightarrow>
        pit_cancel (pit_program t0 idx cmd lo hi p) = Some (pit_period (pit_reload c), pit_mode c = 0)"
    using pit_program_channel [OF assms(1-6)] by blast
  have "pit_reload c \<noteq> 0" using c(2) assms(6) by auto
  then show ?thesis
    using unat_pit_count [of c t] c assms(7,8) by (simp add: Let_def pit_period_def pitClockHz_def)
qed

theorem pit_counter_witness:
  "unat (pit_count 1000000 (pit_ch (pit_program 0 0 0x34 0xa9 0x04 (NewPIT True)) ! 0)) = 0x4a9
   \<and> unat (pit_count 500000 (pit_ch (pit_program 0 0 0x34 0xa9 0x04 (NewPIT True)) ! 0)) = 0x4a9 - 596
   \<and> pit_cancel (pit_program 0 0 0x34 0xa9 0x04 (NewPIT True)) = Some (999847, False)"
  using pit_counter [of 0 "NewPIT True" "0x34" "0xa9" "0x04" 0 1000000]
    pit_counter [of 0 "NewPIT True" "0x34" "0xa9" "0x04" 0 500000]
  by (simp add: NewPIT_def lohi_def elapsed_ticks_def tick_horizon_def pitClockHz_def)

section \<open>Past the horizon and without a new command word\<close>

text \<open>The 64-bit product wraps after 15461 seconds: an expired one-shot channel counts again.\<close>

lemma pit_oneshot_restarts:
  "pit_count 15460000000000 (zero_channel \<lparr> pit_reload := 1000, pit_running := True \<rparr>) = 0"
  "pit_count 15460126100000 (zero_channel \<lparr> pit_reload := 1000, pit_running := True \<rparr>) \<noteq> 0"
  by (simp_all add: pit_count_def ticksSince_def time_Sub_def zero_channel_def pitClockHz_def)

text \<open>\<open>writeLSB\<close> is not set again after the high byte, so a second low-then-high pair with no new command
  word stores its low byte as the high byte and keeps the old low byte.\<close>

lemma pit_second_reload:
  "pit_reload (pit_ch (pit_IOWrite 1 0x40 0x34 (pit_program 0 0 0x34 0xa9 0x04 (NewPIT False))) ! 0) = 0x34a9"
  "pit_reload (pit_ch (pit_IOWrite 1 0x40 0x12 (pit_IOWrite 1 0x40 0x34
     (pit_program 0 0 0x34 0xa9 0x04 (NewPIT False)))) ! 0) = 0x12a9"
  by (simp_all add: pit_program_def pit_IOWrite_def pit_command_def pit_store_def NewPIT_def zero_channel_def
      replicate_numeral Let_def)

text \<open>The clock registers decode to the host's values.\<close>

lemma bcd_nibbles:
  assumes "0 \<le> v" "v < 100"
  shows "unat (bcd v) = 16 * nat (v div 10) + nat (v mod 10)"
proof -
  have "take_bit 4 (v mod 10) = v mod 10"
    using assms by (simp add: take_bit_int_eq_self)
  then have "push_bit 4 (v div 10) OR (v mod 10) = push_bit 4 (v div 10) + v mod 10"
    by (intro disjunctive_add [symmetric]) (metis bit_push_bit_iff bit_take_bit_iff leD)
  then have "bcd v = of_nat (16 * nat (v div 10) + nat (v mod 10))"
    using assms by (simp add: bcd_def push_bit_eq_mult)
  moreover have "16 * nat (v div 10) + nat (v mod 10) < 256" using assms by linarith
  ultimately show ?thesis by (simp only: unat_of_nat_byte mod_less)
qed

lemma bcd_decodes:
  assumes "0 \<le> v" "v < 100"
  shows "10 * (unat (bcd v) div 16) + unat (bcd v) mod 16 = nat v"
  unfolding bcd_nibbles [OF assms] using assms by (simp add: nat_div_distrib nat_mod_distrib)

end
