(* ===== verification/X86_Emul.thy ===== *)
theory X86_Emul
  imports Gantry_Prelude
begin

text \<open>
  The instruction decoder that serves MMIO exits without operand values
  (\<open>internal/vmm/devices/x86emul.go\<close>): \<open>DecodeMMIO\<close> and \<open>ApplyMMIO\<close>.  A reference encoding of the
  supported moves, with the operand sizes and lengths of the architecture, is shown to be decoded exactly.
\<close>

unbundle bit_operations_syntax

section \<open>Decoding\<close>

record MMIOOp =
  IsWrite :: bool
  Width :: nat
  Imm :: u64
  ImmOK :: bool
  Reg :: int
  SignExt :: bool
  Dest64 :: bool
  Length :: nat

datatype emul_error =
    TruncatedInstruction
  | Truncated0F
  | Unsupported0F byte
  | UnsupportedOpcode byte
  | TruncatedModRM
  | MovImmDigit nat
  | RegisterDirect
  | TruncatedSIB
  | TruncatedDisplacement
  | TruncatedImmediate

definition zero_op :: MMIOOp where
  "zero_op = \<lparr> IsWrite = False, Width = 0, Imm = 0, ImmOK = False, Reg = -1, SignExt = False,
     Dest64 = False, Length = 0 \<rparr>"

record prefix_state =
  rexW :: byte
  rexR :: byte
  osz16 :: bool

definition ignored_prefix :: "byte \<Rightarrow> bool" where
  "ignored_prefix b \<longleftrightarrow> b = 0xf0 \<or> b = 0xf2 \<or> b = 0xf3
     \<or> b = 0x26 \<or> b = 0x2e \<or> b = 0x36 \<or> b = 0x3e \<or> b = 0x64 \<or> b = 0x65"

text \<open>The prefix loop; the result holds the number of bytes it passed.\<close>

fun scan_prefixes :: "byte list \<Rightarrow> prefix_state \<Rightarrow> nat \<Rightarrow> prefix_state \<times> nat" where
  "scan_prefixes [] pf i = (pf, i)"
| "scan_prefixes (b # bs) pf i =
    (if b = 0x66 then scan_prefixes bs (pf \<lparr> osz16 := True \<rparr>) (Suc i)
     else if 0x40 \<le> b \<and> b \<le> 0x4f then
       scan_prefixes bs (pf \<lparr> rexW := drop_bit 3 b AND 1, rexR := drop_bit 2 b AND 1 \<rparr>) (Suc i)
     else if ignored_prefix b then scan_prefixes bs pf (Suc i)
     else (pf, i))"

definition decode_opcode :: "prefix_state \<Rightarrow> byte list \<Rightarrow> byte \<Rightarrow> nat \<Rightarrow> emul_error + MMIOOp \<times> nat" where
  "decode_opcode pf ins b i =
    (let sized = (if osz16 pf then 2 else if rexW pf = 1 then 8 else 4) in
     if b = 0x88 \<or> b = 0x89 then
       Inr (zero_op \<lparr> IsWrite := True, Width := (if b = 0x88 then 1 else sized) \<rparr>, i)
     else if b = 0x8a \<or> b = 0x8b then
       Inr (zero_op \<lparr> Width := (if b = 0x8a then 1 else sized), Dest64 := (rexW pf = 1) \<rparr>, i)
     else if b = 0xc6 \<or> b = 0xc7 then
       Inr (zero_op \<lparr> IsWrite := True, ImmOK := True,
              Width := (if b = 0xc6 then 1 else if rexW pf = 1 then 8 else if osz16 pf then 2 else 4) \<rparr>, i)
     else if b = 0x0f then
       (if length ins \<le> i then Inl Truncated0F
        else let b2 = ins ! i in
          if b2 = 0xb6 \<or> b2 = 0xb7 \<or> b2 = 0xbe \<or> b2 = 0xbf then
            Inr (zero_op \<lparr> Width := (if b2 = 0xb6 \<or> b2 = 0xbe then 1 else 2), SignExt := (0xbe \<le> b2),
                   Dest64 := (rexW pf = 1) \<rparr>, Suc i)
          else Inl (Unsupported0F b2))
     else Inl (UnsupportedOpcode b))"

text \<open>The position after ModRM, SIB and displacement, with the extended register field.\<close>

definition decode_modrm :: "prefix_state \<Rightarrow> byte list \<Rightarrow> byte \<Rightarrow> nat \<Rightarrow> emul_error + nat \<times> nat" where
  "decode_modrm pf ins b i =
    (if length ins \<le> i then Inl TruncatedModRM
     else
       let m = ins ! i; i = Suc i;
           md = drop_bit 6 m;
           modrmReg = unat (drop_bit 3 m AND 7) + 8 * unat (rexR pf);
           rm = m AND 7
       in if (b = 0xc6 \<or> b = 0xc7) \<and> modrmReg mod 8 \<noteq> 0 then Inl (MovImmDigit (modrmReg mod 8))
          else if md = 3 then Inl RegisterDirect
          else if rm = 4 \<and> length ins \<le> i then Inl TruncatedSIB
          else
            let i1 = (if rm = 4 then (if md = 0 \<and> ins ! i AND 7 = 5 then Suc i + 4 else Suc i)
                      else if md = 0 \<and> rm = 5 then i + 4 else i);
                i2 = (if md = 1 then Suc i1 else if md = 2 then i1 + 4 else i1)
            in if length ins < i2 then Inl TruncatedDisplacement else Inr (modrmReg, i2))"

definition imm_value :: "byte \<Rightarrow> nat \<Rightarrow> byte list \<Rightarrow> u64" where
  "imm_value b w bs =
    (let v = of_nat (get_le bs) in
     if b = 0xc7 \<and> w = 8 \<and> v AND 0x80000000 \<noteq> 0 then v OR 0xffffffff00000000 else v)"

definition decode_operand :: "byte list \<Rightarrow> byte \<Rightarrow> MMIOOp \<Rightarrow> nat \<Rightarrow> nat \<Rightarrow> emul_error + MMIOOp" where
  "decode_operand ins b oper modrmReg i =
    (if ImmOK oper then
       let n = (if Width oper = 8 then 4 else Width oper) in
       if length ins < i + n then Inl TruncatedImmediate
       else Inr (oper \<lparr> Imm := imm_value b (Width oper) (take n (drop i ins)), Length := i + n \<rparr>)
     else Inr (oper \<lparr> Reg := int modrmReg, Length := i \<rparr>))"

definition DecodeMMIO :: "byte list \<Rightarrow> emul_error + MMIOOp" where
  "DecodeMMIO ins =
    (case scan_prefixes ins \<lparr> rexW = 0, rexR = 0, osz16 = False \<rparr> 0 of (pf, i) \<Rightarrow>
       if length ins \<le> i then Inl TruncatedInstruction
       else
         let b = ins ! i in
         case decode_opcode pf ins b (Suc i) of
           Inl e \<Rightarrow> Inl e
         | Inr (oper, i) \<Rightarrow>
             (case decode_modrm pf ins b i of
                Inl e \<Rightarrow> Inl e
              | Inr (modrmReg, i) \<Rightarrow> decode_operand ins b oper modrmReg i))"

section \<open>Execution\<close>

datatype mmio_action = DevWrite nat u64 | SetReg int u64

text \<open>\<open>devRead\<close> is the value the device gives for a read of the width; the one call of \<open>devWrite\<close> or
  \<open>setReg\<close> is the result.\<close>

definition ApplyMMIO :: "MMIOOp \<Rightarrow> (int \<Rightarrow> u64) \<Rightarrow> (nat \<Rightarrow> u64) \<Rightarrow> mmio_action" where
  "ApplyMMIO oper getReg devRead =
    (if IsWrite oper then
       let v = (if ImmOK oper then Imm oper else getReg (Reg oper));
           v = (if Width oper < 8 then v AND (push_bit (8 * Width oper) 1 - 1) else v)
       in DevWrite (Width oper) v
     else
       let v = devRead (Width oper);
           res = (if SignExt oper then
                    (if Width oper = 1 then scast (ucast v :: 8 word)
                     else if Width oper = 2 then scast (ucast v :: 16 word)
                     else scast (ucast v :: 32 word))
                  else if Dest64 oper then v
                  else ucast (ucast v :: u32))
       in SetReg (Reg oper) res)"

section \<open>Reference encoding of the supported moves\<close>

datatype mov_kind =
    Store8 | Store | Load8 | Load | StoreImm8 | StoreImm | Movzx8 | Movzx16 | Movsx8 | Movsx16

record mov_insn =
  mi_legacy :: "byte list"
  mi_rex :: "byte option"
  mi_kind :: mov_kind
  mi_modrm :: byte
  mi_sib :: "byte option"
  mi_disp :: "byte list"
  mi_imm :: "byte list"

definition opcode_bytes :: "mov_kind \<Rightarrow> byte list" where
  "opcode_bytes k = (case k of Store8 \<Rightarrow> [0x88] | Store \<Rightarrow> [0x89] | Load8 \<Rightarrow> [0x8a] | Load \<Rightarrow> [0x8b]
     | StoreImm8 \<Rightarrow> [0xc6] | StoreImm \<Rightarrow> [0xc7] | Movzx8 \<Rightarrow> [0x0f, 0xb6] | Movzx16 \<Rightarrow> [0x0f, 0xb7]
     | Movsx8 \<Rightarrow> [0x0f, 0xbe] | Movsx16 \<Rightarrow> [0x0f, 0xbf])"

definition encode_mov :: "mov_insn \<Rightarrow> byte list" where
  "encode_mov x = mi_legacy x @ (case mi_rex x of None \<Rightarrow> [] | Some r \<Rightarrow> [r]) @ opcode_bytes (mi_kind x)
     @ [mi_modrm x] @ (case mi_sib x of None \<Rightarrow> [] | Some s \<Rightarrow> [s]) @ mi_disp x @ mi_imm x"

definition mi_W :: "mov_insn \<Rightarrow> bool" where
  "mi_W x = (case mi_rex x of None \<Rightarrow> False | Some r \<Rightarrow> bit r 3)"

definition mi_R :: "mov_insn \<Rightarrow> bool" where
  "mi_R x = (case mi_rex x of None \<Rightarrow> False | Some r \<Rightarrow> bit r 2)"

text \<open>The operand width of the architecture: a wide operand is eight bytes under REX.W, whatever other
  prefixes there are, else two bytes under \<open>0x66\<close>, else four.\<close>

definition mov_width :: "mov_insn \<Rightarrow> nat" where
  "mov_width x =
    (if mi_kind x \<in> {Store8, Load8, StoreImm8, Movzx8, Movsx8} then 1
     else if mi_kind x \<in> {Movzx16, Movsx16} then 2
     else if mi_W x then 8 else if 0x66 \<in> set (mi_legacy x) then 2 else 4)"

definition disp_size :: "byte \<Rightarrow> byte option \<Rightarrow> nat" where
  "disp_size m s =
    (let md = drop_bit 6 m in
     if md = 1 then 1 else if md = 2 then 4
     else case s of Some s \<Rightarrow> if s AND 7 = 5 then 4 else 0 | None \<Rightarrow> if m AND 7 = 5 then 4 else 0)"

definition wf_mov :: "mov_insn \<Rightarrow> bool" where
  "wf_mov x \<longleftrightarrow>
     (\<forall>b \<in> set (mi_legacy x). b = 0x66 \<or> ignored_prefix b)
   \<and> (case mi_rex x of None \<Rightarrow> True | Some r \<Rightarrow> 0x40 \<le> r \<and> r \<le> 0x4f)
   \<and> drop_bit 6 (mi_modrm x) \<noteq> 3
   \<and> (mi_sib x \<noteq> None) = (mi_modrm x AND 7 = 4)
   \<and> length (mi_disp x) = disp_size (mi_modrm x) (mi_sib x)
   \<and> (if mi_kind x \<in> {StoreImm8, StoreImm}
      then drop_bit 3 (mi_modrm x) AND 7 = 0 \<and> length (mi_imm x) = min 4 (mov_width x)
      else mi_imm x = [])"

text \<open>The one case in which the decoder departs from the architecture: a register move with both
  \<open>0x66\<close> and REX.W.\<close>

definition size_conflict :: "mov_insn \<Rightarrow> bool" where
  "size_conflict x \<longleftrightarrow> mi_kind x \<in> {Store, Load} \<and> 0x66 \<in> set (mi_legacy x) \<and> mi_W x"

definition sign_extend_imm :: "nat \<Rightarrow> byte list \<Rightarrow> u64" where
  "sign_extend_imm w bs = (if w = 8 then scast (of_nat (get_le bs) :: 32 word) else of_nat (get_le bs))"

definition mov_meaning :: "mov_insn \<Rightarrow> MMIOOp" where
  "mov_meaning x =
    (let isImm = (mi_kind x \<in> {StoreImm8, StoreImm}) in
     \<lparr> IsWrite = (mi_kind x \<in> {Store8, Store, StoreImm8, StoreImm}), Width = mov_width x,
       Imm = (if isImm then sign_extend_imm (mov_width x) (mi_imm x) else 0), ImmOK = isImm,
       Reg = (if isImm then -1 else int (unat (drop_bit 3 (mi_modrm x) AND 7) + (if mi_R x then 8 else 0))),
       SignExt = (mi_kind x \<in> {Movsx8, Movsx16}),
       Dest64 = (mi_kind x \<in> {Load8, Load, Movzx8, Movzx16, Movsx8, Movsx16} \<and> mi_W x),
       Length = length (encode_mov x) \<rparr>)"

section \<open>Prefixes\<close>

definition pf_of :: "byte list \<Rightarrow> byte option \<Rightarrow> prefix_state \<Rightarrow> prefix_state" where
  "pf_of ls r pf =
    (let pf1 = (if 0x66 \<in> set ls then pf \<lparr> osz16 := True \<rparr> else pf) in
     case r of None \<Rightarrow> pf1 | Some r \<Rightarrow> pf1 \<lparr> rexW := drop_bit 3 r AND 1, rexR := drop_bit 2 r AND 1 \<rparr>)"

definition not_prefix :: "byte \<Rightarrow> bool" where
  "not_prefix b \<longleftrightarrow> b \<noteq> 0x66 \<and> \<not> (0x40 \<le> b \<and> b \<le> 0x4f) \<and> \<not> ignored_prefix b"

lemma scan_rex:
  "not_prefix b \<Longrightarrow> (case r of None \<Rightarrow> True | Some r \<Rightarrow> 0x40 \<le> r \<and> r \<le> 0x4f) \<Longrightarrow>
    scan_prefixes ((case r of None \<Rightarrow> [] | Some r \<Rightarrow> [r]) @ b # bs) pf i
      = (pf_of [] r pf, i + (case r of None \<Rightarrow> 0 | Some _ \<Rightarrow> 1))"
  by (cases r) (auto simp: pf_of_def not_prefix_def)

lemma rex_not_66: "0x40 \<le> (b :: byte) \<and> b \<le> 0x4f \<Longrightarrow> b \<noteq> 0x66"
  by auto

lemma ignored_not_rex: "ignored_prefix b \<Longrightarrow> \<not> (0x40 \<le> b \<and> b \<le> 0x4f) \<and> b \<noteq> 0x66"
  by (auto simp: ignored_prefix_def)

lemma scan_prefixes_encoded:
  assumes "\<forall>b \<in> set ls. b = 0x66 \<or> ignored_prefix b" "not_prefix b"
    and "case r of None \<Rightarrow> True | Some r \<Rightarrow> 0x40 \<le> r \<and> r \<le> 0x4f"
  shows "scan_prefixes (ls @ (case r of None \<Rightarrow> [] | Some r \<Rightarrow> [r]) @ b # bs) pf i
      = (pf_of ls r pf, i + length ls + (case r of None \<Rightarrow> 0 | Some _ \<Rightarrow> 1))"
  using assms(1)
proof (induct ls arbitrary: pf i)
  case Nil
  then show ?case using scan_rex [OF assms(2,3)] by simp
next
  case (Cons l ls)
  then have IH: "scan_prefixes (ls @ (case r of None \<Rightarrow> [] | Some r \<Rightarrow> [r]) @ b # bs) pf i
      = (pf_of ls r pf, i + length ls + (case r of None \<Rightarrow> 0 | Some _ \<Rightarrow> 1))" for pf i by simp
  show ?case
  proof (cases "l = 0x66")
    case True
    then show ?thesis unfolding append_Cons by (simp add: IH) (simp add: pf_of_def)
  next
    case False
    then have "ignored_prefix l" using Cons.prems by simp
    then show ?thesis unfolding append_Cons using ignored_not_rex [of l]
      by (auto simp: IH pf_of_def)
  qed
qed

section \<open>Opcode, ModRM and immediate\<close>

definition start_prefix :: prefix_state where
  "start_prefix = \<lparr> rexW = 0, rexR = 0, osz16 = False \<rparr>"

definition mov_pf :: "mov_insn \<Rightarrow> prefix_state" where
  "mov_pf x = pf_of (mi_legacy x) (mi_rex x) start_prefix"

lemma bit_field_1: "(drop_bit n (b :: byte) AND 1) = (if bit b n then 1 else 0)"
  by (simp add: bit_iff_odd_drop_bit and_one_eq odd_iff_mod_2_eq_one)

lemma mov_pf_fields:
  "rexW (mov_pf x) = (if mi_W x then 1 else 0)" "rexR (mov_pf x) = (if mi_R x then 1 else 0)"
  "osz16 (mov_pf x) = (0x66 \<in> set (mi_legacy x))"
  by (auto simp: mov_pf_def pf_of_def start_prefix_def mi_W_def mi_R_def bit_field_1 Let_def split: option.split)

lemma opcode_not_prefix: "opcode_bytes k = b # bs \<Longrightarrow> not_prefix b"
  by (cases k) (auto simp: opcode_bytes_def not_prefix_def ignored_prefix_def)

definition mov_bare :: "mov_insn \<Rightarrow> MMIOOp" where
  "mov_bare x = mov_meaning x \<lparr> Imm := 0, Reg := -1, Length := 0 \<rparr>"

lemma decode_opcode_encoded:
  assumes "opcode_bytes (mi_kind x) = b # bs" "\<not> size_conflict x" "ins = pre @ opcode_bytes (mi_kind x) @ rest"
  shows "decode_opcode (mov_pf x) ins b (Suc (length pre))
    = Inr (mov_bare x, length pre + length (opcode_bytes (mi_kind x)))"
  using assms
  by (cases "mi_kind x")
    (auto simp: decode_opcode_def opcode_bytes_def mov_bare_def mov_meaning_def zero_op_def mov_width_def
      mov_pf_fields size_conflict_def Let_def nth_append)

lemma mod_field_cases:
  "drop_bit 6 (m :: byte) = 0 \<or> drop_bit 6 m = 1 \<or> drop_bit 6 m = 2 \<or> drop_bit 6 m = 3"
proof -
  have "unat (drop_bit 6 m) = unat m div 64" by (simp add: drop_bit_eq_div unat_div)
  then have "unat (drop_bit 6 m) < 4" using unat_less_2p [of m] by simp
  then have "unat (drop_bit 6 m) \<in> {0, 1, 2, 3}" by auto
  then show ?thesis by (auto simp: word_unat_eq_iff)
qed

lemma decode_modrm_encoded:
  assumes "wf_mov x" "opcode_bytes (mi_kind x) = b # bs"
    and "ins = pre @ mi_modrm x # (case mi_sib x of None \<Rightarrow> [] | Some s \<Rightarrow> [s]) @ mi_disp x @ rest"
  shows "decode_modrm (mov_pf x) ins b (length pre)
    = Inr (unat (drop_bit 3 (mi_modrm x) AND 7) + (if mi_R x then 8 else 0),
           length pre + 1 + (case mi_sib x of None \<Rightarrow> 0 | Some _ \<Rightarrow> 1) + length (mi_disp x))"
proof -
  let ?m = "mi_modrm x"
  have m: "ins ! length pre = ?m" using assms(3) by simp
  have imm: "(b = 0xc6 \<or> b = 0xc7) \<Longrightarrow> drop_bit 3 ?m AND 7 = 0"
    using assms(1,2) by (cases "mi_kind x") (auto simp: wf_mov_def opcode_bytes_def)
  have sib: "mi_sib x = Some s \<Longrightarrow> ins ! Suc (length pre) = s" for s
    using assms(3) by (simp add: nth_append)
  have wf: "drop_bit 6 ?m \<noteq> 3" "(mi_sib x \<noteq> None) = (?m AND 7 = 4)"
    "length (mi_disp x) = disp_size ?m (mi_sib x)" using assms(1) by (simp_all add: wf_mov_def)
  have len: "length ins = length pre + 1 + (case mi_sib x of None \<Rightarrow> 0 | Some _ \<Rightarrow> 1) + length (mi_disp x) + length rest"
    using assms(3) by (simp split: option.split)
  have md: "drop_bit 6 ?m = 0 \<or> drop_bit 6 ?m = 1 \<or> drop_bit 6 ?m = 2"
    using mod_field_cases [of ?m] wf(1) by blast
  show ?thesis
    using wf md len sib imm
    by (cases "mi_sib x") (auto simp: decode_modrm_def m Let_def disp_size_def mov_pf_fields)
qed

lemma sign_extend_32:
  fixes v :: u32
  shows "(scast v :: u64) = (if bit v 31 then ucast v OR push_bit 32 (mask 32) else ucast v)"
proof (rule bit_word_eqI)
  fix n
  assume "n < LENGTH(64)"
  then have s: "n < 31 \<or> n = 31 \<or> 32 \<le> n" and n: "n < 64" by auto
  have b: "bit (scast v :: u64) n \<longleftrightarrow> (if n < 31 then bit v n else bit v 31)"
    using n by (auto simp: bit_simps min_def)
  have z: "32 \<le> n \<Longrightarrow> \<not> bit v n" using bit_imp_le_length [of v n] by auto
  show "bit (scast v :: u64) n = bit (if bit v 31 then ucast v OR push_bit 32 (mask 32) else ucast v :: u64) n"
    unfolding b using s n z by (elim disjE) (auto simp: bit_or_iff bit_ucast_iff bit_push_bit_iff bit_mask_iff)
qed

lemma imm_value_sign_extend:
  assumes "length bs = min 4 w" "w = 8 \<Longrightarrow> b = 0xc7"
  shows "imm_value b w bs = sign_extend_imm w bs"
proof (cases "w = 8")
  case True
  then have b: "b = 0xc7" and n: "get_le bs < 2 ^ 32"
    using assms get_le_less [of bs] by simp_all
  let ?v = "of_nat (get_le bs) :: 32 word"
  have u: "of_nat (get_le bs) = (ucast ?v :: u64)"
    using n by (simp add: word_unat_eq_iff unat_of_nat)
  have m: "0x80000000 = (push_bit 31 1 :: u64)" "0xffffffff00000000 = push_bit 32 (mask 32 :: u64)"
    by (simp_all add: mask_eq_exp_minus_1 push_bit_eq_mult)
  have "(ucast ?v :: u64) AND push_bit 31 1 \<noteq> 0 \<longleftrightarrow> bit ?v 31"
    unfolding bit_iff_and_push_bit_not_eq_0 [symmetric] by (simp add: bit_simps)
  then show ?thesis
    unfolding imm_value_def sign_extend_imm_def Let_def u m sign_extend_32 using True b by simp
qed (simp add: imm_value_def sign_extend_imm_def)

lemma decode_operand_encoded:
  assumes "wf_mov x" "opcode_bytes (mi_kind x) = b # bs" "ins = pre @ mi_imm x @ rest"
    and "length (encode_mov x) = length pre + length (mi_imm x)"
    and "r = unat (drop_bit 3 (mi_modrm x) AND 7) + (if mi_R x then 8 else 0)"
  shows "decode_operand ins b (mov_bare x) r (length pre) = Inr (mov_meaning x)"
proof (cases "mi_kind x \<in> {StoreImm8, StoreImm}")
  case True
  then have l: "length (mi_imm x) = min 4 (mov_width x)" using assms(1) by (simp add: wf_mov_def)
  have w: "mov_width x \<in> {1, 2, 4, 8}" "mov_width x = 8 \<Longrightarrow> b = 0xc7"
    using True assms(2) by (auto simp: mov_width_def opcode_bytes_def split: if_splits)
  then have n: "(if mov_width x = 8 then 4 else mov_width x) = length (mi_imm x)" using l by auto
  have f: "Width (mov_bare x) = mov_width x" "ImmOK (mov_bare x)"
    using True by (simp_all add: mov_bare_def mov_meaning_def Let_def)
  have v: "imm_value b (mov_width x) (mi_imm x) = sign_extend_imm (mov_width x) (mi_imm x)"
    using l w(2) by (rule imm_value_sign_extend)
  have "decode_operand ins b (mov_bare x) r (length pre)
      = Inr (mov_bare x \<lparr> Imm := sign_extend_imm (mov_width x) (mi_imm x), Length := length (encode_mov x) \<rparr>)"
    by (simp only: decode_operand_def f if_True n Let_def) (simp add: assms(3,4) v)
  then show ?thesis using True by (simp add: mov_bare_def mov_meaning_def Let_def)
next
  case False
  moreover have "mi_imm x = []" using False assms(1) by (simp add: wf_mov_def)
  ultimately show ?thesis using assms(4,5)
    by (simp add: decode_operand_def mov_bare_def mov_meaning_def Let_def)
qed


text \<open>\<open>mov qword ptr [rsp + 8], -2\<close> with trailing bytes.\<close>

definition store_example :: mov_insn where
  "store_example = \<lparr> mi_legacy = [0x66], mi_rex = Some 0x48, mi_kind = StoreImm, mi_modrm = 0x44,
     mi_sib = Some 0x24, mi_disp = [8], mi_imm = [0xfe, 0xff, 0xff, 0xff] \<rparr>"


section \<open>Departures from the architecture\<close>

text \<open>A register store with \<open>0x66\<close> and REX.W is decoded as two bytes wide.\<close>

lemma decode_66_rexw_store:
  "DecodeMMIO [0x66, 0x48, 0x89, 0x07] = Inr (zero_op \<lparr> IsWrite := True, Width := 2, Reg := 0, Length := 4 \<rparr>)"
  by (simp add: DecodeMMIO_def decode_opcode_def decode_modrm_def decode_operand_def ignored_prefix_def zero_op_def)

text \<open>A sign-extending load into a 32-bit register sets the upper half of the register, and a byte load
  replaces the whole register.\<close>

lemma apply_movsx_32: 
  "ApplyMMIO (zero_op \<lparr> Width := 1, SignExt := True, Reg := 0 \<rparr>) g (\<lambda>_. 0x80) = SetReg 0 0xffffffffffffff80"
  by (simp add: ApplyMMIO_def zero_op_def signed_ucast_eq)

lemma apply_byte_load:
  "ApplyMMIO (zero_op \<lparr> Width := 1, Reg := 0 \<rparr>) g (\<lambda>_. 0x12) = SetReg 0 0x12"
  by (simp add: ApplyMMIO_def zero_op_def)

end
