(* ===== verification/Lifecycle_Owners.thy ===== *)
theory Lifecycle_Owners
  imports Gantry_Prelude
begin

text \<open>
  The small state owners that decide who releases a resource: \<open>sharefs/lifecycle\<close>,
  \<open>sharefs/coherencestate\<close>, \<open>sharefs/preparedstate\<close>, \<open>sharefs/exportstate\<close>, and the lifecycle and the
  background group of \<open>sandbox/supervisor\<close>.  Each method that holds the owner's lock is one step;
  compare-and-swap loops also have a step for one attempt with an arbitrary loaded value, which covers every
  interleaving of loads and swaps.  A receiver is an option, \<open>None\<close> the nil pointer.  The interface
  \<open>close_leader\<close> is what their callers rely on.
\<close>

section \<open>Outcomes of a step\<close>

text \<open>What a caller learns: it leads the shutdown, it joins another's shutdown, it has published the
  terminal phase, it has passed the resource on for good, or none of these.\<close>

datatype outcome = Leader | Follower | Released | Transferred | Other

text \<open>A channel that is only ever closed.\<close>

datatype done_chan = NoChan | OpenChan | ClosedChan

text \<open>\<open>close(ch)\<close>: \<open>None\<close> is the panic on a nil or closed channel.\<close>

definition close_chan :: "done_chan \<Rightarrow> done_chan option" where
  "close_chan ch = (if ch = OpenChan then Some ClosedChan else None)"

definition make_if_nil :: "done_chan \<Rightarrow> done_chan" where
  "make_if_nil ch = (if ch = NoChan then OpenChan else ch)"

text \<open>A run of steps with the outcomes in order; \<open>None\<close> is a panic.\<close>

fun run_owner :: "('e \<Rightarrow> 's \<Rightarrow> ('s \<times> outcome) option) \<Rightarrow> 'e list \<Rightarrow> 's \<Rightarrow> ('s \<times> outcome list) option" where
  "run_owner stp [] s = Some (s, [])"
| "run_owner stp (e # es) s = (case stp e s of
     None \<Rightarrow> None
   | Some (s1, out1) \<Rightarrow> map_option (\<lambda>(s2, outs). (s2, out1 # outs)) (run_owner stp es s1))"

text \<open>At most one caller ends the live phase, as leader or by passing the resource on, and a release is
  published at most as often as there was a leader.\<close>

definition single_release :: "outcome list \<Rightarrow> bool" where
  "single_release outs \<longleftrightarrow> count_list outs Leader + count_list outs Transferred \<le> 1
     \<and> count_list outs Released \<le> count_list outs Leader"

section \<open>The interface of a closable owner\<close>

text \<open>\<open>rank\<close> is 0 while the owner is live, 1 while a leader is shutting down, 2 at the end.\<close>

locale close_leader =
  fixes stp :: "'e \<Rightarrow> 's \<Rightarrow> ('s \<times> outcome) option"
    and ok :: "'s \<Rightarrow> bool"
    and rank :: "'s \<Rightarrow> nat"
  assumes total: "ok s \<Longrightarrow> \<exists>s' outc. stp e s = Some (s', outc) \<and> ok s'"
    and rank_mono: "ok s \<Longrightarrow> stp e s = Some (s', outc) \<Longrightarrow> rank s \<le> rank s'"
    and leader_rank: "ok s \<Longrightarrow> stp e s = Some (s', Leader) \<Longrightarrow> rank s = 0 \<and> rank s' = 1"
    and released_rank: "ok s \<Longrightarrow> stp e s = Some (s', Released) \<Longrightarrow> rank s = 1 \<and> rank s' = 2"
    and transferred_rank: "ok s \<Longrightarrow> stp e s = Some (s', Transferred) \<Longrightarrow> rank s = 0 \<and> rank s' = 2"
    and rank_steps: "ok s \<Longrightarrow> stp e s = Some (s', outc) \<Longrightarrow> rank s < rank s' \<Longrightarrow> outc \<in> {Leader, Released, Transferred}"
begin

lemma run_total: "ok s \<Longrightarrow> \<exists>s' outs. run_owner stp es s = Some (s', outs) \<and> ok s'"
proof (induct es arbitrary: s)
  case (Cons e es)
  obtain s1 o1 where s1: "stp e s = Some (s1, o1)" "ok s1" using total [OF Cons.prems] by blast
  then show ?case using Cons.hyps [OF s1(2)] by auto
qed simp

definition budget :: "nat \<Rightarrow> outcome list \<Rightarrow> bool" where
  "budget r outs \<longleftrightarrow>
     count_list outs Leader + count_list outs Transferred \<le> (if r = 0 then 1 else 0)
   \<and> count_list outs Released \<le> count_list outs Leader + (if r = 1 then 1 else 0)"

lemma run_budget: "ok s \<Longrightarrow> run_owner stp es s = Some (s', outs) \<Longrightarrow> budget (rank s) outs"
proof (induct es arbitrary: s outs)
  case Nil
  then show ?case by (simp add: budget_def)
next
  case (Cons e es)
  obtain s1 o1 where s1: "stp e s = Some (s1, o1)" "ok s1" using total [OF Cons.prems(1)] by blast
  obtain outs1 where r: "run_owner stp es s1 = Some (s', outs1)" "outs = o1 # outs1"
    using Cons.prems(2) s1(1) by auto
  have b: "budget (rank s1) outs1" using Cons.hyps [OF s1(2) r(1)] .
  have same: "o1 \<notin> {Leader, Released, Transferred} \<Longrightarrow> rank s1 = rank s"
    using rank_mono [OF Cons.prems(1) s1(1)] rank_steps [OF Cons.prems(1) s1(1)] by force
  show ?case
    using b same s1(1) r(2) leader_rank [OF Cons.prems(1)] released_rank [OF Cons.prems(1)]
      transferred_rank [OF Cons.prems(1)]
    by (cases o1) (auto simp: budget_def split: if_splits)
qed

text \<open>One leader at most, one release at most and only after a leader, and never both a leader and a
  transfer.\<close>

lemma run_one_leader:
  assumes "ok s" "rank s = 0"
  shows "\<exists>s' outs. run_owner stp es s = Some (s', outs) \<and> single_release outs \<and> ok s'"
proof -
  obtain s' outs where r: "run_owner stp es s = Some (s', outs)" "ok s'" using run_total [OF assms(1)] by blast
  from run_budget [OF assms(1) r(1)] show ?thesis using r assms(2) by (auto simp: budget_def single_release_def)
qed

end

section \<open>The serving lifetime of a share endpoint\<close>

datatype life_phase = Active | Stopping | Closed

record LifeOwner =
  life_phase :: life_phase
  life_done :: done_chan

definition life_zero :: LifeOwner where
  "life_zero = \<lparr> life_phase = Active, life_done = NoChan \<rparr>"

definition life_Phase :: "LifeOwner option \<Rightarrow> life_phase" where
  "life_Phase owner = (case owner of None \<Rightarrow> Closed | Some w \<Rightarrow> life_phase w)"

definition life_BeginClose :: "LifeOwner \<Rightarrow> LifeOwner \<times> bool" where
  "life_BeginClose w =
    (let w = w \<lparr> life_done := make_if_nil (life_done w) \<rparr> in
     case life_phase w of
       Active \<Rightarrow> (w \<lparr> life_phase := Stopping \<rparr>, True)
     | Stopping \<Rightarrow> (w, False)
     | Closed \<Rightarrow> (w, False))"

definition life_FinishClose :: "LifeOwner \<Rightarrow> (LifeOwner \<times> bool) option" where
  "life_FinishClose w =
    (if life_phase w \<noteq> Stopping then Some (w, False)
     else map_option (\<lambda>ch. (w \<lparr> life_phase := Closed, life_done := ch \<rparr>, True)) (close_chan (life_done w)))"

datatype close_event = BeginCloseCall | FinishCloseCall

definition life_step :: "close_event \<Rightarrow> LifeOwner \<Rightarrow> (LifeOwner \<times> outcome) option" where
  "life_step e w = (case e of
     BeginCloseCall \<Rightarrow> (case life_BeginClose w of (w', leads) \<Rightarrow> Some (w', if leads then Leader else Follower))
   | FinishCloseCall \<Rightarrow> map_option (\<lambda>(w', fin). (w', if fin then Released else Other)) (life_FinishClose w))"

definition life_ok :: "LifeOwner \<Rightarrow> bool" where
  "life_ok w \<longleftrightarrow> (case life_phase w of Active \<Rightarrow> life_done w = NoChan
     | Stopping \<Rightarrow> life_done w = OpenChan | Closed \<Rightarrow> life_done w = ClosedChan)"

definition life_rank :: "LifeOwner \<Rightarrow> nat" where
  "life_rank w = (case life_phase w of Active \<Rightarrow> 0 | Stopping \<Rightarrow> 1 | Closed \<Rightarrow> 2)"

lemmas life_defs = life_step_def life_BeginClose_def life_FinishClose_def life_ok_def life_rank_def
  close_chan_def make_if_nil_def Let_def

interpretation life: close_leader life_step life_ok life_rank
  by unfold_locales
    (auto simp: life_defs split: close_event.splits life_phase.splits if_splits)

section \<open>The cache-coherence watcher\<close>

datatype coh_phase = Initializing | Healthy | Degraded | Closing | Closed

record CohOwner =
  coh_phase :: coh_phase
  coh_done :: done_chan

definition coh_zero :: CohOwner where
  "coh_zero = \<lparr> coh_phase = Initializing, coh_done = NoChan \<rparr>"

definition coh_Phase :: "CohOwner option \<Rightarrow> coh_phase" where
  "coh_Phase owner = (case owner of None \<Rightarrow> coh_phase.Closed | Some w \<Rightarrow> coh_phase w)"

definition coh_Healthy :: "CohOwner option \<Rightarrow> bool" where
  "coh_Healthy owner \<longleftrightarrow> coh_Phase owner = Healthy"

text \<open>\<open>CompareAndSwap\<close> on the phase.\<close>

definition coh_cas :: "coh_phase \<Rightarrow> coh_phase \<Rightarrow> CohOwner \<Rightarrow> CohOwner \<times> bool" where
  "coh_cas old new w = (if coh_phase w = old then (w \<lparr> coh_phase := new \<rparr>, True) else (w, False))"

definition coh_Activate :: "CohOwner \<Rightarrow> CohOwner \<times> bool" where
  "coh_Activate w = coh_cas Initializing Healthy w"

text \<open>One turn of the loop of \<open>Degrade\<close>, on the value it loaded: an answer, or \<open>None\<close> to turn again.\<close>

definition coh_Degrade_turn :: "coh_phase \<Rightarrow> CohOwner \<Rightarrow> CohOwner \<times> bool option" where
  "coh_Degrade_turn cur w =
    (case cur of
       Initializing \<Rightarrow> (case coh_cas cur Degraded w of (w', ok) \<Rightarrow> (w', if ok then Some True else None))
     | Healthy \<Rightarrow> (case coh_cas cur Degraded w of (w', ok) \<Rightarrow> (w', if ok then Some True else None))
     | _ \<Rightarrow> (w, Some False))"

text \<open>One turn of the loop of \<open>BeginClose\<close>, under \<open>closeMu\<close>.\<close>

definition coh_BeginClose_turn :: "coh_phase \<Rightarrow> CohOwner \<Rightarrow> CohOwner \<times> bool option" where
  "coh_BeginClose_turn cur w =
    (let w = w \<lparr> coh_done := make_if_nil (coh_done w) \<rparr>;
         attempt = (case coh_cas cur Closing w of (w', ok) \<Rightarrow> (w', if ok then Some True else None))
     in case cur of Initializing \<Rightarrow> attempt | Healthy \<Rightarrow> attempt | Degraded \<Rightarrow> attempt
        | Closing \<Rightarrow> (w, Some False) | coh_phase.Closed \<Rightarrow> (w, Some False))"

definition coh_FinishClose :: "CohOwner \<Rightarrow> (CohOwner \<times> bool) option" where
  "coh_FinishClose w =
    (if coh_phase w \<noteq> Closing then Some (w, False)
     else map_option (\<lambda>ch. (w \<lparr> coh_phase := coh_phase.Closed, coh_done := ch \<rparr>, True)) (close_chan (coh_done w)))"

text \<open>The loaded value of a turn may be stale.\<close>

datatype coh_event = CohActivate | CohDegrade coh_phase | CohBeginClose coh_phase | CohFinishClose

definition coh_step :: "coh_event \<Rightarrow> CohOwner \<Rightarrow> (CohOwner \<times> outcome) option" where
  "coh_step e w = (case e of
     CohActivate \<Rightarrow> Some (fst (coh_Activate w), Other)
   | CohDegrade cur \<Rightarrow> Some (fst (coh_Degrade_turn cur w), Other)
   | CohBeginClose cur \<Rightarrow> (case coh_BeginClose_turn cur w of (w', res) \<Rightarrow>
       Some (w', if res = Some True then Leader else if res = Some False then Follower else Other))
   | CohFinishClose \<Rightarrow> map_option (\<lambda>(w', fin). (w', if fin then Released else Other)) (coh_FinishClose w))"

definition coh_rank :: "CohOwner \<Rightarrow> nat" where
  "coh_rank w = (case coh_phase w of Closing \<Rightarrow> 1 | coh_phase.Closed \<Rightarrow> 2 | _ \<Rightarrow> 0)"

definition coh_ok :: "CohOwner \<Rightarrow> bool" where
  "coh_ok w \<longleftrightarrow> (case coh_phase w of Closing \<Rightarrow> coh_done w = OpenChan
     | coh_phase.Closed \<Rightarrow> coh_done w = ClosedChan | _ \<Rightarrow> coh_done w \<noteq> ClosedChan)"

lemmas coh_defs = coh_step_def coh_Activate_def coh_Degrade_turn_def coh_BeginClose_turn_def coh_FinishClose_def
  coh_cas_def coh_ok_def coh_rank_def close_chan_def make_if_nil_def Let_def

interpretation coh: close_leader coh_step coh_ok coh_rank
proof unfold_locales
  fix s e
  assume "coh_ok s"
  then show "\<exists>s' outc. coh_step e s = Some (s', outc) \<and> coh_ok s'"
    by (cases e; cases "coh_done s") (auto simp: coh_defs split: coh_phase.splits if_splits)
qed (auto simp: coh_defs split: coh_event.splits coh_phase.splits if_splits prod.splits)

text \<open>Once degraded the watcher is never healthy again.\<close>

lemma coh_degraded_stays:
  "coh_step e w = Some (w', outc) \<Longrightarrow> coh_phase w \<notin> {Initializing, Healthy} \<Longrightarrow>
    coh_phase w' \<notin> {Initializing, Healthy}"
  by (auto simp: coh_defs split: coh_event.splits coh_phase.splits if_splits)

section \<open>A prepared share\<close>

datatype prep_phase = Prepared | InUse | Closing | Consumed | Closed

record PrepOwner =
  prep_phase :: prep_phase
  generation :: u64
  prep_done :: done_chan

definition prep_zero :: PrepOwner where
  "prep_zero = \<lparr> prep_phase = Prepared, generation = 0, prep_done = NoChan \<rparr>"

definition prep_Phase :: "PrepOwner option \<Rightarrow> prep_phase" where
  "prep_Phase owner = (case owner of None \<Rightarrow> prep_phase.Closed | Some w \<Rightarrow> prep_phase w)"

text \<open>A call that waits while an attempt is in use gives \<open>Inl\<close>.\<close>

definition Acquire :: "PrepOwner \<Rightarrow> unit + PrepOwner \<times> u64 option" where
  "Acquire w =
    (if prep_phase w = InUse then Inl ()
     else if prep_phase w \<noteq> Prepared then Inr (w, None)
     else let g = generation w + 1 in Inr (w \<lparr> generation := g, prep_phase := InUse \<rparr>, Some g))"

definition closeDoneLocked :: "PrepOwner \<Rightarrow> PrepOwner" where
  "closeDoneLocked w = w \<lparr> prep_done := ClosedChan \<rparr>"

definition Complete :: "u64 \<Rightarrow> bool \<Rightarrow> PrepOwner \<Rightarrow> PrepOwner \<times> bool" where
  "Complete lease consumed w =
    (if prep_phase w \<noteq> InUse \<or> lease = 0 \<or> lease \<noteq> generation w then (w, False)
     else if consumed then (closeDoneLocked (w \<lparr> prep_phase := Consumed \<rparr>), True)
     else (w \<lparr> prep_phase := Prepared \<rparr>, True))"

definition prep_BeginClose :: "PrepOwner \<Rightarrow> unit + PrepOwner \<times> bool" where
  "prep_BeginClose w =
    (if prep_phase w = InUse then Inl ()
     else
       let w = w \<lparr> prep_done := make_if_nil (prep_done w) \<rparr> in
       case prep_phase w of
         Prepared \<Rightarrow> Inr (w \<lparr> prep_phase := prep_phase.Closing \<rparr>, True)
       | Consumed \<Rightarrow> Inr (closeDoneLocked w, False)
       | _ \<Rightarrow> Inr (w, False))"

definition prep_FinishClose :: "PrepOwner \<Rightarrow> PrepOwner \<times> bool" where
  "prep_FinishClose w =
    (if prep_phase w \<noteq> prep_phase.Closing then (w, False)
     else (closeDoneLocked (w \<lparr> prep_phase := prep_phase.Closed \<rparr>), True))"

datatype prep_event = PrepAcquire | PrepComplete u64 bool | PrepBeginClose | PrepFinishClose

definition prep_step :: "prep_event \<Rightarrow> PrepOwner \<Rightarrow> (PrepOwner \<times> outcome) option" where
  "prep_step e w = Some (case e of
     PrepAcquire \<Rightarrow> (case Acquire w of Inl _ \<Rightarrow> (w, Other) | Inr (w', _) \<Rightarrow> (w', Other))
   | PrepComplete lease consumed \<Rightarrow> (case Complete lease consumed w of (w', ok) \<Rightarrow>
       (w', if ok \<and> consumed then Transferred else Other))
   | PrepBeginClose \<Rightarrow> (case prep_BeginClose w of
       Inl _ \<Rightarrow> (w, Other) | Inr (w', leads) \<Rightarrow> (w', if leads then Leader else Follower))
   | PrepFinishClose \<Rightarrow> (case prep_FinishClose w of (w', fin) \<Rightarrow> (w', if fin then Released else Other)))"

definition prep_rank :: "PrepOwner \<Rightarrow> nat" where
  "prep_rank w = (case prep_phase w of prep_phase.Closing \<Rightarrow> 1 | prep_phase.Closed \<Rightarrow> 2 | Consumed \<Rightarrow> 2 | _ \<Rightarrow> 0)"

lemmas prep_defs = prep_step_def Acquire_def Complete_def prep_BeginClose_def prep_FinishClose_def
  closeDoneLocked_def prep_rank_def Let_def

interpretation prep: close_leader prep_step "\<lambda>_. True" prep_rank
proof unfold_locales
  fix s e
  show "\<exists>s' outc. prep_step e s = Some (s', outc) \<and> True" by (simp add: prep_step_def)
qed (auto simp: prep_defs split: prep_event.splits prep_phase.splits if_splits)

text \<open>A lease that is not the latest is refused, so a finished attempt cannot complete a later one.\<close>

lemma stale_lease: "lease \<noteq> generation w \<Longrightarrow> Complete lease consumed w = (w, False)"
  by (simp add: Complete_def)

section \<open>One export\<close>

datatype export_phase = Active | Draining | Revoked | Gone

definition export_String :: "export_phase \<Rightarrow> string" where
  "export_String p = (case p of export_phase.Active \<Rightarrow> ''active'' | Draining \<Rightarrow> ''draining'' | Revoked \<Rightarrow> ''revoked''
     | Gone \<Rightarrow> ''gone'')"

definition ValidTransition :: "export_phase \<Rightarrow> export_phase \<Rightarrow> bool" where
  "ValidTransition current nxt = (case current of
     export_phase.Active \<Rightarrow> nxt = Draining \<or> nxt = Revoked
   | Draining \<Rightarrow> nxt = Revoked
   | Revoked \<Rightarrow> nxt = Gone
   | Gone \<Rightarrow> False)"

definition export_Phase :: "export_phase option \<Rightarrow> export_phase" where
  "export_Phase owner = (case owner of None \<Rightarrow> Gone | Some p \<Rightarrow> p)"

text \<open>One turn of the loop of \<open>Transition\<close> with the phase it loaded; \<open>None\<close> is a failed swap, which turns
  again.\<close>

definition export_turn :: "export_phase \<Rightarrow> export_phase \<Rightarrow> export_phase \<Rightarrow> export_phase \<times> bool option" where
  "export_turn current nxt p =
    (if current = nxt then (p, Some True)
     else if \<not> ValidTransition current nxt then (p, Some False)
     else if p = current then (nxt, Some True) else (p, None))"

definition Transition :: "export_phase \<Rightarrow> export_phase option \<Rightarrow> export_phase option \<times> bool" where
  "Transition nxt owner = (case owner of
     None \<Rightarrow> (None, False)
   | Some p \<Rightarrow> (case export_turn p nxt p of (p', res) \<Rightarrow> (Some p', res = Some True)))"

definition export_rank :: "export_phase \<Rightarrow> nat" where
  "export_rank p = (case p of export_phase.Active \<Rightarrow> 0 | Draining \<Rightarrow> 1 | Revoked \<Rightarrow> 2 | Gone \<Rightarrow> 3)"

text \<open>However stale the loaded phase, an export never goes back, and it is released (gone) only from
  revoked.\<close>

lemma export_monotone:
  "export_turn cur nxt p = (p', res) \<Longrightarrow> export_rank p \<le> export_rank p' \<and> (p' = Gone \<and> p \<noteq> Gone \<longrightarrow> p = Revoked)"
  by (auto simp: export_turn_def ValidTransition_def export_rank_def split: if_splits export_phase.splits)

section \<open>The supervisor of a sandbox\<close>

datatype sup_phase =
  New | Loaded | HostReady | GuestPrepared | GuestConnected | ControlReady | Ready | Stopping | Stopped | Failed

definition sup_String :: "sup_phase \<Rightarrow> string" where
  "sup_String p = (case p of New \<Rightarrow> ''new'' | Loaded \<Rightarrow> ''loaded'' | HostReady \<Rightarrow> ''host-ready''
     | GuestPrepared \<Rightarrow> ''guest-prepared'' | GuestConnected \<Rightarrow> ''guest-connected'' | ControlReady \<Rightarrow> ''control-ready''
     | Ready \<Rightarrow> ''ready'' | sup_phase.Stopping \<Rightarrow> ''stopping'' | Stopped \<Rightarrow> ''stopped'' | Failed \<Rightarrow> ''failed'')"

definition validAdvance :: "sup_phase \<Rightarrow> sup_phase \<Rightarrow> bool" where
  "validAdvance current nxt = (case current of
     New \<Rightarrow> nxt = Loaded
   | Loaded \<Rightarrow> nxt = HostReady
   | HostReady \<Rightarrow> nxt = GuestPrepared
   | GuestPrepared \<Rightarrow> nxt = GuestConnected
   | GuestConnected \<Rightarrow> nxt = ControlReady
   | ControlReady \<Rightarrow> nxt = Ready
   | _ \<Rightarrow> False)"

definition Advance :: "sup_phase \<Rightarrow> sup_phase \<Rightarrow> sup_phase \<times> bool" where
  "Advance nxt p = (if \<not> validAdvance p nxt then (p, False) else (nxt, True))"

definition BeginStop :: "sup_phase \<Rightarrow> sup_phase \<times> bool" where
  "BeginStop p = (if p \<in> {New, Loaded, HostReady, GuestPrepared, GuestConnected, ControlReady, Ready}
     then (sup_phase.Stopping, True) else (p, False))"

definition Finish :: "bool \<Rightarrow> sup_phase \<Rightarrow> sup_phase \<times> bool" where
  "Finish failed p = (if p \<noteq> sup_phase.Stopping then (p, False) else (if failed then Failed else Stopped, True))"

datatype sup_event = SupAdvance sup_phase | SupBeginStop | SupFinish bool

definition sup_step :: "sup_event \<Rightarrow> sup_phase \<Rightarrow> (sup_phase \<times> outcome) option" where
  "sup_step e p = Some (case e of
     SupAdvance nxt \<Rightarrow> (fst (Advance nxt p), Other)
   | SupBeginStop \<Rightarrow> (case BeginStop p of (p', leads) \<Rightarrow> (p', if leads then Leader else Follower))
   | SupFinish failed \<Rightarrow> (case Finish failed p of (p', fin) \<Rightarrow> (p', if fin then Released else Other)))"

definition sup_rank :: "sup_phase \<Rightarrow> nat" where
  "sup_rank p = (case p of sup_phase.Stopping \<Rightarrow> 1 | Stopped \<Rightarrow> 2 | Failed \<Rightarrow> 2 | _ \<Rightarrow> 0)"

interpretation sup: close_leader sup_step "\<lambda>_. True" sup_rank
proof unfold_locales
  fix s e
  show "\<exists>s' outc. sup_step e s = Some (s', outc) \<and> True" by (simp add: sup_step_def)
qed (auto simp: sup_step_def Advance_def validAdvance_def BeginStop_def Finish_def sup_rank_def
    split: sup_event.splits sup_phase.splits if_splits)

text \<open>A supervisor that is ready went through every boot phase in order.\<close>

definition boot_order :: "sup_phase list" where
  "boot_order = [New, Loaded, HostReady, GuestPrepared, GuestConnected, ControlReady, Ready]"

lemma Advance_next:
  "Advance nxt p = (p', True) \<Longrightarrow> \<exists>i. Suc i < length boot_order \<and> boot_order ! i = p \<and> boot_order ! Suc i = p'"
  by (cases p) (auto simp: Advance_def validAdvance_def boot_order_def nth_Cons split: if_splits nat.splits
      intro: exI [of _ 0] exI [of _ 1] exI [of _ 2] exI [of _ 3] exI [of _ 4] exI [of _ 5])

section \<open>A group of background tasks\<close>

datatype backgroundPhase = backgroundOpen | backgroundClosing | backgroundClosed

text \<open>\<open>bg_tasks\<close> is the count of the wait group and \<open>bg_cancelled\<close> says that the context is cancelled.\<close>

record BackgroundGroup =
  bg_phase :: backgroundPhase
  bg_ctx :: bool
  bg_tasks :: nat
  bg_cancelled :: bool
  bg_closed :: done_chan

definition bg_zero :: BackgroundGroup where
  "bg_zero = \<lparr> bg_phase = backgroundOpen, bg_ctx = False, bg_tasks = 0, bg_cancelled = False, bg_closed = NoChan \<rparr>"

definition bg_Acquire :: "BackgroundGroup \<Rightarrow> BackgroundGroup \<times> bool" where
  "bg_Acquire g =
    (if bg_phase g \<noteq> backgroundOpen then (g, False)
     else
       let g = (if \<not> bg_ctx g then g \<lparr> bg_ctx := True, bg_closed := OpenChan \<rparr> else g)
       in (g \<lparr> bg_tasks := Suc (bg_tasks g) \<rparr>, True))"

text \<open>The release function of an admitted task: \<open>None\<close> is the panic of a negative counter.\<close>

definition bg_Done :: "BackgroundGroup \<Rightarrow> BackgroundGroup option" where
  "bg_Done g = (if bg_tasks g = 0 then None else Some (g \<lparr> bg_tasks := bg_tasks g - 1 \<rparr>))"

text \<open>\<open>Close\<close> up to its wait: the first caller closes admission and cancels.\<close>

definition bg_Close_begin :: "BackgroundGroup \<Rightarrow> BackgroundGroup \<times> bool" where
  "bg_Close_begin g = (case bg_phase g of
     backgroundClosed \<Rightarrow> (g, False)
   | backgroundClosing \<Rightarrow> (g, False)
   | backgroundOpen \<Rightarrow>
       (g \<lparr> bg_phase := backgroundClosing, bg_closed := make_if_nil (bg_closed g), bg_cancelled := bg_ctx g \<rparr>, True))"

text \<open>The end of \<open>Close\<close> by its first caller, which waits for the tasks; \<open>None\<close> is the panic of a second close.\<close>

definition bg_Close_end :: "BackgroundGroup \<Rightarrow> (BackgroundGroup \<times> bool) option" where
  "bg_Close_end g =
    (if bg_tasks g \<noteq> 0 then Some (g, False)
     else if bg_phase g = backgroundClosed then Some (g, False)
     else map_option (\<lambda>ch. (g \<lparr> bg_phase := backgroundClosed, bg_closed := ch \<rparr>, True)) (close_chan (bg_closed g)))"

datatype bg_event = BgAcquire | BgDone | BgCloseBegin | BgCloseEnd

text \<open>A task releases only when one is running, and the end of \<open>Close\<close> follows its beginning.\<close>

definition bg_step :: "bg_event \<Rightarrow> BackgroundGroup \<Rightarrow> (BackgroundGroup \<times> outcome) option" where
  "bg_step e g = (case e of
     BgAcquire \<Rightarrow> Some (fst (bg_Acquire g), Other)
   | BgDone \<Rightarrow> if bg_tasks g = 0 then Some (g, Other) else map_option (\<lambda>g'. (g', Other)) (bg_Done g)
   | BgCloseBegin \<Rightarrow> (case bg_Close_begin g of (g', leads) \<Rightarrow> Some (g', if leads then Leader else Follower))
   | BgCloseEnd \<Rightarrow> if bg_phase g = backgroundOpen then Some (g, Other)
       else map_option (\<lambda>(g', fin). (g', if fin then Released else Other)) (bg_Close_end g))"

definition bg_ok :: "BackgroundGroup \<Rightarrow> bool" where
  "bg_ok g \<longleftrightarrow> (bg_tasks g > 0 \<longrightarrow> bg_ctx g) \<and> (case bg_phase g of
       backgroundOpen \<Rightarrow> bg_closed g = (if bg_ctx g then OpenChan else NoChan)
     | backgroundClosing \<Rightarrow> bg_closed g = OpenChan \<and> bg_cancelled g = bg_ctx g
     | backgroundClosed \<Rightarrow> bg_closed g = ClosedChan \<and> bg_tasks g = 0 \<and> bg_cancelled g = bg_ctx g)"

definition bg_rank :: "BackgroundGroup \<Rightarrow> nat" where
  "bg_rank g = (case bg_phase g of backgroundOpen \<Rightarrow> 0 | backgroundClosing \<Rightarrow> 1 | backgroundClosed \<Rightarrow> 2)"

lemmas bg_defs = bg_step_def bg_Acquire_def bg_Done_def bg_Close_begin_def bg_Close_end_def bg_ok_def bg_rank_def
  close_chan_def make_if_nil_def Let_def

interpretation bg: close_leader bg_step bg_ok bg_rank
proof unfold_locales
  fix s e
  assume "bg_ok s"
  then show "\<exists>s' outc. bg_step e s = Some (s', outc) \<and> bg_ok s'"
    by (cases e; cases "bg_phase s") (auto simp: bg_defs)
qed (auto simp: bg_defs split: bg_event.splits backgroundPhase.splits if_splits)

section \<open>Every owner is released once\<close>

lemma zero_owners:
  "life_ok life_zero" "life_rank life_zero = 0" "coh_ok coh_zero" "coh_rank coh_zero = 0"
  "prep_rank prep_zero = 0" "sup_rank New = 0" "bg_ok bg_zero" "bg_rank bg_zero = 0"
  by (simp_all add: life_zero_def life_ok_def life_rank_def coh_zero_def coh_ok_def coh_rank_def prep_zero_def
      prep_rank_def sup_rank_def bg_zero_def bg_ok_def bg_rank_def)

text \<open>C19.  Shutdown authority is exclusive.  Under every sequence of concurrent calls -- for the watcher
  with arbitrarily stale loads before each compare-and-swap -- on a share endpoint, the cache-coherence watcher,
  a prepared share, the supervisor lifecycle and a background group, no call panics on its completion channel, at
  most one caller becomes the shutdown leader, the terminal phase is published at most once and only after a
  leader, a prepared share is never both consumed and released, and a closed background group has no running
  task.\<close>

theorem shutdown_leader_unique:
  "(\<exists>w outs. run_owner life_step es life_zero = Some (w, outs) \<and> single_release outs)
   \<and> (\<exists>w outs. run_owner coh_step fs coh_zero = Some (w, outs) \<and> single_release outs)
   \<and> (\<exists>w outs. run_owner prep_step gs prep_zero = Some (w, outs) \<and> single_release outs)
   \<and> (\<exists>p outs. run_owner sup_step hs New = Some (p, outs) \<and> single_release outs)
   \<and> (\<exists>g outs. run_owner bg_step bs bg_zero = Some (g, outs) \<and> single_release outs
        \<and> \<not> (bg_phase g = backgroundClosed \<and> bg_tasks g > 0))"
proof (intro conjI)
  show "\<exists>w outs. run_owner life_step es life_zero = Some (w, outs) \<and> single_release outs"
    using life.run_one_leader zero_owners(1,2) by blast
  show "\<exists>w outs. run_owner coh_step fs coh_zero = Some (w, outs) \<and> single_release outs"
    using coh.run_one_leader zero_owners(3,4) by blast
  show "\<exists>w outs. run_owner prep_step gs prep_zero = Some (w, outs) \<and> single_release outs"
    using prep.run_one_leader zero_owners(5) by blast
  show "\<exists>p outs. run_owner sup_step hs New = Some (p, outs) \<and> single_release outs"
    using sup.run_one_leader zero_owners(6) by blast
  have "bg_ok g \<Longrightarrow> \<not> (bg_phase g = backgroundClosed \<and> bg_tasks g > 0)" for g by (auto simp: bg_ok_def)
  then show "\<exists>g outs. run_owner bg_step bs bg_zero = Some (g, outs) \<and> single_release outs
        \<and> \<not> (bg_phase g = backgroundClosed \<and> bg_tasks g > 0)"
    using bg.run_one_leader [OF zero_owners(7,8)] by blast
qed

end
