(* ===== verification/Operation_Store.thy ===== *)
theory Operation_Store
  imports Gantry_Prelude "HOL-Library.AList"
begin

text \<open>
  The operation records of the sandbox manager (\<open>sandbox/manager/operationstate/store.go\<close>): admission with
  idempotency keys, completion by an unforgeable owner, eviction of finished records, and the event feed of
  subscribers.  Every method holds the store's lock and is one step.  The clock and the random identifier
  are arguments; the results of \<open>configure\<close> and \<open>run\<close> operations are type parameters.  A Go map is an
  association list, a channel an address in a list of channels.
\<close>

section \<open>Records\<close>

datatype op_phase = Running | Succeeded | Failed

definition op_String :: "op_phase \<Rightarrow> string" where
  "op_String p = (case p of Running \<Rightarrow> ''running'' | Succeeded \<Rightarrow> ''succeeded'' | Failed \<Rightarrow> ''failed'')"

definition terminal :: "op_phase \<Rightarrow> bool" where
  "terminal p \<longleftrightarrow> p = Succeeded \<or> p = Failed"

record OpOwner =
  ow_id :: string
  ow_generation :: u64
  ow_kind :: string
  ow_sandbox :: string

record ('c, 'r) Operation =
  op_ID :: string
  op_Kind :: string
  op_Sandbox :: string
  op_State :: string
  op_Error :: string
  op_Warnings :: "string list"
  op_Configure :: "'c option"
  op_Run :: "'r option"
  op_Progress :: string
  op_Created :: int
  op_Updated :: int

record ('c, 'r) op_record =
  rec_op :: "('c, 'r) Operation"
  rec_phase :: op_phase
  rec_owner :: OpOwner
  rec_key :: string
  rec_fingerprint :: string

datatype op_error =
    KeyTooLong
  | KeyNotPrintable
  | KeyConflict
  | KeyExpired
  | CapacityFull
  | CompletionRejected string
  | InvalidTransition op_phase op_phase

definition op_transition :: "op_phase \<Rightarrow> ('c, 'r) op_record \<Rightarrow> op_error + ('c, 'r) op_record" where
  "op_transition nxt r =
    (if rec_phase r \<noteq> Running \<or> \<not> terminal nxt then Inl (InvalidTransition (rec_phase r) nxt)
     else Inr (r \<lparr> rec_phase := nxt, rec_op := (rec_op r) \<lparr> op_State := op_String nxt \<rparr> \<rparr>))"

section \<open>The store\<close>

record Event =
  ev_ID :: u64
  ev_Type :: string
  ev_OperationID :: string
  ev_Sandbox :: string
  ev_State :: string
  ev_Time :: int

text \<open>A channel: its buffer, whether it is closed, and what the subscriber has received.\<close>

record chan =
  ch_buf :: "Event list"
  ch_closed :: bool
  ch_seen :: "Event list"

record ('c, 'r) Store =
  records :: "(string \<times> ('c, 'r) op_record) list"
  order :: "string list"
  idempotency :: "(string \<times> string \<times> string) list"
  nextGeneration :: u64
  subscribers :: "(u64 \<times> nat) list"
  nextSubscriber :: u64
  nextEvent :: u64
  maxOperations :: nat
  maxSubscribers :: nat
  eventBuffer :: nat
  channels :: "chan list"

text \<open>\<open>None\<close> is the panic of \<open>New\<close> on a limit that is not positive.\<close>

definition store_New :: "int \<Rightarrow> int \<Rightarrow> int \<Rightarrow> ('c, 'r) Store option" where
  "store_New maxOps maxSubs buf =
    (if maxOps < 1 \<or> maxSubs < 1 \<or> buf < 1 then None
     else Some \<lparr> records = [], order = [], idempotency = [], nextGeneration = 0, subscribers = [],
       nextSubscriber = 0, nextEvent = 0, maxOperations = nat maxOps, maxSubscribers = nat maxSubs,
       eventBuffer = nat buf, channels = [] \<rparr>)"

text \<open>A byte above \<open>0x7e\<close> is part of a character above \<open>0x7e\<close>, so the test on characters is one on
  bytes.\<close>

definition validateIdempotencyKey :: "string \<Rightarrow> op_error option" where
  "validateIdempotencyKey k =
    (if k = '''' then None
     else if 128 < length k then Some KeyTooLong
     else if list_ex (\<lambda>c. (of_char c :: nat) < 0x21 \<or> 0x7e < (of_char c :: nat)) k then Some KeyNotPrintable
     else None)"

text \<open>The first entry of the order whose record is gone or finished, with what stands around it.\<close>

fun split_completed :: "('c, 'r) Store \<Rightarrow> string list \<Rightarrow> (string list \<times> string \<times> string list) option" where
  "split_completed s [] = None"
| "split_completed s (i # is) =
    (if (case map_of (records s) i of Some r \<Rightarrow> \<not> terminal (rec_phase r) | None \<Rightarrow> False)
     then map_option (\<lambda>(xs, j, ys). (i # xs, j, ys)) (split_completed s is)
     else Some ([], i, is))"

definition removeOldestCompletedLocked :: "('c, 'r) Store \<Rightarrow> ('c, 'r) Store \<times> bool" where
  "removeOldestCompletedLocked s =
    (case split_completed s (order s) of
       None \<Rightarrow> (s, False)
     | Some (xs, i, ys) \<Rightarrow>
         (s \<lparr> order := xs @ ys, records := AList.delete i (records s),
              idempotency := (case map_of (records s) i of
                  Some r \<Rightarrow> if rec_key r \<noteq> '''' then AList.delete (rec_key r) (idempotency s) else idempotency s
                | None \<Rightarrow> idempotency s) \<rparr>, True))"

lemma split_completed_Some: "split_completed s is = Some (xs, i, ys) \<Longrightarrow> is = xs @ i # ys"
  by (induct s "is" arbitrary: xs rule: split_completed.induct) (auto split: if_splits)

lemma remove_shrinks: "removeOldestCompletedLocked s = (s', True) \<Longrightarrow> length (order s') < length (order s)"
  by (auto simp: removeOldestCompletedLocked_def dest!: split_completed_Some split: option.splits)

function pruneLocked :: "('c, 'r) Store \<Rightarrow> ('c, 'r) Store" where
  "pruneLocked s =
    (if length (records s) \<le> maxOperations s then s
     else case removeOldestCompletedLocked s of (s', True) \<Rightarrow> pruneLocked s' | (s', False) \<Rightarrow> s')"
  by pat_completeness auto
termination
  by (relation "measure (\<lambda>s. length (order s))") (auto dest!: remove_shrinks [OF sym])

declare pruneLocked.simps [simp del]

text \<open>Offering an event to one subscriber: a full buffer closes the channel and drops the subscriber.\<close>

definition offer :: "Event \<Rightarrow> (u64 \<times> nat) \<Rightarrow> ('c, 'r) Store \<Rightarrow> ('c, 'r) Store" where
  "offer ev sub s =
    (let ch = channels s ! snd sub in
     if length (ch_buf ch) < eventBuffer s
     then s \<lparr> channels := (channels s)[snd sub := ch \<lparr> ch_buf := ch_buf ch @ [ev] \<rparr>] \<rparr>
     else s \<lparr> channels := (channels s)[snd sub := ch \<lparr> ch_closed := True \<rparr>],
              subscribers := AList.delete (fst sub) (subscribers s) \<rparr>)"

definition publishLocked :: "int \<Rightarrow> string \<Rightarrow> ('c, 'r) op_record \<Rightarrow> ('c, 'r) Store \<Rightarrow> ('c, 'r) Store" where
  "publishLocked t eventType r s =
    (let s = s \<lparr> nextEvent := nextEvent s + 1 \<rparr>;
         ev = \<lparr> ev_ID = nextEvent s, ev_Type = eventType, ev_OperationID = op_ID (rec_op r),
                ev_Sandbox = op_Sandbox (rec_op r), ev_State = op_String (rec_phase r), ev_Time = t \<rparr>
     in fold (offer ev) (subscribers s) s)"

record ('c, 'r) Start =
  st_Operation :: "('c, 'r) Operation"
  st_Owner :: "OpOwner option"
  st_Phase :: op_phase
  st_Replay :: bool

definition new_record :: "int \<Rightarrow> OpOwner \<Rightarrow> string \<Rightarrow> string \<Rightarrow> ('c, 'r) op_record" where
  "new_record t w key fingerprint =
    \<lparr> rec_op = \<lparr> op_ID = ow_id w, op_Kind = ow_kind w, op_Sandbox = ow_sandbox w, op_State = op_String Running,
        op_Error = '''', op_Warnings = [], op_Configure = None, op_Run = None, op_Progress = '''',
        op_Created = t, op_Updated = t \<rparr>,
      rec_phase = Running, rec_owner = w, rec_key = key, rec_fingerprint = fingerprint \<rparr>"

text \<open>The admission of a new operation, once there is room.\<close>

definition op_admit :: "int \<Rightarrow> string \<Rightarrow> string \<Rightarrow> string \<Rightarrow> string \<Rightarrow> string \<Rightarrow> ('c, 'r) Store
    \<Rightarrow> ('c, 'r) Store \<times> ('c, 'r) Start" where
  "op_admit t newID kind name key fingerprint s =
    (let g = nextGeneration s + 1;
         w = \<lparr> ow_id = newID, ow_generation = g, ow_kind = kind, ow_sandbox = name \<rparr>;
         r = new_record t w key fingerprint;
         s1 = s \<lparr> nextGeneration := g, records := AList.update newID r (records s), order := order s @ [newID] \<rparr>;
         s2 = (if key \<noteq> '''' then s1 \<lparr> idempotency := AList.update key (newID, fingerprint) (idempotency s1) \<rparr> else s1);
         s3 = publishLocked t ''operation'' r (pruneLocked s2)
     in (s3, \<lparr> st_Operation = rec_op r, st_Owner = Some w, st_Phase = rec_phase r, st_Replay = False \<rparr>))"

definition Begin :: "int \<Rightarrow> string \<Rightarrow> string \<Rightarrow> string \<Rightarrow> string \<Rightarrow> string \<Rightarrow> ('c, 'r) Store
    \<Rightarrow> ('c, 'r) Store \<times> (op_error + ('c, 'r) Start)" where
  "Begin t newID kind name key fingerprint s =
    (case validateIdempotencyKey key of
       Some e \<Rightarrow> (s, Inl e)
     | None \<Rightarrow>
         (case if key \<noteq> '''' then map_of (idempotency s) key else None of
            Some (operationID, fp) \<Rightarrow>
              if fp \<noteq> fingerprint then (s, Inl KeyConflict)
              else (case map_of (records s) operationID of
                      None \<Rightarrow> (s, Inl KeyExpired)
                    | Some r \<Rightarrow> (s, Inr \<lparr> st_Operation = rec_op r, st_Owner = None, st_Phase = rec_phase r, st_Replay = True \<rparr>))
          | None \<Rightarrow>
              if length (records s) < maxOperations s
              then (case op_admit t newID kind name key fingerprint s of (s', st) \<Rightarrow> (s', Inr st))
              else (case removeOldestCompletedLocked s of
                      (s1, False) \<Rightarrow> (s1, Inl CapacityFull)
                    | (s1, True) \<Rightarrow> (case op_admit t newID kind name key fingerprint s1 of (s', st) \<Rightarrow> (s', Inr st)))))"

definition ownedRunningLocked :: "OpOwner \<Rightarrow> ('c, 'r) Store \<Rightarrow> ('c, 'r) op_record option" where
  "ownedRunningLocked w s =
    (if ow_id w = '''' \<or> ow_generation w = 0 then None
     else case map_of (records s) (ow_id w) of
            None \<Rightarrow> None
          | Some r \<Rightarrow> if rec_phase r \<noteq> Running \<or> rec_owner r \<noteq> w then None else Some r)"

definition OwnsIdempotency :: "OpOwner \<Rightarrow> string \<Rightarrow> ('c, 'r) Store \<Rightarrow> bool" where
  "OwnsIdempotency w key s =
    (if key = '''' then True
     else case map_of (idempotency s) key of
            None \<Rightarrow> False
          | Some (operationID, fp) \<Rightarrow> operationID = ow_id w \<and> ownedRunningLocked w s \<noteq> None)"

text \<open>A record is a pointer in the map: writing it back updates the entry of its identifier.\<close>

definition mutate :: "int \<Rightarrow> OpOwner \<Rightarrow> (('c, 'r) Operation \<Rightarrow> ('c, 'r) Operation) \<Rightarrow> ('c, 'r) Store
    \<Rightarrow> ('c, 'r) Store \<times> op_error option" where
  "mutate t w f s =
    (case ownedRunningLocked w s of
       None \<Rightarrow> (s, Some (CompletionRejected (ow_id w)))
     | Some r \<Rightarrow>
         (s \<lparr> records := AList.update (ow_id w) (r \<lparr> rec_op := (f (rec_op r)) \<lparr> op_Updated := t \<rparr> \<rparr>) (records s) \<rparr>, None))"

definition SetWarnings :: "int \<Rightarrow> OpOwner \<Rightarrow> string list \<Rightarrow> ('c, 'r) Store \<Rightarrow> ('c, 'r) Store \<times> op_error option" where
  "SetWarnings t w warnings s = mutate t w (\<lambda>x. x \<lparr> op_Warnings := warnings \<rparr>) s"

definition SetProgress :: "int \<Rightarrow> OpOwner \<Rightarrow> string \<Rightarrow> ('c, 'r) Store \<Rightarrow> ('c, 'r) Store \<times> op_error option" where
  "SetProgress t w progress s = mutate t w (\<lambda>x. x \<lparr> op_Progress := take 4096 progress \<rparr>) s"

definition SetConfigure :: "int \<Rightarrow> OpOwner \<Rightarrow> 'c \<Rightarrow> ('c, 'r) Store \<Rightarrow> ('c, 'r) Store \<times> op_error option" where
  "SetConfigure t w c s = mutate t w (\<lambda>x. x \<lparr> op_Configure := Some c \<rparr>) s"

definition SetRun :: "int \<Rightarrow> OpOwner \<Rightarrow> 'r \<Rightarrow> ('c, 'r) Store \<Rightarrow> ('c, 'r) Store \<times> op_error option" where
  "SetRun t w r s = mutate t w (\<lambda>x. x \<lparr> op_Run := Some r \<rparr>) s"

definition op_Finish :: "int \<Rightarrow> OpOwner \<Rightarrow> string option \<Rightarrow> ('c, 'r) Store
    \<Rightarrow> ('c, 'r) Store \<times> (op_error + ('c, 'r) Operation)" where
  "op_Finish t w operationErr s =
    (case ownedRunningLocked w s of
       None \<Rightarrow> (s, Inl (CompletionRejected (ow_id w)))
     | Some r \<Rightarrow>
         let r1 = (case operationErr of None \<Rightarrow> r
                     | Some e \<Rightarrow> r \<lparr> rec_op := (rec_op r) \<lparr> op_Error := e \<rparr> \<rparr>);
             nxt = (if operationErr = None then Succeeded else Failed)
         in case op_transition nxt r1 of
              Inl e \<Rightarrow> (s \<lparr> records := AList.update (ow_id w) r1 (records s) \<rparr>, Inl e)
            | Inr r2 \<Rightarrow>
                let r3 = r2 \<lparr> rec_op := (rec_op r2) \<lparr> op_Updated := t \<rparr> \<rparr>;
                    s1 = s \<lparr> records := AList.update (ow_id w) r3 (records s) \<rparr>
                in (publishLocked t ''operation'' r3 s1, Inr (rec_op r3)))"

definition store_Operation :: "string \<Rightarrow> ('c, 'r) Store \<Rightarrow> ('c, 'r) Operation option" where
  "store_Operation i s = map_option rec_op (map_of (records s) i)"

definition Subscribe :: "('c, 'r) Store \<Rightarrow> ('c, 'r) Store \<times> (u64 \<times> nat) option" where
  "Subscribe s =
    (if maxSubscribers s \<le> length (subscribers s) then (s, None)
     else
       let i = nextSubscriber s + 1; a = length (channels s)
       in (s \<lparr> nextSubscriber := i, channels := channels s @ [\<lparr> ch_buf = [], ch_closed = False, ch_seen = [] \<rparr>],
               subscribers := AList.update i a (subscribers s) \<rparr>, Some (i, a)))"

definition sub_cancel :: "u64 \<Rightarrow> nat \<Rightarrow> ('c, 'r) Store \<Rightarrow> ('c, 'r) Store" where
  "sub_cancel i a s =
    (if map_of (subscribers s) i = Some a
     then s \<lparr> subscribers := AList.delete i (subscribers s),
              channels := (channels s)[a := (channels s ! a) \<lparr> ch_closed := True \<rparr>] \<rparr>
     else s)"

text \<open>The subscriber takes the next event from its channel.\<close>

definition sub_receive :: "nat \<Rightarrow> ('c, 'r) Store \<Rightarrow> ('c, 'r) Store" where
  "sub_receive a s =
    (if a < length (channels s)
     then (case ch_buf (channels s ! a) of
             [] \<Rightarrow> s
           | ev # evs \<Rightarrow> s \<lparr> channels := (channels s)[a := (channels s ! a) \<lparr> ch_buf := evs,
               ch_seen := ch_seen (channels s ! a) @ [ev] \<rparr>] \<rparr>)
     else s)"

record Stats =
  sts_Records :: nat
  sts_Order :: nat
  sts_Subscribers :: nat
  sts_Running :: nat

definition store_Stats :: "('c, 'r) Store \<Rightarrow> Stats" where
  "store_Stats s = \<lparr> sts_Records = length (records s), sts_Order = length (order s),
     sts_Subscribers = length (subscribers s),
     sts_Running = length (filter (\<lambda>(_, r). rec_phase r = Running) (records s)) \<rparr>"

section \<open>Steps and reachable stores\<close>

datatype ('c, 'r) store_call =
    CallBegin int string string string string string
  | CallWarnings int OpOwner "string list"
  | CallProgress int OpOwner string
  | CallConfigure int OpOwner 'c
  | CallRun int OpOwner 'r
  | CallFinish int OpOwner "string option"
  | CallSubscribe
  | CallCancel u64 nat
  | CallReceive nat

definition store_step :: "('c, 'r) store_call \<Rightarrow> ('c, 'r) Store \<Rightarrow> ('c, 'r) Store" where
  "store_step e s = (case e of
     CallBegin t newID kind name key fp \<Rightarrow> fst (Begin t newID kind name key fp s)
   | CallWarnings t w ws \<Rightarrow> fst (SetWarnings t w ws s)
   | CallProgress t w p \<Rightarrow> fst (SetProgress t w p s)
   | CallConfigure t w c \<Rightarrow> fst (SetConfigure t w c s)
   | CallRun t w r \<Rightarrow> fst (SetRun t w r s)
   | CallFinish t w e \<Rightarrow> fst (op_Finish t w e s)
   | CallSubscribe \<Rightarrow> fst (Subscribe s)
   | CallCancel i a \<Rightarrow> sub_cancel i a s
   | CallReceive a \<Rightarrow> sub_receive a s)"

text \<open>The random identifier of a new operation is not that of a stored record.\<close>

definition fresh_call :: "('c, 'r) store_call \<Rightarrow> ('c, 'r) Store \<Rightarrow> bool" where
  "fresh_call e s = (case e of
     CallBegin t newID kind name key fp \<Rightarrow> newID \<noteq> '''' \<and> newID \<notin> fst ` set (records s) | _ \<Rightarrow> True)"

inductive store_reachable :: "('c, 'r) Store \<Rightarrow> bool" where
  store_init: "store_New a b c = Some s \<Longrightarrow> store_reachable s"
| store_call: "store_reachable s \<Longrightarrow> fresh_call e s \<Longrightarrow> store_reachable (store_step e s)"

section \<open>What publishing an event changes\<close>

lemma offer_frame:
  "records (offer ev p s) = records s" "order (offer ev p s) = order s" "idempotency (offer ev p s) = idempotency s"
  "nextGeneration (offer ev p s) = nextGeneration s" "nextEvent (offer ev p s) = nextEvent s"
  "maxOperations (offer ev p s) = maxOperations s" "eventBuffer (offer ev p s) = eventBuffer s"
  "length (channels (offer ev p s)) = length (channels s)" "maxSubscribers (offer ev p s) = maxSubscribers s"
  by (simp_all add: offer_def Let_def)

lemma fold_offer_frame:
  "records (fold (offer ev) ps s) = records s" "order (fold (offer ev) ps s) = order s"
  "idempotency (fold (offer ev) ps s) = idempotency s" "nextGeneration (fold (offer ev) ps s) = nextGeneration s"
  "nextEvent (fold (offer ev) ps s) = nextEvent s" "maxOperations (fold (offer ev) ps s) = maxOperations s"
  "eventBuffer (fold (offer ev) ps s) = eventBuffer s" "length (channels (fold (offer ev) ps s)) = length (channels s)"
  "maxSubscribers (fold (offer ev) ps s) = maxSubscribers s"
  by (induct ps arbitrary: s) (simp_all add: offer_frame)

lemma publish_frame [simp]:
  "records (publishLocked t y r s) = records s" "order (publishLocked t y r s) = order s"
  "idempotency (publishLocked t y r s) = idempotency s" "nextGeneration (publishLocked t y r s) = nextGeneration s"
  "maxOperations (publishLocked t y r s) = maxOperations s" "eventBuffer (publishLocked t y r s) = eventBuffer s"
  "maxSubscribers (publishLocked t y r s) = maxSubscribers s" "nextEvent (publishLocked t y r s) = nextEvent s + 1"
  by (simp_all add: publishLocked_def Let_def fold_offer_frame)

section \<open>The records and the idempotency keys\<close>

definition rec_inv :: "('c, 'r) Store \<Rightarrow> bool" where
  "rec_inv s \<longleftrightarrow> distinct (map fst (records s)) \<and> distinct (order s) \<and> set (order s) = fst ` set (records s)
     \<and> length (records s) \<le> maxOperations s \<and> 0 < maxOperations s
     \<and> (\<forall>i r. map_of (records s) i = Some r \<longrightarrow>
          op_ID (rec_op r) = i \<and> ow_id (rec_owner r) = i \<and> op_State (rec_op r) = op_String (rec_phase r))"

text \<open>Every key leads to the one stored record that was admitted with it.\<close>

definition idem_inv :: "('c, 'r) Store \<Rightarrow> bool" where
  "idem_inv s \<longleftrightarrow> (\<forall>k i fp. map_of (idempotency s) k = Some (i, fp) \<longleftrightarrow>
     k \<noteq> '''' \<and> (\<exists>r. map_of (records s) i = Some r \<and> rec_key r = k \<and> rec_fingerprint r = fp))"

lemma prune_small: "length (records s) \<le> maxOperations s \<Longrightarrow> pruneLocked s = s"
  by (subst pruneLocked.simps) simp

lemma split_completed_terminal:
  "split_completed s is = Some (xs, i, ys) \<Longrightarrow> map_of (records s) i = Some r \<Longrightarrow> terminal (rec_phase r)"
  by (induct s "is" arbitrary: xs rule: split_completed.induct) (auto split: if_splits option.splits)

lemma length_delete_present:
  "distinct (map fst xs) \<Longrightarrow> i \<in> fst ` set xs \<Longrightarrow> Suc (length (AList.delete i xs)) = length xs"
  by (induct xs) auto

lemma length_update_absent: "i \<notin> fst ` set xs \<Longrightarrow> length (AList.update i v xs) = Suc (length xs)"
  by (induct xs) auto

lemma length_update_present: "i \<in> fst ` set xs \<Longrightarrow> length (AList.update i v xs) = length xs"
  by (induct xs) auto

lemma keys_delete: "fst ` set (AList.delete i al) = fst ` set al - {i}"
  unfolding dom_map_of_conv_image_fst [symmetric] delete_conv' by auto

lemma keys_update: "fst ` set (AList.update i v al) = insert i (fst ` set al)"
  unfolding dom_map_of_conv_image_fst [symmetric] update_conv' by auto

lemma idem_key_unique:
  assumes "idem_inv s" "map_of (records s) i = Some r" "map_of (records s) j = Some q" "rec_key r = rec_key q" "rec_key r \<noteq> []"
  shows "i = j"
proof -
  have "map_of (idempotency s) (rec_key r) = Some (i, rec_fingerprint r)"
    "map_of (idempotency s) (rec_key r) = Some (j, rec_fingerprint q)"
    using assms by (simp_all add: idem_inv_def)
  then show ?thesis by simp
qed

lemma remove_inv:
  assumes "rec_inv s" "idem_inv s" "removeOldestCompletedLocked s = (s', True)"
  shows "rec_inv s' \<and> idem_inv s' \<and> Suc (length (records s')) = length (records s)"
proof -
  obtain xs i ys where sp: "split_completed s (order s) = Some (xs, i, ys)"
    using assms(3) by (auto simp: removeOldestCompletedLocked_def split: option.splits)
  have o: "order s = xs @ i # ys" using split_completed_Some [OF sp] .
  then have i: "i \<in> fst ` set (records s)" using assms(1) by (auto simp: rec_inv_def)
  then obtain r where r: "map_of (records s) i = Some r" by (meson map_of_eq_None_iff not_None_eq)
  have s': "s' = s \<lparr> order := xs @ ys, records := AList.delete i (records s),
      idempotency := (if rec_key r \<noteq> '''' then AList.delete (rec_key r) (idempotency s) else idempotency s) \<rparr>"
    using assms(3) sp r by (simp add: removeOldestCompletedLocked_def)
  have len: "Suc (length (records s')) = length (records s)"
    using length_delete_present [OF _ i] assms(1) by (simp add: s' rec_inv_def)
  have "distinct (map fst (records s'))" using assms(1) distinct_delete by (auto simp: s' rec_inv_def)
  moreover have "set (order s') = fst ` set (records s')" "distinct (order s')"
    using assms(1) o unfolding s' rec_inv_def by (auto simp: keys_delete)
  ultimately have "rec_inv s'"
    using assms(1) len by (auto simp: rec_inv_def s' delete_conv' split: if_splits)
  moreover have "idem_inv s'"
    unfolding idem_inv_def
  proof (intro allI)
    fix k j fp
    have old: "map_of (idempotency s) k = Some (j, fp) \<longleftrightarrow>
        k \<noteq> [] \<and> (\<exists>r. map_of (records s) j = Some r \<and> rec_key r = k \<and> rec_fingerprint r = fp)"
      using assms(2) unfolding idem_inv_def by blast
    have rec: "map_of (records s') j = (if j = i then None else map_of (records s) j)"
      and idem: "map_of (idempotency s') k = (if rec_key r \<noteq> [] \<and> k = rec_key r then None else map_of (idempotency s) k)"
      by (simp_all add: s' delete_conv')
    show "map_of (idempotency s') k = Some (j, fp) \<longleftrightarrow>
        k \<noteq> [] \<and> (\<exists>r. map_of (records s') j = Some r \<and> rec_key r = k \<and> rec_fingerprint r = fp)"
    proof (cases "j = i")
      case True
      then show ?thesis unfolding rec idem using old r by simp
    next
      case False
      then have "\<not> (k \<noteq> [] \<and> k = rec_key r \<and> (\<exists>q. map_of (records s) j = Some q \<and> rec_key q = k \<and> rec_fingerprint q = fp))"
        using idem_key_unique [OF assms(2) r] by metis
      then show ?thesis unfolding rec idem using old False
        by (cases "rec_key r \<noteq> [] \<and> k = rec_key r") (simp_all, blast)
    qed
  qed
  ultimately show ?thesis using len by blast
qed

lemma new_record_fields [simp]:
  "rec_key (new_record t w k f) = k" "rec_fingerprint (new_record t w k f) = f" "rec_phase (new_record t w k f) = Running"
  "rec_owner (new_record t w k f) = w" "op_ID (rec_op (new_record t w k f)) = ow_id w"
  "op_State (rec_op (new_record t w k f)) = op_String Running"
  by (simp_all add: new_record_def)

lemma op_admit_inv:
  assumes "rec_inv s" "idem_inv s" "length (records s) < maxOperations s" "newID \<notin> fst ` set (records s)"
    and "key \<noteq> [] \<Longrightarrow> map_of (idempotency s) key = None"
    and "op_admit t newID kind name key fp s = (s', st)"
  shows "rec_inv s' \<and> idem_inv s'"
proof -
  let ?w = "\<lparr> ow_id = newID, ow_generation = nextGeneration s + 1, ow_kind = kind, ow_sandbox = name \<rparr>"
  let ?r = "new_record t ?w key fp"
  have len: "length (AList.update newID ?r (records s)) = Suc (length (records s))"
    using assms(4) by (rule length_update_absent)
  have none: "map_of (records s) newID = None" using assms(4) by (simp add: map_of_eq_None_iff)
  have f: "records s' = AList.update newID ?r (records s)" "order s' = order s @ [newID]"
    "idempotency s' = (if key \<noteq> [] then AList.update key (newID, fp) (idempotency s) else idempotency s)"
    "maxOperations s' = maxOperations s"
    using assms(3,6) len by (auto simp: op_admit_def Let_def prune_small split: if_splits)
  have "distinct (map fst (records s'))" using assms(1) by (simp add: f rec_inv_def distinct_update)
  moreover have "set (order s') = fst ` set (records s')" "distinct (order s')"
    using assms(1,4) unfolding rec_inv_def f keys_update by auto
  ultimately have "rec_inv s'"
    using assms(1,3) len by (auto simp: rec_inv_def f update_conv' split: if_splits)
  moreover have "idem_inv s'"
    unfolding idem_inv_def
  proof (intro allI)
    fix k i fp'
    have old: "map_of (idempotency s) k = Some (i, fp') \<longleftrightarrow>
        k \<noteq> [] \<and> (\<exists>r. map_of (records s) i = Some r \<and> rec_key r = k \<and> rec_fingerprint r = fp')"
      using assms(2) unfolding idem_inv_def by blast
    show "map_of (idempotency s') k = Some (i, fp') \<longleftrightarrow>
        k \<noteq> [] \<and> (\<exists>r. map_of (records s') i = Some r \<and> rec_key r = k \<and> rec_fingerprint r = fp')"
    proof (cases "i = newID")
      case True
      then show ?thesis using old none unfolding f update_conv' by (cases "key = []"; cases "k = key") (auto simp: update_conv')
    next
      case False
      then show ?thesis using old assms(5) unfolding f update_conv' by (cases "key = []"; cases "k = key") (simp_all add: update_conv')
    qed
  qed
  ultimately show ?thesis by blast
qed

lemma remove_False: "removeOldestCompletedLocked s = (s', False) \<Longrightarrow> s' = s"
  by (auto simp: removeOldestCompletedLocked_def split: option.splits)

lemma remove_frame:
  "removeOldestCompletedLocked s = (s', b) \<Longrightarrow> maxOperations s' = maxOperations s \<and> nextGeneration s' = nextGeneration s
    \<and> channels s' = channels s \<and> subscribers s' = subscribers s \<and> nextEvent s' = nextEvent s \<and> eventBuffer s' = eventBuffer s"
  by (auto simp: removeOldestCompletedLocked_def split: option.splits)

lemma remove_keys_subset:
  "removeOldestCompletedLocked s = (s', b) \<Longrightarrow> fst ` set (records s') \<subseteq> fst ` set (records s)
    \<and> (map_of (idempotency s) k = None \<longrightarrow> map_of (idempotency s') k = None)"
  using dom_delete_subset [of _ "records s"]
  by (force simp: removeOldestCompletedLocked_def delete_conv' split: option.splits)

text \<open>The three ways \<open>Begin\<close> goes: nothing changes, admission, or eviction then admission.\<close>

lemma Begin_cases:
  obtains (same) "fst (Begin t newID kind name key fp s) = s"
  | (op_admit) "length (records s) < maxOperations s" "key \<noteq> [] \<Longrightarrow> map_of (idempotency s) key = None"
      "Begin t newID kind name key fp s = (fst (op_admit t newID kind name key fp s), Inr (snd (op_admit t newID kind name key fp s)))"
  | (evict) s1 where "\<not> length (records s) < maxOperations s" "removeOldestCompletedLocked s = (s1, True)"
      "key \<noteq> [] \<Longrightarrow> map_of (idempotency s) key = None"
      "Begin t newID kind name key fp s = (fst (op_admit t newID kind name key fp s1), Inr (snd (op_admit t newID kind name key fp s1)))"
proof (cases "validateIdempotencyKey key")
  case (Some e)
  then show ?thesis using same by (simp add: Begin_def)
next
  case None
  show ?thesis
  proof (cases "if key \<noteq> [] then map_of (idempotency s) key else None")
    case (Some p)
    then show ?thesis using same None
      by (cases p) (auto simp: Begin_def split: option.splits if_splits)
  next
    case free: None
    then have k: "key \<noteq> [] \<Longrightarrow> map_of (idempotency s) key = None" by simp
    obtain s1 b where r: "removeOldestCompletedLocked s = (s1, b)" by fastforce
    show ?thesis
    proof (cases "length (records s) < maxOperations s")
      case True
      then show ?thesis using op_admit [OF True k] None free by (simp add: Begin_def case_prod_beta)
    next
      case False
      then show ?thesis using evict [OF False _ k] same None free r remove_False [of s s1]
        by (cases b) (simp_all add: Begin_def case_prod_beta)
    qed
  qed
qed

lemma Begin_inv:
  assumes "rec_inv s" "idem_inv s" "newID \<notin> fst ` set (records s)"
  shows "rec_inv (fst (Begin t newID kind name key fp s)) \<and> idem_inv (fst (Begin t newID kind name key fp s))"
proof (cases rule: Begin_cases [of t newID kind name key fp s])
  case same
  then show ?thesis using assms by simp
next
  case op_admit
  then show ?thesis
    using op_admit_inv [OF assms(1,2) op_admit(1) assms(3) op_admit(2) surjective_pairing] by simp
next
  case (evict s1)
  have k: "key \<noteq> [] \<Longrightarrow> map_of (idempotency s1) key = None" "newID \<notin> fst ` set (records s1)"
    using remove_keys_subset [OF evict(2)] evict(3) assms(3) by auto
  have r: "rec_inv s1" "idem_inv s1" "length (records s1) < maxOperations s1"
    using remove_inv [OF assms(1,2) evict(2)] remove_frame [OF evict(2)] assms(1) by (auto simp: rec_inv_def)
  show ?thesis using op_admit_inv [OF r k(2) k(1) surjective_pairing] evict(4) by simp
qed

lemma owned_Some:
  "ownedRunningLocked w s = Some r \<Longrightarrow> map_of (records s) (ow_id w) = Some r \<and> rec_phase r = Running \<and> rec_owner r = w
    \<and> ow_id w \<noteq> [] \<and> ow_generation w \<noteq> 0"
  by (auto simp: ownedRunningLocked_def split: if_splits option.splits)

lemma rewrite_inv:
  assumes "rec_inv s" "idem_inv s" "map_of (records s) i = Some r"
    and "rec_key r' = rec_key r" "rec_fingerprint r' = rec_fingerprint r" "rec_owner r' = rec_owner r"
    and "op_ID (rec_op r') = op_ID (rec_op r)" "op_State (rec_op r') = op_String (rec_phase r')"
    and "records s' = AList.update i r' (records s)" "order s' = order s" "idempotency s' = idempotency s"
    and "maxOperations s' = maxOperations s"
  shows "rec_inv s' \<and> idem_inv s'"
proof -
  have i: "i \<in> fst ` set (records s)" using assms(3) by (metis domI dom_map_of_conv_image_fst)
  have len: "length (AList.update i r' (records s)) = length (records s)" using i by (rule length_update_present)
  have keys: "fst ` set (AList.update i r' (records s)) = fst ` set (records s)" using i by (auto simp: keys_update)
  have "distinct (map fst (records s'))" using assms(1,9) by (simp add: rec_inv_def distinct_update)
  moreover have "map_of (records s') j = Some q \<Longrightarrow>
      op_ID (rec_op q) = j \<and> ow_id (rec_owner q) = j \<and> op_State (rec_op q) = op_String (rec_phase q)" for j q
    using assms(1,3,6-9) by (auto simp: rec_inv_def update_conv' split: if_splits)
  ultimately have "rec_inv s'" using assms(1) len keys unfolding rec_inv_def assms(9-12) by simp
  moreover have "(\<exists>q. map_of (records s') j = Some q \<and> rec_key q = k \<and> rec_fingerprint q = fp)
      \<longleftrightarrow> (\<exists>q. map_of (records s) j = Some q \<and> rec_key q = k \<and> rec_fingerprint q = fp)" for j k fp
    using assms(3-5,9) by (auto simp: update_conv')
  then have "idem_inv s'" using assms(2) unfolding idem_inv_def assms(11) by simp
  ultimately show ?thesis by blast
qed

lemma mutate_inv:
  assumes "rec_inv s" "idem_inv s" "\<And>x. op_ID (f x) = op_ID x" "\<And>x. op_State (f x) = op_State x"
  shows "rec_inv (fst (mutate t w f s)) \<and> idem_inv (fst (mutate t w f s))"
proof (cases "ownedRunningLocked w s")
  case None
  then show ?thesis using assms by (simp add: mutate_def)
next
  case (Some r)
  note o = owned_Some [OF Some]
  let ?r = "r \<lparr> rec_op := (f (rec_op r)) \<lparr> op_Updated := t \<rparr> \<rparr>"
  have st: "op_State (rec_op r) = op_String (rec_phase r)"
    using assms(1) o unfolding rec_inv_def by blast
  have "op_ID (rec_op ?r) = op_ID (rec_op r)" "op_State (rec_op ?r) = op_String (rec_phase ?r)"
    using assms(3,4) st by simp_all
  moreover have e: "fst (mutate t w f s) = s \<lparr> records := AList.update (ow_id w) ?r (records s) \<rparr>"
    by (simp add: mutate_def Some)
  ultimately show ?thesis unfolding e
    by (intro rewrite_inv [OF assms(1,2) conjunct1 [OF o], of ?r]) simp_all
qed

text \<open>The record a completion leaves behind.\<close>

definition finished :: "int \<Rightarrow> string option \<Rightarrow> ('c, 'r) op_record \<Rightarrow> ('c, 'r) op_record" where
  "finished t e r = r \<lparr> rec_phase := (if e = None then Succeeded else Failed),
     rec_op := (rec_op r) \<lparr> op_Error := (case e of None \<Rightarrow> op_Error (rec_op r) | Some x \<Rightarrow> x),
       op_State := op_String (if e = None then Succeeded else Failed), op_Updated := t \<rparr> \<rparr>"

lemma Finish_owned:
  assumes "ownedRunningLocked w s = Some r"
  shows "op_Finish t w e s = (publishLocked t ''operation'' (finished t e r)
      (s \<lparr> records := AList.update (ow_id w) (finished t e r) (records s) \<rparr>), Inr (rec_op (finished t e r)))"
  using owned_Some [OF assms] assms
  by (cases e) (simp_all add: op_Finish_def op_transition_def terminal_def finished_def Let_def)

lemma Finish_inv:
  assumes "rec_inv s" "idem_inv s"
  shows "rec_inv (fst (op_Finish t w e s)) \<and> idem_inv (fst (op_Finish t w e s))"
proof (cases "ownedRunningLocked w s")
  case None
  then show ?thesis using assms by (simp add: op_Finish_def)
next
  case (Some r)
  have "op_ID (rec_op (finished t e r)) = op_ID (rec_op r)"
    "op_State (rec_op (finished t e r)) = op_String (rec_phase (finished t e r))"
    "rec_key (finished t e r) = rec_key r" "rec_fingerprint (finished t e r) = rec_fingerprint r"
    "rec_owner (finished t e r) = rec_owner r" by (simp_all add: finished_def)
  then show ?thesis unfolding Finish_owned [OF Some] fst_conv
    by (intro rewrite_inv [OF assms conjunct1 [OF owned_Some [OF Some]], of "finished t e r"]) simp_all
qed

lemma rec_inv_cong:
  "records s' = records s \<Longrightarrow> order s' = order s \<Longrightarrow> maxOperations s' = maxOperations s \<Longrightarrow> rec_inv s' = rec_inv s"
  by (simp add: rec_inv_def)

lemma idem_inv_cong: "records s' = records s \<Longrightarrow> idempotency s' = idempotency s \<Longrightarrow> idem_inv s' = idem_inv s"
  by (simp add: idem_inv_def)

lemma sub_frame:
  "records (fst (Subscribe s)) = records s \<and> order (fst (Subscribe s)) = order s
    \<and> idempotency (fst (Subscribe s)) = idempotency s \<and> maxOperations (fst (Subscribe s)) = maxOperations s
    \<and> nextGeneration (fst (Subscribe s)) = nextGeneration s"
  "records (sub_cancel i a s) = records s \<and> order (sub_cancel i a s) = order s
    \<and> idempotency (sub_cancel i a s) = idempotency s \<and> maxOperations (sub_cancel i a s) = maxOperations s
    \<and> nextGeneration (sub_cancel i a s) = nextGeneration s"
  "records (sub_receive a s) = records s \<and> order (sub_receive a s) = order s
    \<and> idempotency (sub_receive a s) = idempotency s \<and> maxOperations (sub_receive a s) = maxOperations s
    \<and> nextGeneration (sub_receive a s) = nextGeneration s"
  by (simp_all add: Subscribe_def sub_cancel_def sub_receive_def Let_def split: list.split)

lemma store_step_inv:
  assumes "rec_inv s" "idem_inv s" "fresh_call e s"
  shows "rec_inv (store_step e s) \<and> idem_inv (store_step e s)"
proof (cases e)
  case (CallBegin t newID kind name key fp)
  then show ?thesis using Begin_inv [OF assms(1,2)] assms(3) by (simp add: store_step_def fresh_call_def)
next
  case (CallFinish t w e)
  then show ?thesis using Finish_inv [OF assms(1,2)] by (simp add: store_step_def)
next
  case (CallWarnings t w ws)
  then show ?thesis using mutate_inv [OF assms(1,2), of "\<lambda>x. x \<lparr> op_Warnings := ws \<rparr>" t w]
    by (simp add: store_step_def SetWarnings_def)
next
  case (CallProgress t w p)
  then show ?thesis using mutate_inv [OF assms(1,2), of "\<lambda>x. x \<lparr> op_Progress := take 4096 p \<rparr>" t w]
    by (simp add: store_step_def SetProgress_def)
next
  case (CallConfigure t w c)
  then show ?thesis using mutate_inv [OF assms(1,2), of "\<lambda>x. x \<lparr> op_Configure := Some c \<rparr>" t w]
    by (simp add: store_step_def SetConfigure_def)
next
  case (CallRun t w r)
  then show ?thesis using mutate_inv [OF assms(1,2), of "\<lambda>x. x \<lparr> op_Run := Some r \<rparr>" t w]
    by (simp add: store_step_def SetRun_def)
next
  case CallSubscribe
  then have "store_step e s = fst (Subscribe s)" by (simp add: store_step_def)
  then show ?thesis using assms(1,2) sub_frame(1) [of s] by (metis rec_inv_cong idem_inv_cong)
next
  case (CallCancel i a)
  then have "store_step e s = sub_cancel i a s" by (simp add: store_step_def)
  then show ?thesis using assms(1,2) sub_frame(2) [of i a s] by (metis rec_inv_cong idem_inv_cong)
next
  case (CallReceive a)
  then have "store_step e s = sub_receive a s" by (simp add: store_step_def)
  then show ?thesis using assms(1,2) sub_frame(3) [of a s] by (metis rec_inv_cong idem_inv_cong)
qed

section \<open>The event feed\<close>

definition stream :: "chan \<Rightarrow> Event list" where
  "stream ch = ch_seen ch @ ch_buf ch"

definition gapless :: "Event list \<Rightarrow> bool" where
  "gapless es \<longleftrightarrow> successively (\<lambda>x y. ev_ID y = ev_ID x + 1) es"

definition up_to :: "u64 \<Rightarrow> chan \<Rightarrow> bool" where
  "up_to n ch \<longleftrightarrow> stream ch = [] \<or> ev_ID (last (stream ch)) = n"

definition sub_ok :: "u64 \<Rightarrow> chan list \<Rightarrow> u64 \<times> nat \<Rightarrow> bool" where
  "sub_ok n chs p \<longleftrightarrow> snd p < length chs \<and> \<not> ch_closed (chs ! snd p) \<and> up_to n (chs ! snd p)"

definition due :: "(u64 \<times> nat) list \<Rightarrow> u64 \<Rightarrow> u64 \<times> nat \<Rightarrow> u64" where
  "due ps n p = (if p \<in> set ps then n - 1 else n)"

text \<open>While the event is being offered, the subscribers in \<open>ps\<close> have not seen it yet.\<close>

definition feed_inv :: "(u64 \<times> nat) list \<Rightarrow> ('c, 'r) Store \<Rightarrow> bool" where
  "feed_inv ps s \<longleftrightarrow> distinct (map fst (subscribers s)) \<and> distinct (map snd (subscribers s))
     \<and> distinct ps \<and> set ps \<subseteq> set (subscribers s)
     \<and> (\<forall>p \<in> set (subscribers s). sub_ok (due ps (nextEvent s) p) (channels s) p)
     \<and> (\<forall>ch \<in> set (channels s). gapless (stream ch) \<and> length (ch_buf ch) \<le> eventBuffer s)"

abbreviation chan_inv :: "('c, 'r) Store \<Rightarrow> bool" where
  "chan_inv \<equiv> feed_inv []"

lemma gapless_snoc: "gapless (xs @ [e]) \<longleftrightarrow> gapless xs \<and> (xs = [] \<or> ev_ID e = ev_ID (last xs) + 1)"
  by (auto simp: gapless_def successively_append_iff)

lemma distinct_map_unique: "distinct (map f xs) \<Longrightarrow> x \<in> set xs \<Longrightarrow> y \<in> set xs \<Longrightarrow> f x = f y \<Longrightarrow> x = y"
  by (auto simp: distinct_map dest: inj_onD)

lemma distinct_snd_delete: "distinct (map snd al) \<Longrightarrow> distinct (map snd (AList.delete k al))"
  by (induct al) (auto simp: AList.delete_eq)

lemma set_delete: "set (AList.delete k al) = {p \<in> set al. fst p \<noteq> k}"
  by (auto simp: AList.delete_eq)

lemma offer_inv:
  assumes "feed_inv (p # ps) s" "ev_ID ev = nextEvent s"
  shows "feed_inv ps (offer ev p s)"
proof -
  let ?ch = "channels s ! snd p"
  have p: "p \<in> set (subscribers s)" "p \<notin> set ps" "snd p < length (channels s)" "\<not> ch_closed ?ch"
    "up_to (nextEvent s - 1) ?ch" "gapless (stream ?ch)" "length (ch_buf ?ch) \<le> eventBuffer s"
    using assms(1) by (auto simp: feed_inv_def sub_ok_def due_def)
  have "distinct (map fst (subscribers s))" "distinct (map snd (subscribers s))"
    using assms(1) by (simp_all add: feed_inv_def)
  then have other: "q \<in> set (subscribers s) \<Longrightarrow> q \<noteq> p \<Longrightarrow> snd q \<noteq> snd p \<and> fst q \<noteq> fst p" for q
    using p(1) by (metis distinct_map_unique)
  have old: "sub_ok (due ps (nextEvent s) q) (channels s) q" if "q \<in> set (subscribers s)" "q \<noteq> p" for q
    using assms(1) that by (auto simp: feed_inv_def due_def)
  have chans: "gapless (stream ch) \<and> length (ch_buf ch) \<le> eventBuffer s"
    if "ch \<in> set ((channels s)[snd p := c])" "gapless (stream c)" "length (ch_buf c) \<le> eventBuffer s" for ch c
    using that assms(1) set_update_subset_insert [of "channels s" "snd p" c] unfolding feed_inv_def by auto
  show ?thesis
  proof (cases "length (ch_buf ?ch) < eventBuffer s")
    case True
    let ?ch' = "?ch \<lparr> ch_buf := ch_buf ?ch @ [ev] \<rparr>"
    have o: "offer ev p s = s \<lparr> channels := (channels s)[snd p := ?ch'] \<rparr>" using True by (simp add: offer_def Let_def)
    have "stream ?ch' = stream ?ch @ [ev]" by (simp add: stream_def)
    then have g: "gapless (stream ?ch')" "up_to (nextEvent s) ?ch'"
      using p(5,6) assms(2) by (auto simp: gapless_snoc up_to_def)
    have "sub_ok (due ps (nextEvent s) q) ((channels s)[snd p := ?ch']) q"
      if "q \<in> set (subscribers s)" for q
      using p g(2) old [OF that] other [OF that] by (cases "q = p") (auto simp: sub_ok_def due_def)
    then show ?thesis
      using assms(1) chans [OF _ g(1)] True unfolding feed_inv_def o by auto
  next
    case False
    let ?ch' = "?ch \<lparr> ch_closed := True \<rparr>"
    let ?subs = "AList.delete (fst p) (subscribers s)"
    have o: "offer ev p s = s \<lparr> channels := (channels s)[snd p := ?ch'], subscribers := ?subs \<rparr>"
      using False by (simp add: offer_def Let_def)
    have g: "gapless (stream ?ch')" using p(6) by (simp add: stream_def)
    have d: "distinct (map fst ?subs)" "distinct (map snd ?subs)"
      using assms(1) distinct_delete distinct_snd_delete by (auto simp: feed_inv_def)
    have sub: "set ps \<subseteq> set ?subs"
      using assms(1) p(2) other by (fastforce simp: feed_inv_def set_delete)
    have "sub_ok (due ps (nextEvent s) q) ((channels s)[snd p := ?ch']) q"
      if "q \<in> set ?subs" for q
      using that old [of q] other [of q] by (cases "q = p") (auto simp: set_delete sub_ok_def)
    then show ?thesis
      using assms(1) chans [OF _ g] p(7) d sub unfolding feed_inv_def o by auto
  qed
qed

lemma feed_inv_cong:
  "subscribers s' = subscribers s \<Longrightarrow> channels s' = channels s \<Longrightarrow> nextEvent s' = nextEvent s \<Longrightarrow> eventBuffer s' = eventBuffer s
    \<Longrightarrow> feed_inv ps s' = feed_inv ps s"
  by (simp add: feed_inv_def)

lemma fold_offer_inv: "feed_inv ps s \<Longrightarrow> ev_ID ev = nextEvent s \<Longrightarrow> chan_inv (fold (offer ev) ps s)"
proof (induct ps arbitrary: s)
  case (Cons p ps)
  then show ?case using offer_inv [OF Cons.prems] by (simp add: offer_frame)
qed simp

lemma publish_inv:
  assumes "chan_inv s"
  shows "chan_inv (publishLocked t y r s)"
proof -
  let ?s = "s \<lparr> nextEvent := nextEvent s + 1 \<rparr>"
  have "distinct (subscribers s)" using assms by (simp add: feed_inv_def distinct_map)
  then have "feed_inv (subscribers ?s) ?s" using assms by (simp add: feed_inv_def due_def)
  then show ?thesis using fold_offer_inv [of _ ?s] by (simp add: publishLocked_def Let_def)
qed

lemma prune_frame:
  "subscribers (pruneLocked s) = subscribers s \<and> channels (pruneLocked s) = channels s
    \<and> nextEvent (pruneLocked s) = nextEvent s \<and> eventBuffer (pruneLocked s) = eventBuffer s"
proof (induct s rule: pruneLocked.induct)
  case (1 s)
  obtain s1 b where r: "removeOldestCompletedLocked s = (s1, b)" by fastforce
  show ?case
  proof (cases "length (records s) \<le> maxOperations s")
    case True
    then show ?thesis by (simp add: prune_small)
  next
    case False
    then have "pruneLocked s = (if b then pruneLocked s1 else s1)"
      by (subst pruneLocked.simps) (simp add: r split: bool.split)
    then show ?thesis using 1 [OF False r [symmetric]] remove_frame [OF r] by (cases b) simp_all
  qed
qed

lemma op_admit_chan:
  assumes "chan_inv s"
  shows "chan_inv (fst (op_admit t i kd nm k fp s))"
  unfolding op_admit_def Let_def fst_conv
  by (rule publish_inv, subst feed_inv_cong [of _ s]) (simp_all add: prune_frame assms)

lemma set_update_subset: "set (AList.update k v al) \<subseteq> insert (k, v) (set al)"
  by (induct al) auto

lemma distinct_snd_update: "distinct (map snd al) \<Longrightarrow> a \<notin> snd ` set al \<Longrightarrow> distinct (map snd (AList.update k a al))"
proof (induct al)
  case (Cons p al)
  then show ?case using set_update_subset [of k a al] by (cases p) force
qed simp

lemma Subscribe_chan:
  assumes "chan_inv s"
  shows "chan_inv (fst (Subscribe s))"
proof (cases "maxSubscribers s \<le> length (subscribers s)")
  case False
  let ?i = "nextSubscriber s + 1" and ?a = "length (channels s)"
  let ?c = "\<lparr> ch_buf = [], ch_closed = False, ch_seen = [] \<rparr>" and ?subs = "AList.update (nextSubscriber s + 1) (length (channels s)) (subscribers s)"
  have old: "sub_ok (nextEvent s) (channels s) q" if "q \<in> set (subscribers s)" for q
    using assms that by (simp add: feed_inv_def due_def)
  have new: "sub_ok (nextEvent s) (channels s @ [?c]) q" if "q \<in> set ?subs" for q
    using that set_update_subset [of ?i ?a "subscribers s"] old [of q]
    by (auto simp: sub_ok_def up_to_def stream_def nth_append)
  have "?a \<notin> snd ` set (subscribers s)" using old unfolding sub_ok_def by (metis imageE less_irrefl)
  then have "distinct (map snd ?subs)" "distinct (map fst ?subs)"
    using assms distinct_snd_update by (auto simp: feed_inv_def distinct_update)
  then show ?thesis using assms new False
    by (simp add: Subscribe_def Let_def feed_inv_def due_def gapless_def stream_def)
qed (use assms in \<open>simp add: Subscribe_def\<close>)

lemma cancel_chan:
  assumes "chan_inv s"
  shows "chan_inv (sub_cancel i a s)"
proof (cases "map_of (subscribers s) i = Some a")
  case True
  then have m: "(i, a) \<in> set (subscribers s)" by (rule map_of_SomeD)
  let ?c = "(channels s ! a) \<lparr> ch_closed := True \<rparr>"
  have d: "distinct (map snd (AList.delete i (subscribers s)))" "distinct (map fst (AList.delete i (subscribers s)))"
    using assms distinct_snd_delete distinct_delete by (auto simp: feed_inv_def)
  have a: "a < length (channels s)" using assms m by (auto simp: feed_inv_def sub_ok_def)
  have "sub_ok (nextEvent s) ((channels s)[a := ?c]) q" if "q \<in> set (AList.delete i (subscribers s))" for q
  proof -
    have q: "q \<in> set (subscribers s)" "fst q \<noteq> i" using that by (simp_all add: set_delete)
    have "distinct (map snd (subscribers s))" using assms by (simp add: feed_inv_def)
    then have "snd q \<noteq> a" using q m distinct_map_unique [of snd "subscribers s" q "(i, a)"] by (metis fst_conv snd_conv)
    then show ?thesis using assms q(1) by (simp add: feed_inv_def due_def sub_ok_def)
  qed
  moreover have "gapless (stream ch) \<and> length (ch_buf ch) \<le> eventBuffer s" if "ch \<in> set ((channels s)[a := ?c])" for ch
    using that assms a set_update_subset_insert [of "channels s" a ?c] by (auto simp: feed_inv_def stream_def)
  ultimately show ?thesis using d True by (simp add: sub_cancel_def feed_inv_def due_def)
qed (use assms in \<open>simp add: sub_cancel_def\<close>)

lemma receive_chan:
  assumes "chan_inv s"
  shows "chan_inv (sub_receive a s)"
proof (cases "a < length (channels s) \<and> ch_buf (channels s ! a) \<noteq> []")
  case True
  then obtain ev evs where b: "ch_buf (channels s ! a) = ev # evs" by (cases "ch_buf (channels s ! a)") auto
  let ?c = "(channels s ! a) \<lparr> ch_buf := evs, ch_seen := ch_seen (channels s ! a) @ [ev] \<rparr>"
  have st: "stream ?c = stream (channels s ! a)" using b by (simp add: stream_def)
  have "length (ch_buf (channels s ! a)) \<le> eventBuffer s" using assms True by (simp add: feed_inv_def)
  then have len: "length (ch_buf ?c) \<le> eventBuffer s" using b by simp
  have "sub_ok (nextEvent s) ((channels s)[a := ?c]) q" if "q \<in> set (subscribers s)" for q
    using assms that st True by (cases "snd q = a") (auto simp: feed_inv_def due_def sub_ok_def up_to_def)
  moreover have "gapless (stream ch) \<and> length (ch_buf ch) \<le> eventBuffer s" if "ch \<in> set ((channels s)[a := ?c])" for ch
    using that assms True st len set_update_subset_insert [of "channels s" a ?c] by (auto simp: feed_inv_def)
  ultimately show ?thesis using assms True b by (simp add: sub_receive_def feed_inv_def due_def)
qed (use assms in \<open>auto simp: sub_receive_def split: list.split\<close>)

section \<open>Properties\<close>

lemma mutate_chan: "chan_inv s \<Longrightarrow> chan_inv (fst (mutate t w f s))"
  by (simp add: mutate_def feed_inv_def split: option.split)

lemma Finish_chan:
  assumes "chan_inv s"
  shows "chan_inv (fst (op_Finish t w e s))"
proof (cases "ownedRunningLocked w s")
  case None
  then show ?thesis using assms by (simp add: op_Finish_def)
next
  case (Some r)
  show ?thesis unfolding Finish_owned [OF Some] fst_conv
    by (rule publish_inv, subst feed_inv_cong [of _ s]) (simp_all add: assms)
qed

lemma Begin_chan:
  assumes "chan_inv s"
  shows "chan_inv (fst (Begin t newID kind name key fp s))"
proof (cases rule: Begin_cases [of t newID kind name key fp s])
  case (evict s1)
  have "chan_inv s1" using assms remove_frame [OF evict(2)] feed_inv_cong [of s1 s "[]"] by simp
  then show ?thesis using op_admit_chan evict(4) by simp
qed (use assms op_admit_chan in simp_all)

lemma store_step_chan:
  assumes "chan_inv s"
  shows "chan_inv (store_step e s)"
  by (cases e) (simp_all add: store_step_def SetWarnings_def SetProgress_def SetConfigure_def SetRun_def assms
      mutate_chan Finish_chan Begin_chan Subscribe_chan cancel_chan receive_chan)

lemma reachable_inv: "store_reachable s \<Longrightarrow> rec_inv s \<and> idem_inv s \<and> chan_inv s"
proof (induct rule: store_reachable.induct)
  case (store_init a b c s)
  then show ?case by (auto simp: store_New_def rec_inv_def idem_inv_def feed_inv_def split: if_splits)
next
  case (store_call s e)
  then show ?case using store_step_inv store_step_chan by blast
qed

text \<open>A run of calls, with an identifier for every admission that is new to the store.\<close>

fun store_run :: "('c, 'r) store_call list \<Rightarrow> ('c, 'r) Store \<Rightarrow> ('c, 'r) Store" where
  "store_run [] s = s"
| "store_run (e # es) s = store_run es (store_step e s)"

fun fresh_run :: "('c, 'r) store_call list \<Rightarrow> ('c, 'r) Store \<Rightarrow> bool" where
  "fresh_run [] s = True"
| "fresh_run (e # es) s = (fresh_call e s \<and> fresh_run es (store_step e s))"

text \<open>The owner is not the owner of a running record, and its generation has been handed out.\<close>

definition spent :: "OpOwner \<Rightarrow> ('c, 'r) Store \<Rightarrow> bool" where
  "spent w s \<longleftrightarrow> ownedRunningLocked w s = None \<and> ow_generation w \<le> nextGeneration s"

text \<open>Where a record comes from after a call: it was there, it is a rewriting by its running owner, or it
  is new with the next generation.\<close>

definition record_origin :: "('c, 'r) Store \<Rightarrow> ('c, 'r) Store \<Rightarrow> string \<Rightarrow> ('c, 'r) op_record \<Rightarrow> bool" where
  "record_origin s s' j r' \<longleftrightarrow> map_of (records s) j = Some r'
     \<or> (\<exists>r. map_of (records s) j = Some r \<and> rec_phase r = Running \<and> rec_owner r' = rec_owner r)
     \<or> (ow_generation (rec_owner r') = nextGeneration s + 1 \<and> nextGeneration s' = nextGeneration s + 1)"

definition traced_step :: "('c, 'r) Store \<Rightarrow> ('c, 'r) Store \<Rightarrow> bool" where
  "traced_step s s' \<longleftrightarrow> (\<forall>j r'. map_of (records s') j = Some r' \<longrightarrow> record_origin s s' j r')
     \<and> (nextGeneration s' = nextGeneration s \<or> nextGeneration s' = nextGeneration s + 1)"

lemma traced_same: "records s' = records s \<Longrightarrow> nextGeneration s' = nextGeneration s \<Longrightarrow> traced_step s s'"
  by (simp add: traced_step_def record_origin_def)

lemma traced_rewrite:
  assumes "ownedRunningLocked w s = Some r" "rec_owner r' = rec_owner r"
    and "records s' = AList.update (ow_id w) r' (records s)" "nextGeneration s' = nextGeneration s"
  shows "traced_step s s'"
  using owned_Some [OF assms(1)] assms(2-4) by (auto simp: traced_step_def record_origin_def update_conv' split: if_splits)

lemma op_admit_fields:
  assumes "length (AList.update i r0 (records s)) \<le> maxOperations s"
    and "r0 = new_record t \<lparr> ow_id = i, ow_generation = nextGeneration s + 1, ow_kind = kd, ow_sandbox = nm \<rparr> k fp"
  shows "records (fst (op_admit t i kd nm k fp s)) = AList.update i r0 (records s)
    \<and> nextGeneration (fst (op_admit t i kd nm k fp s)) = nextGeneration s + 1"
  using assms by (cases "k = []") (simp_all add: op_admit_def Let_def prune_small)

lemma traced_admit:
  assumes "length (records s) < maxOperations s" "i \<notin> fst ` set (records s)"
  shows "traced_step s (fst (op_admit t i kd nm k fp s))"
proof -
  let ?r = "new_record t \<lparr> ow_id = i, ow_generation = nextGeneration s + 1, ow_kind = kd, ow_sandbox = nm \<rparr> k fp"
  have "length (AList.update i ?r (records s)) \<le> maxOperations s"
    using assms by (simp add: length_update_absent)
  from op_admit_fields [OF this refl] show ?thesis
    by (auto simp: traced_step_def record_origin_def update_conv' split: if_splits)
qed

lemma traced_remove:
  assumes "removeOldestCompletedLocked s = (s1, b)" "traced_step s1 s'"
  shows "traced_step s s'"
proof -
  have "map_of (records s1) j = Some r \<Longrightarrow> map_of (records s) j = Some r" for j r
    using assms(1) by (auto simp: removeOldestCompletedLocked_def delete_conv' split: option.splits if_splits)
  then show ?thesis using assms(2) remove_frame [OF assms(1)] by (fastforce simp: traced_step_def record_origin_def)
qed

lemma traced_mutate: "traced_step s (fst (mutate t w f s))"
proof (cases "ownedRunningLocked w s")
  case (Some r)
  then show ?thesis
    by (intro traced_rewrite [OF Some, of "r \<lparr> rec_op := (f (rec_op r)) \<lparr> op_Updated := t \<rparr> \<rparr>"]) (simp_all add: mutate_def)
qed (simp add: mutate_def traced_same)

lemma traced_Finish: "traced_step s (fst (op_Finish t w e s))"
proof (cases "ownedRunningLocked w s")
  case (Some r)
  then show ?thesis unfolding Finish_owned [OF Some]
    by (intro traced_rewrite [OF Some, of "finished t e r"]) (simp_all add: finished_def)
qed (simp add: op_Finish_def traced_same)

lemma traced_Begin:
  assumes "rec_inv s" "idem_inv s" "newID \<notin> fst ` set (records s)"
  shows "traced_step s (fst (Begin t newID kind name key fp s))"
proof (cases rule: Begin_cases [of t newID kind name key fp s])
  case same
  then show ?thesis by (simp add: traced_same)
next
  case op_admit
  then show ?thesis using traced_admit [OF op_admit(1) assms(3)] by simp
next
  case (evict s1)
  have "length (records s1) < maxOperations s1" "newID \<notin> fst ` set (records s1)"
    using remove_inv [OF assms(1,2) evict(2)] remove_frame [OF evict(2)] remove_keys_subset [OF evict(2)] assms(1,3)
    by (auto simp: rec_inv_def)
  from traced_remove [OF evict(2) traced_admit [OF this]] evict(4) show ?thesis by simp
qed

lemma traced_store_step:
  assumes "rec_inv s" "idem_inv s" "fresh_call e s"
  shows "traced_step s (store_step e s)"
proof (cases e)
  case (CallBegin t i kd nm k fp)
  then show ?thesis using traced_Begin [OF assms(1,2)] assms(3) by (simp add: store_step_def fresh_call_def)
qed (simp_all add: store_step_def SetWarnings_def SetProgress_def SetConfigure_def SetRun_def
    traced_mutate traced_Finish traced_same sub_frame)

section \<open>Completion happens once\<close>

definition gen_inv :: "('c, 'r) Store \<Rightarrow> bool" where
  "gen_inv s \<longleftrightarrow> (\<forall>j r. map_of (records s) j = Some r \<longrightarrow> ow_generation (rec_owner r) \<le> nextGeneration s)"

lemma generation_step:
  assumes "traced_step s s'" "Suc (unat (nextGeneration s)) < 2 ^ 64"
  shows "nextGeneration s \<le> nextGeneration s'" "unat (nextGeneration s') \<le> Suc (unat (nextGeneration s))"
    and "nextGeneration s < nextGeneration s + 1"
proof -
  have u: "unat (nextGeneration s + 1) = Suc (unat (nextGeneration s))"
    using assms(2) by (subst unat_add_no_wrap) simp_all
  then show "nextGeneration s < nextGeneration s + 1" by (simp add: word_less_nat_alt)
  show "nextGeneration s \<le> nextGeneration s'" "unat (nextGeneration s') \<le> Suc (unat (nextGeneration s))"
    using assms(1) u by (auto simp: traced_step_def word_le_nat_alt)
qed

lemma gen_step:
  assumes "traced_step s s'" "Suc (unat (nextGeneration s)) < 2 ^ 64" "gen_inv s"
  shows "gen_inv s'"
  unfolding gen_inv_def
proof (intro allI impI)
  fix j r
  assume "map_of (records s') j = Some r"
  then have "record_origin s s' j r" using assms(1) by (auto simp: traced_step_def)
  then show "ow_generation (rec_owner r) \<le> nextGeneration s'"
    using assms(3) generation_step(1) [OF assms(1,2)] unfolding record_origin_def gen_inv_def
    by (metis order.trans order.refl)
qed

lemma spent_step:
  assumes "traced_step s s'" "Suc (unat (nextGeneration s)) < 2 ^ 64" "spent w s"
  shows "spent w s'"
proof -
  have "ownedRunningLocked w s' = None"
  proof (rule ccontr)
    assume "ownedRunningLocked w s' \<noteq> None"
    then obtain r' where r': "ownedRunningLocked w s' = Some r'" by blast
    note o = owned_Some [OF r']
    then have origin: "record_origin s s' (ow_id w) r'" using assms(1) by (auto simp: traced_step_def)
    have none: "\<not> (map_of (records s) (ow_id w) = Some r \<and> rec_phase r = Running \<and> rec_owner r = w)" for r
      using assms(3) o by (auto simp: spent_def ownedRunningLocked_def)
    have "\<not> ow_generation w = nextGeneration s + 1"
      using assms(3) generation_step(3) [OF assms(1,2)] by (auto simp: spent_def)
    then show False using origin o none unfolding record_origin_def by metis
  qed
  then show ?thesis using assms(3) generation_step(1) [OF assms(1,2)] by (auto simp: spent_def)
qed

lemma run_generation:
  assumes "rec_inv s" "idem_inv s" "fresh_run es s" "unat (nextGeneration s) + length es < 2 ^ 64 - 1"
  shows "rec_inv (store_run es s) \<and> idem_inv (store_run es s)
    \<and> unat (nextGeneration (store_run es s)) \<le> unat (nextGeneration s) + length es
    \<and> (gen_inv s \<longrightarrow> gen_inv (store_run es s)) \<and> (spent w s \<longrightarrow> spent w (store_run es s))"
  using assms
proof (induct es arbitrary: s)
  case (Cons e es)
  have f: "fresh_call e s" using Cons.prems(3) by simp
  have t: "traced_step s (store_step e s)" using traced_store_step [OF Cons.prems(1,2) f] .
  have n: "Suc (unat (nextGeneration s)) < 2 ^ 64" using Cons.prems(4) by simp
  have i: "rec_inv (store_step e s)" "idem_inv (store_step e s)" using store_step_inv [OF Cons.prems(1,2) f] by auto
  have "unat (nextGeneration (store_step e s)) + length es < 2 ^ 64 - 1"
    using generation_step(2) [OF t n] Cons.prems(4) by simp
  from Cons.hyps [OF i _ this] Cons.prems(3)
  show ?case using generation_step(2) [OF t n] gen_step [OF t n] spent_step [OF t n, of w] by auto
qed simp

lemma run_append: "store_run (es @ fs) s = store_run fs (store_run es s)"
  by (induct es arbitrary: s) simp_all

lemma fresh_append: "fresh_run (es @ fs) s \<longleftrightarrow> fresh_run es s \<and> fresh_run fs (store_run es s)"
  by (induct es arbitrary: s) auto

lemma Finish_spends:
  assumes "op_Finish t w e s = (s1, Inr x)" "gen_inv s"
  shows "spent w s1"
proof -
  obtain r where r: "ownedRunningLocked w s = Some r"
    using assms(1) by (cases "ownedRunningLocked w s") (auto simp: op_Finish_def)
  have s1: "records s1 = AList.update (ow_id w) (finished t e r) (records s)" "nextGeneration s1 = nextGeneration s"
    using assms(1) unfolding Finish_owned [OF r] by auto
  have "rec_phase (finished t e r) \<noteq> Running" by (simp add: finished_def)
  then have "ownedRunningLocked w s1 = None" by (simp add: ownedRunningLocked_def s1 update_conv')
  then show ?thesis using owned_Some [OF r] assms(2) s1(2) by (auto simp: spent_def gen_inv_def)
qed

lemma spent_rejected:
  assumes "ownedRunningLocked w s = None"
  shows "op_Finish t w e s = (s, Inl (CompletionRejected (ow_id w)))"
    "mutate t w f s = (s, Some (CompletionRejected (ow_id w)))"
  using assms by (simp_all add: op_Finish_def mutate_def)

section \<open>Running operations stay\<close>

definition kept :: "('c, 'r) store_call \<Rightarrow> ('c, 'r) Store \<Rightarrow> string \<Rightarrow> ('c, 'r) op_record \<Rightarrow> bool" where
  "kept e s' j r \<longleftrightarrow> (\<exists>r'. map_of (records s') j = Some r' \<and> rec_owner r' = rec_owner r \<and> rec_key r' = rec_key r
     \<and> (rec_phase r' = Running \<or> (case e of CallFinish t w x \<Rightarrow> w = rec_owner r | _ \<Rightarrow> False)))"

lemma kept_same: "map_of (records s') j = Some r \<Longrightarrow> rec_phase r = Running \<Longrightarrow> kept e s' j r"
  by (simp add: kept_def)

lemma kept_admit:
  assumes "length (records s) < maxOperations s" "i \<notin> fst ` set (records s)" "map_of (records s) j = Some r"
  shows "map_of (records (fst (op_admit t i kd nm k fp s))) j = Some r"
proof -
  let ?r = "new_record t \<lparr> ow_id = i, ow_generation = nextGeneration s + 1, ow_kind = kd, ow_sandbox = nm \<rparr> k fp"
  have l: "length (AList.update i ?r (records s)) \<le> maxOperations s"
    using assms by (simp add: length_update_absent)
  have "j \<noteq> i" using assms(2,3) by (metis domI dom_map_of_conv_image_fst)
  then show ?thesis using op_admit_fields [OF l refl] assms(3) by (simp add: update_conv')
qed

lemma kept_remove:
  assumes "removeOldestCompletedLocked s = (s1, b)" "map_of (records s) j = Some r" "rec_phase r = Running"
  shows "map_of (records s1) j = Some r"
proof (cases "split_completed s (order s)")
  case (Some sp)
  obtain xs i ys where sp: "split_completed s (order s) = Some (xs, i, ys)" using Some by (cases sp) auto
  then have "i \<noteq> j" using split_completed_terminal [OF sp, of r] assms(2,3) by (auto simp: terminal_def)
  then show ?thesis using assms(1,2) sp by (auto simp: removeOldestCompletedLocked_def)
qed (use assms in \<open>simp add: removeOldestCompletedLocked_def\<close>)

lemma kept_mutate:
  assumes "map_of (records s) j = Some r" "rec_phase r = Running"
  shows "kept e (fst (mutate t w f s)) j r"
proof (cases "ownedRunningLocked w s")
  case (Some q)
  then show ?thesis using assms owned_Some [OF Some]
    by (cases "j = ow_id w") (auto simp: mutate_def kept_def update_conv')
qed (use assms in \<open>simp add: mutate_def kept_same\<close>)

lemma kept_Finish:
  assumes "map_of (records s) j = Some r" "rec_phase r = Running"
  shows "kept (CallFinish t w x) (fst (op_Finish t w x s)) j r"
proof (cases "ownedRunningLocked w s")
  case (Some q)
  then show ?thesis using assms owned_Some [OF Some] unfolding Finish_owned [OF Some]
    by (cases "j = ow_id w") (auto simp: kept_def update_conv' finished_def)
qed (use assms in \<open>simp add: op_Finish_def kept_same\<close>)

lemma kept_step:
  assumes "rec_inv s" "idem_inv s" "fresh_call e s" "map_of (records s) j = Some r" "rec_phase r = Running"
  shows "kept e (store_step e s) j r"
proof (cases e)
  case (CallBegin t i kd nm k fp)
  have i: "i \<notin> fst ` set (records s)" using assms(3) CallBegin by (simp add: fresh_call_def)
  have "map_of (records (fst (Begin t i kd nm k fp s))) j = Some r"
  proof (cases rule: Begin_cases [of t i kd nm k fp s])
    case op_admit
    then show ?thesis using kept_admit [OF op_admit(1) i assms(4)] by simp
  next
    case (evict s1)
    have "length (records s1) < maxOperations s1" "i \<notin> fst ` set (records s1)"
      using remove_inv [OF assms(1,2) evict(2)] remove_frame [OF evict(2)] remove_keys_subset [OF evict(2)] assms(1) i
      by (auto simp: rec_inv_def)
    from kept_admit [OF this kept_remove [OF evict(2) assms(4,5)]] evict(4) show ?thesis by simp
  qed (use assms in simp)
  then show ?thesis using CallBegin assms(5) by (simp add: store_step_def kept_same)
qed (simp_all add: store_step_def SetWarnings_def SetProgress_def SetConfigure_def SetRun_def sub_frame
    kept_mutate [OF assms(4,5)] kept_Finish [OF assms(4,5)] kept_same assms)

text \<open>C21.  The operation store of the manager is safe in every reachable state and for every call: the
  stored records never exceed the capacity; every idempotency key leads to exactly the stored record admitted with it,
  so a retried request finds its operation and no key has two; a running operation is never evicted, and only its
  own owner can end it; and every subscriber's event stream has consecutive numbers without a gap, reaching
  the latest event as long as the subscription is open.\<close>

theorem operation_store_safe:
  assumes "store_reachable s" "fresh_call e s"
  shows "length (records s) \<le> maxOperations s
    \<and> (\<forall>k i fp. map_of (idempotency s) k = Some (i, fp) \<longleftrightarrow>
         k \<noteq> '''' \<and> (\<exists>r. map_of (records s) i = Some r \<and> rec_key r = k \<and> rec_fingerprint r = fp))
    \<and> (\<forall>j r. map_of (records s) j = Some r \<longrightarrow> rec_phase r = Running \<longrightarrow> kept e (store_step e s) j r)
    \<and> (\<forall>ch \<in> set (channels s). gapless (ch_seen ch @ ch_buf ch))
    \<and> (\<forall>p \<in> set (subscribers s). sub_ok (nextEvent s) (channels s) p)"
proof -
  have inv: "rec_inv s" "idem_inv s" "chan_inv s" using reachable_inv [OF assms(1)] by auto
  have "kept e (store_step e s) j r" if "map_of (records s) j = Some r" "rec_phase r = Running" for j r
    using kept_step [OF inv(1,2) assms(2) that] .
  moreover have "length (records s) \<le> maxOperations s" using inv(1) by (simp add: rec_inv_def)
  moreover have "(\<forall>ch \<in> set (channels s). gapless (ch_seen ch @ ch_buf ch))
      \<and> (\<forall>p \<in> set (subscribers s). sub_ok (nextEvent s) (channels s) p)"
    using inv(3) by (simp add: feed_inv_def stream_def due_def)
  ultimately show ?thesis using inv(2) unfolding idem_inv_def by blast
qed

text \<open>C23.  Completion is exactly once.  From a new store, after any calls, once \<open>Finish\<close> has been accepted
  for an owner, every later \<open>Finish\<close> and every later update with that owner is rejected and changes nothing,
  whatever happens in between -- even if the record is evicted and its identifier is used again -- as long as
  fewer than \<open>2 ^ 64 - 1\<close> calls are made, so that the generation counter does not wrap.\<close>

theorem completion_once:
  assumes "store_New a b c = Some s0" "fresh_run (es @ [CallFinish t w x] @ fs) s0"
    and "length (es @ [CallFinish t w x] @ fs) < 2 ^ 64 - 1"
    and "op_Finish t w x (store_run es s0) = (s1, Inr y)"
  shows "op_Finish t' w x' (store_run fs s1) = (store_run fs s1, Inl (CompletionRejected (ow_id w)))
    \<and> mutate t' w f (store_run fs s1) = (store_run fs s1, Some (CompletionRejected (ow_id w)))"
proof -
  have "store_reachable s0" using assms(1) by (rule store_init)
  then have inv: "rec_inv s0" "idem_inv s0" using reachable_inv by auto
  have s0: "nextGeneration s0 = 0" "gen_inv s0"
    using assms(1) by (auto simp: store_New_def gen_inv_def split: if_splits)
  let ?s = "store_run es s0"
  have fr: "fresh_run es s0" "fresh_run fs s1"
    using assms(2,4) by (auto simp: fresh_append store_step_def)
  have g: "rec_inv ?s" "idem_inv ?s" "gen_inv ?s" "unat (nextGeneration ?s) \<le> length es"
    using run_generation [OF inv fr(1), of w] s0 assms(3) by auto
  have i1: "rec_inv s1" "idem_inv s1" using Finish_inv [OF g(1,2), of t w x] assms(4) by auto
  have "traced_step ?s s1" using traced_Finish [of ?s t w x] assms(4) by simp
  then have n: "unat (nextGeneration s1) + length fs < 2 ^ 64 - 1"
    using generation_step(2) [of ?s s1] g(4) assms(3) by fastforce
  have "spent w s1" using Finish_spends [OF assms(4) g(3)] .
  then have "spent w (store_run fs s1)" using run_generation [OF i1 fr(2) n, of w] by blast
  then have o: "ownedRunningLocked w (store_run fs s1) = None" by (simp add: spent_def)
  show ?thesis using spent_rejected [OF o] by blast
qed

section \<open>A small run\<close>

definition demo_store :: "(nat, nat) Store" where
  "demo_store = \<lparr> records = [], order = [], idempotency = [], nextGeneration = 0, subscribers = [],
     nextSubscriber = 0, nextEvent = 0, maxOperations = 1, maxSubscribers = 1, eventBuffer = 4, channels = [] \<rparr>"

definition demo_calls :: "(nat, nat) store_call list" where
  "demo_calls = [CallSubscribe, CallBegin 1 ''a'' ''run'' ''vm'' ''k'' ''f'']"

definition demo_owner :: OpOwner where
  "demo_owner = \<lparr> ow_id = ''a'', ow_generation = 1, ow_kind = ''run'', ow_sandbox = ''vm'' \<rparr>"

lemma demo_New: "store_New 1 1 4 = Some demo_store"
  by (simp add: store_New_def demo_store_def)

lemma demo_validate: "validateIdempotencyKey ''k'' = None" "validateIdempotencyKey '''' = None"
  by (simp_all add: validateIdempotencyKey_def)

definition demo_state :: "(nat, nat) Store" where
  "demo_state = store_run demo_calls demo_store"

lemma demo_state_eq:
  "demo_state = (let r = new_record 1 demo_owner ''k'' ''f'' in demo_store \<lparr> nextSubscriber := 1, subscribers := [(1, 0)],
     nextGeneration := 1, records := [(''a'', r)], order := [''a''], idempotency := [(''k'', ''a'', ''f'')], nextEvent := 1,
     channels := [\<lparr> ch_buf = [\<lparr> ev_ID = 1, ev_Type = ''operation'', ev_OperationID = ''a'', ev_Sandbox = ''vm'',
       ev_State = ''running'', ev_Time = 1 \<rparr>], ch_closed = False, ch_seen = [] \<rparr>] \<rparr>)"
  by (simp add: demo_state_def demo_calls_def demo_store_def store_step_def Subscribe_def Begin_def demo_validate op_admit_def
      prune_small publishLocked_def offer_def demo_owner_def new_record_def op_String_def Let_def)

lemma demo_fresh: "fresh_run demo_calls demo_store"
  by (simp add: demo_calls_def demo_store_def fresh_call_def store_step_def Subscribe_def Let_def)

lemma demo_reachable: "store_reachable demo_state"
proof -
  have "store_reachable (store_run es s)" if "store_reachable s" "fresh_run es s" for es and s :: "(nat, nat) Store"
    using that by (induct es arbitrary: s) (auto intro: store_call)
  then show ?thesis unfolding demo_state_def using store_init [OF demo_New] demo_fresh by blast
qed

theorem operation_store_safe_witness:
  "length (records demo_state) = 1 \<and> length (records demo_state) \<le> maxOperations demo_state
   \<and> map_of (idempotency demo_state) ''k'' = Some (''a'', ''f'')
   \<and> kept (CallBegin 2 ''b'' ''run'' ''vm'' '''' ''f'') (store_step (CallBegin 2 ''b'' ''run'' ''vm'' '''' ''f'') demo_state)
       ''a'' (new_record 1 demo_owner ''k'' ''f'')
   \<and> list_all (\<lambda>p. sub_ok (nextEvent demo_state) (channels demo_state) p) (subscribers demo_state)"
proof -
  let ?e = "CallBegin 2 ''b'' ''run'' ''vm'' '''' ''f'' :: (nat, nat) store_call"
  have f: "fresh_call ?e demo_state" by (simp add: fresh_call_def demo_state_eq Let_def)
  have r: "map_of (records demo_state) ''a'' = Some (new_record 1 demo_owner ''k'' ''f'')" "length (records demo_state) = 1"
    by (simp_all add: demo_state_eq Let_def)
  show ?thesis
    using operation_store_safe [OF demo_reachable f] r by (simp add: list_all_iff)
qed

theorem completion_once_witness:
  "\<exists>s1 y. op_Finish 3 demo_owner None demo_state = (s1, Inr y)
     \<and> op_Finish 4 demo_owner None (store_run [CallSubscribe] s1)
         = (store_run [CallSubscribe] s1, Inl (CompletionRejected ''a''))"
proof -
  have o: "ownedRunningLocked demo_owner demo_state = Some (new_record 1 demo_owner ''k'' ''f'')"
    by (simp add: ownedRunningLocked_def demo_state_eq Let_def) (simp add: demo_owner_def)
  obtain s1 y where s1: "op_Finish 3 demo_owner None demo_state = (s1, Inr y)" using Finish_owned [OF o] by blast
  have "fresh_run (demo_calls @ [CallFinish 3 demo_owner None] @ [CallSubscribe]) demo_store"
    using demo_fresh by (simp add: fresh_append fresh_call_def)
  from completion_once [OF demo_New this _ s1 [unfolded demo_state_def]]
  show ?thesis using s1 by (auto simp: demo_calls_def demo_owner_def)
qed

end
