(* ===== verification/Runtime_Owner.thy ===== *)
theory Runtime_Owner
  imports Gantry_Prelude "HOL-Library.Sublist"
begin

text \<open>
  The process-level resources of the sandbox manager: \<open>Owner\<close> and \<open>TaskGroup\<close> of
  \<open>sandbox/manager/runtimeowner/owner.go\<close> with the task groups of \<open>sandbox/manager/service_runtime.go\<close> behind the
  owner's hooks.  \<open>Close\<close> runs beside every other call: its first section holds the admission lock and is one step,
  and each action after it is a step of its own.  Servers, listeners, receivers and the lock are identified by
  numbers.
\<close>

section \<open>Phases\<close>

datatype ro_phase = NewPhase | Locked | Listening | FeedsReadyPhase | Serving | Stopping | Stopped | Failed

definition ro_String :: "ro_phase \<Rightarrow> string" where
  "ro_String p = (case p of NewPhase \<Rightarrow> ''new'' | Locked \<Rightarrow> ''locked'' | Listening \<Rightarrow> ''listening''
     | FeedsReadyPhase \<Rightarrow> ''feeds-ready'' | Serving \<Rightarrow> ''serving'' | Stopping \<Rightarrow> ''stopping'' | Stopped \<Rightarrow> ''stopped''
     | Failed \<Rightarrow> ''failed'')"

datatype ro_error = InvalidTransition ro_phase ro_phase | LockNil | ServerRequired | WrongPhase string ro_phase

definition ro_transition :: "ro_phase \<Rightarrow> ro_phase \<Rightarrow> ro_error + ro_phase" where
  "ro_transition nxt p =
    (let valid = (case p of
         NewPhase \<Rightarrow> nxt = Locked \<or> nxt = Stopping \<or> nxt = Failed
       | Locked \<Rightarrow> nxt = Listening \<or> nxt = Stopping \<or> nxt = Failed
       | Listening \<Rightarrow> nxt = FeedsReadyPhase \<or> nxt = Stopping \<or> nxt = Failed
       | FeedsReadyPhase \<Rightarrow> nxt = Serving \<or> nxt = Stopping \<or> nxt = Failed
       | Serving \<Rightarrow> nxt = Stopping \<or> nxt = Failed
       | Stopping \<Rightarrow> nxt = Stopped \<or> nxt = Failed
       | Failed \<Rightarrow> nxt = Stopping \<or> nxt = Stopped
       | Stopped \<Rightarrow> False)
     in if \<not> valid then Inl (InvalidTransition p nxt) else Inr nxt)"

definition beginStop :: "ro_phase \<Rightarrow> ro_phase" where
  "beginStop p = (if p \<noteq> Stopped \<and> p \<noteq> Stopping then Stopping else p)"

section \<open>Task groups and the runtime of the manager service\<close>

text \<open>\<open>tg_workers\<close> is the count of the wait group.\<close>

record TaskGroup =
  tg_stopped :: bool
  tg_workers :: nat

definition tg_Acquire :: "TaskGroup \<Rightarrow> TaskGroup \<times> bool" where
  "tg_Acquire g = (if tg_stopped g then (g, False) else (g \<lparr> tg_workers := Suc (tg_workers g) \<rparr>, True))"

text \<open>The function \<open>Acquire\<close> returns; \<open>None\<close> is the panic of a negative counter.\<close>

definition tg_Done :: "TaskGroup \<Rightarrow> TaskGroup option" where
  "tg_Done g = (if tg_workers g = 0 then None else Some (g \<lparr> tg_workers := tg_workers g - 1 \<rparr>))"

text \<open>The argument says whether the task is a function, not nil.\<close>

definition tg_Start :: "bool \<Rightarrow> TaskGroup \<Rightarrow> TaskGroup \<times> bool" where
  "tg_Start run g = (if \<not> run then (g, False) else tg_Acquire g)"

definition tg_StopAdmission :: "TaskGroup \<Rightarrow> TaskGroup" where
  "tg_StopAdmission g = g \<lparr> tg_stopped := True \<rparr>"

text \<open>Whether \<open>Wait\<close> returns.\<close>

definition tg_Wait :: "TaskGroup \<Rightarrow> bool" where
  "tg_Wait g \<longleftrightarrow> tg_workers g = 0"

record managerRuntime =
  mr_cancelled :: bool
  requests :: TaskGroup
  background :: TaskGroup

definition newManagerRuntime :: managerRuntime where
  "newManagerRuntime = \<lparr> mr_cancelled = False, requests = \<lparr> tg_stopped = False, tg_workers = 0 \<rparr>,
     background = \<lparr> tg_stopped = False, tg_workers = 0 \<rparr> \<rparr>"

text \<open>The two ends of a request in \<open>OwnedHandler\<close>; the request is refused when the flag is \<open>False\<close>.\<close>

definition OwnedHandler_enter :: "managerRuntime \<Rightarrow> managerRuntime \<times> bool" where
  "OwnedHandler_enter r = (case tg_Acquire (requests r) of (g, adm) \<Rightarrow> (r \<lparr> requests := g \<rparr>, adm))"

definition OwnedHandler_leave :: "managerRuntime \<Rightarrow> managerRuntime option" where
  "OwnedHandler_leave r = map_option (\<lambda>g. r \<lparr> requests := g \<rparr>) (tg_Done (requests r))"

definition StartBackground :: "managerRuntime \<Rightarrow> managerRuntime \<times> bool" where
  "StartBackground r = (case tg_Start True (background r) of (g, adm) \<Rightarrow> (r \<lparr> background := g \<rparr>, adm))"

definition background_done :: "managerRuntime \<Rightarrow> managerRuntime option" where
  "background_done r = map_option (\<lambda>g. r \<lparr> background := g \<rparr>) (tg_Done (background r))"

definition mr_Cancel :: "managerRuntime \<Rightarrow> managerRuntime" where
  "mr_Cancel r = r \<lparr> mr_cancelled := True \<rparr>"

definition mr_StopAdmission :: "managerRuntime \<Rightarrow> managerRuntime" where
  "mr_StopAdmission r = mr_Cancel (r \<lparr> requests := tg_StopAdmission (requests r),
     background := tg_StopAdmission (background r) \<rparr>)"

definition JoinRequests :: "managerRuntime \<Rightarrow> bool" where
  "JoinRequests r = tg_Wait (requests r)"

definition JoinBackground :: "managerRuntime \<Rightarrow> bool" where
  "JoinBackground r = tg_Wait (background r)"

section \<open>The owner\<close>

record managedServer =
  ms_server :: nat
  ms_listener :: nat
  ms_endpoint :: string

text \<open>A hook may be nil.  A join hook says whether it returns in the given state of the runtime.\<close>

record Hooks =
  hk_StopAdmission :: "(managerRuntime \<Rightarrow> managerRuntime) option"
  hk_JoinRequests :: "(managerRuntime \<Rightarrow> bool) option"
  hk_JoinBackground :: "(managerRuntime \<Rightarrow> bool) option"

text \<open>The hooks \<open>serveWithOptions\<close> installs.\<close>

definition manager_hooks :: Hooks where
  "manager_hooks = \<lparr> hk_StopAdmission = Some mr_StopAdmission, hk_JoinRequests = Some JoinRequests,
     hk_JoinBackground = Some JoinBackground \<rparr>"

datatype release = StopAdmissionHook | ShutdownServer nat | CloseServer nat | CloseListener nat | ServersJoined
  | RequestsJoined | BackgroundJoined | CloseReceiver nat | RemoveEndpoint string | CloseLock nat

datatype close_error = ShutdownFailed nat | RemoveFailed string | LockCloseFailed nat

text \<open>Where the goroutine inside \<open>closeOnce.Do\<close> is.  The number in a loop state is the index plus one;
  \<open>NilReceiver\<close> is the panic of closing a nil receiver.\<close>

datatype close_pc = CloseIdle | ShutServers nat | WaitServers | WaitRequests | WaitBackground | CloseReceivers nat
  | NilReceiver nat | RemoveEndpoints nat | ReleaseLock | Publish | CloseDone

text \<open>\<open>serving\<close> are the servers whose goroutines have not returned (the count of \<open>serversWG\<close>), \<open>serveErrors\<close> is the
  content of the channel and \<open>serveCap\<close> its capacity.  \<open>released\<close> records what \<open>Close\<close> has done.\<close>

record Owner =
  ro_phase :: ro_phase
  hooks :: Hooks
  ro_lock :: "nat option"
  servers :: "managedServer list"
  receivers :: "nat option list"
  serving :: "nat list"
  serveErrors :: "nat list"
  serveCap :: nat
  closePc :: close_pc
  closeErr :: "close_error list"
  released :: "release list"

text \<open>\<open>None\<close> is the panic on a grace period that is not positive.\<close>

definition ro_New :: "Hooks \<Rightarrow> int \<Rightarrow> Owner option" where
  "ro_New hk grace = (if grace \<le> 0 then None
     else Some \<lparr> ro_phase = NewPhase, hooks = hk, ro_lock = None, servers = [], receivers = [], serving = [],
       serveErrors = [], serveCap = 0, closePc = CloseIdle, closeErr = [], released = [] \<rparr>)"

definition SetLock :: "nat option \<Rightarrow> Owner \<Rightarrow> Owner \<times> ro_error option" where
  "SetLock l w = (case l of
     None \<Rightarrow> (w, Some LockNil)
   | Some _ \<Rightarrow> (case ro_transition Locked (ro_phase w) of
         Inl e \<Rightarrow> (w, Some e)
       | Inr p \<Rightarrow> (w \<lparr> ro_phase := p, ro_lock := l \<rparr>, None)))"

definition AddServer :: "nat option \<Rightarrow> nat option \<Rightarrow> string \<Rightarrow> Owner \<Rightarrow> Owner \<times> ro_error option" where
  "AddServer server listener endpoint w = (case (server, listener) of
     (Some sv, Some ln) \<Rightarrow>
       if ro_phase w \<noteq> Locked \<and> ro_phase w \<noteq> Listening then (w, Some (WrongPhase ''add manager server'' (ro_phase w)))
       else
         let w = w \<lparr> servers := servers w @ [\<lparr> ms_server = sv, ms_listener = ln, ms_endpoint = endpoint \<rparr>] \<rparr> in
         if ro_phase w = Locked then
           (case ro_transition Listening (ro_phase w) of
              Inl e \<Rightarrow> (w, Some e)
            | Inr p \<Rightarrow> (w \<lparr> ro_phase := p \<rparr>, None))
         else (w, None)
   | _ \<Rightarrow> (w, Some ServerRequired))"

definition FeedsReady :: "nat option list \<Rightarrow> Owner \<Rightarrow> Owner \<times> ro_error option" where
  "FeedsReady rs w =
    (if ro_phase w \<noteq> Listening then (w, Some (WrongPhase ''publish manager feeds'' (ro_phase w)))
     else
       let w = w \<lparr> receivers := receivers w @ rs \<rparr> in
       case ro_transition FeedsReadyPhase (ro_phase w) of
         Inl e \<Rightarrow> (w, Some e)
       | Inr p \<Rightarrow> (w \<lparr> ro_phase := p \<rparr>, None))"

definition AttachReceiver :: "nat option \<Rightarrow> Owner \<Rightarrow> Owner \<times> ro_error option" where
  "AttachReceiver rc w =
    (if rc = None \<or> ro_phase w \<noteq> Serving then (w, Some (WrongPhase ''attach policy receiver'' (ro_phase w)))
     else (w \<lparr> receivers := receivers w @ [rc] \<rparr>, None))"

definition StartServers :: "Owner \<Rightarrow> Owner \<times> ro_error option" where
  "StartServers w = (case ro_transition Serving (ro_phase w) of
     Inl e \<Rightarrow> (w, Some e)
   | Inr p \<Rightarrow> (w \<lparr> ro_phase := p, serveErrors := [], serveCap := length (servers w),
                   serving := serving w @ map ms_server (servers w) \<rparr>, None))"

text \<open>The end of a serve goroutine: an error other than \<open>ErrServerClosed\<close> is sent first.  \<open>None\<close> is a send that blocks.\<close>

definition serve_return :: "nat \<Rightarrow> bool \<Rightarrow> Owner \<Rightarrow> Owner option" where
  "serve_return sv closed w =
    (if closed then Some (w \<lparr> serving := remove1 sv (serving w) \<rparr>)
     else if serveCap w \<le> length (serveErrors w) then None
     else Some (w \<lparr> serveErrors := serveErrors w @ [sv], serving := remove1 sv (serving w) \<rparr>))"

section \<open>Close\<close>

text \<open>What the closed resources answer: whether \<open>Shutdown\<close> of a server, the removal of an endpoint (other than
  that it does not exist) and the close of the lock fail.\<close>

record close_env =
  shutdown_fails :: "nat \<Rightarrow> bool"
  remove_fails :: "string \<Rightarrow> bool"
  lock_fails :: "nat \<Rightarrow> bool"

text \<open>The section of \<open>Close\<close> under the admission lock, run by the first caller only.\<close>

definition Close_begin :: "Owner \<times> managerRuntime \<Rightarrow> Owner \<times> managerRuntime" where
  "Close_begin = (\<lambda>(w, r).
    if closePc w \<noteq> CloseIdle then (w, r)
    else
      let w = w \<lparr> ro_phase := beginStop (ro_phase w), closePc := ShutServers (length (servers w)) \<rparr> in
      case hk_StopAdmission (hooks w) of
        None \<Rightarrow> (w, r)
      | Some f \<Rightarrow> (w \<lparr> released := released w @ [StopAdmissionHook] \<rparr>, f r))"

definition shut_events :: "close_env \<Rightarrow> managedServer \<Rightarrow> release list" where
  "shut_events E m = ShutdownServer (ms_server m)
     # (if shutdown_fails E (ms_server m) then [CloseServer (ms_server m)] else []) @ [CloseListener (ms_listener m)]"

definition shut_errors :: "close_env \<Rightarrow> managedServer \<Rightarrow> close_error list" where
  "shut_errors E m = (if shutdown_fails E (ms_server m) then [ShutdownFailed (ms_server m)] else [])"

definition remove_events :: "managedServer \<Rightarrow> release list" where
  "remove_events m = (if ms_endpoint m \<noteq> '''' then [RemoveEndpoint (ms_endpoint m)] else [])"

definition remove_errors :: "close_env \<Rightarrow> managedServer \<Rightarrow> close_error list" where
  "remove_errors E m = (if ms_endpoint m \<noteq> '''' \<and> remove_fails E (ms_endpoint m) then [RemoveFailed (ms_endpoint m)] else [])"

definition lock_errors :: "close_env \<Rightarrow> nat \<Rightarrow> close_error list" where
  "lock_errors E l = (if lock_fails E l then [LockCloseFailed l] else [])"

definition emit :: "release list \<Rightarrow> close_error list \<Rightarrow> close_pc \<Rightarrow> Owner \<Rightarrow> Owner" where
  "emit evs errs pc w = w \<lparr> released := released w @ evs, closeErr := closeErr w @ errs, closePc := pc \<rparr>"

definition join_hook :: "(managerRuntime \<Rightarrow> bool) option \<Rightarrow> release \<Rightarrow> close_pc \<Rightarrow> managerRuntime \<Rightarrow> Owner \<Rightarrow> Owner" where
  "join_hook h ev pc r w = (case h of
     None \<Rightarrow> emit [] [] pc w
   | Some returns \<Rightarrow> if returns r then emit [ev] [] pc w else w)"

text \<open>One action of \<open>Close\<close> after its first section.  A wait that does not return yet leaves the state as it is.\<close>

definition close_step :: "close_env \<Rightarrow> managerRuntime \<Rightarrow> Owner \<Rightarrow> Owner" where
  "close_step E r w = (case closePc w of
     CloseIdle \<Rightarrow> w
   | ShutServers 0 \<Rightarrow> emit [] [] WaitServers w
   | ShutServers (Suc i) \<Rightarrow> (let m = servers w ! i in emit (shut_events E m) (shut_errors E m) (ShutServers i) w)
   | WaitServers \<Rightarrow> if serving w \<noteq> [] then w else emit [ServersJoined] [] WaitRequests w
   | WaitRequests \<Rightarrow> join_hook (hk_JoinRequests (hooks w)) RequestsJoined WaitBackground r w
   | WaitBackground \<Rightarrow> join_hook (hk_JoinBackground (hooks w)) BackgroundJoined (CloseReceivers (length (receivers w))) r w
   | CloseReceivers 0 \<Rightarrow> emit [] [] (RemoveEndpoints (length (servers w))) w
   | CloseReceivers (Suc i) \<Rightarrow> (case receivers w ! i of
         None \<Rightarrow> emit [] [] (NilReceiver (Suc i)) w
       | Some x \<Rightarrow> emit [CloseReceiver x] [] (CloseReceivers i) w)
   | NilReceiver i \<Rightarrow> w
   | RemoveEndpoints 0 \<Rightarrow> emit [] [] ReleaseLock w
   | RemoveEndpoints (Suc i) \<Rightarrow> (let m = servers w ! i in emit (remove_events m) (remove_errors E m) (RemoveEndpoints i) w)
   | ReleaseLock \<Rightarrow> (case ro_lock w of
         None \<Rightarrow> emit [] [] Publish w
       | Some l \<Rightarrow> (emit [CloseLock l] (lock_errors E l) Publish w) \<lparr> ro_lock := None \<rparr>)
   | Publish \<Rightarrow>
       (let w = w \<lparr> closePc := CloseDone \<rparr> in
        case ro_transition (if closeErr w \<noteq> [] then Failed else Stopped) (ro_phase w) of
          Inl _ \<Rightarrow> w
        | Inr p \<Rightarrow> w \<lparr> ro_phase := p \<rparr>)
   | CloseDone \<Rightarrow> w)"

section \<open>Calls in any order\<close>

datatype owner_call = CallSetLock "nat option" | CallAddServer "nat option" "nat option" string
  | CallFeedsReady "nat option list" | CallAttach "nat option" | CallStartServers
  | ServeReturns nat bool | ReceiveError | CallClose | CloseContinues
  | RequestEnters | RequestLeaves | CallBackground | BackgroundEnds | CallCancel

text \<open>A task that ends was admitted, and a serve goroutine that ends was started: other such events do nothing.
  \<open>None\<close> is a panic of a wait group or a serve goroutine that blocks on its error.\<close>

definition owner_step :: "close_env \<Rightarrow> owner_call \<Rightarrow> Owner \<times> managerRuntime \<Rightarrow> (Owner \<times> managerRuntime) option" where
  "owner_step E e = (\<lambda>(w, r). case e of
     CallSetLock l \<Rightarrow> Some (fst (SetLock l w), r)
   | CallAddServer sv ln ep \<Rightarrow> Some (fst (AddServer sv ln ep w), r)
   | CallFeedsReady rs \<Rightarrow> Some (fst (FeedsReady rs w), r)
   | CallAttach rc \<Rightarrow> Some (fst (AttachReceiver rc w), r)
   | CallStartServers \<Rightarrow> Some (fst (StartServers w), r)
   | ServeReturns sv closed \<Rightarrow>
       if sv \<in> set (serving w) then map_option (\<lambda>w'. (w', r)) (serve_return sv closed w) else Some (w, r)
   | ReceiveError \<Rightarrow> Some (w \<lparr> serveErrors := tl (serveErrors w) \<rparr>, r)
   | CallClose \<Rightarrow> Some (Close_begin (w, r))
   | CloseContinues \<Rightarrow> Some (close_step E r w, r)
   | RequestEnters \<Rightarrow> Some (w, fst (OwnedHandler_enter r))
   | RequestLeaves \<Rightarrow> if tg_workers (requests r) = 0 then Some (w, r) else map_option (Pair w) (OwnedHandler_leave r)
   | CallBackground \<Rightarrow> Some (w, fst (StartBackground r))
   | BackgroundEnds \<Rightarrow> if tg_workers (background r) = 0 then Some (w, r) else map_option (Pair w) (background_done r)
   | CallCancel \<Rightarrow> Some (w, mr_Cancel r))"

fun owner_run :: "close_env \<Rightarrow> owner_call list \<Rightarrow> Owner \<times> managerRuntime \<Rightarrow> (Owner \<times> managerRuntime) option" where
  "owner_run E [] s = Some s"
| "owner_run E (e # es) s = (case owner_step E e s of None \<Rightarrow> None | Some s' \<Rightarrow> owner_run E es s')"

section \<open>The shutdown that a set of resources calls for\<close>

definition recv_events :: "nat option \<Rightarrow> release list" where
  "recv_events rc = (case rc of None \<Rightarrow> [] | Some x \<Rightarrow> [CloseReceiver x])"

definition lock_events :: "nat option \<Rightarrow> release list" where
  "lock_events l = (case l of None \<Rightarrow> [] | Some x \<Rightarrow> [CloseLock x])"

text \<open>The plan is written out here on its own, not with the events of \<open>close_step\<close>: for every server, newest
  first, an orderly shutdown, a forced close if that fails, and the listener; then the joins; the
  receivers, newest first; the named endpoints; the lock last.\<close>

definition shutdown_plan :: "close_env \<Rightarrow> Owner \<Rightarrow> release list" where
  "shutdown_plan E w =
    [StopAdmissionHook]
    @ concat [if shutdown_fails E s then [ShutdownServer s, CloseServer s, CloseListener l]
              else [ShutdownServer s, CloseListener l].
              (s, l) \<leftarrow> map (\<lambda>m. (ms_server m, ms_listener m)) (rev (servers w))]
    @ [ServersJoined, RequestsJoined, BackgroundJoined]
    @ concat [(case rc of None \<Rightarrow> [] | Some x \<Rightarrow> [CloseReceiver x]). rc \<leftarrow> rev (receivers w)]
    @ map RemoveEndpoint (filter (\<lambda>e. e \<noteq> '''') (map ms_endpoint (rev (servers w))))
    @ (case ro_lock w of None \<Rightarrow> [] | Some l \<Rightarrow> [CloseLock l])"

definition shutdown_errors :: "close_env \<Rightarrow> Owner \<Rightarrow> close_error list" where
  "shutdown_errors E w =
    map ShutdownFailed (filter (shutdown_fails E) (map ms_server (rev (servers w))))
    @ map RemoveFailed (filter (\<lambda>e. e \<noteq> '''' \<and> remove_fails E e) (map ms_endpoint (rev (servers w))))
    @ (case ro_lock w of None \<Rightarrow> [] | Some l \<Rightarrow> if lock_fails E l then [LockCloseFailed l] else [])"

lemma concat_map_filter: "concat (map (\<lambda>x. if P (f x) then [g (f x)] else []) xs) = map g (filter P (map f xs))"
  by (induction xs) auto

lemma shutdown_plan_eq:
  "shutdown_plan E w =
    [StopAdmissionHook] @ concat (map (shut_events E) (rev (servers w))) @ [ServersJoined, RequestsJoined, BackgroundJoined]
    @ concat (map recv_events (rev (receivers w))) @ concat (map remove_events (rev (servers w))) @ lock_events (ro_lock w)"
proof -
  have "shut_events E = (\<lambda>m. if shutdown_fails E (ms_server m)
      then [ShutdownServer (ms_server m), CloseServer (ms_server m), CloseListener (ms_listener m)]
      else [ShutdownServer (ms_server m), CloseListener (ms_listener m)])"
    by (auto simp: shut_events_def)
  moreover have "concat (map remove_events ms)
      = map RemoveEndpoint (filter (\<lambda>e. e \<noteq> '''') (map ms_endpoint ms))" for ms
    unfolding remove_events_def by (rule concat_map_filter)
  moreover have "recv_events = (\<lambda>rc. case rc of None \<Rightarrow> [] | Some x \<Rightarrow> [CloseReceiver x])"
    by (simp add: fun_eq_iff recv_events_def)
  ultimately show ?thesis by (simp add: shutdown_plan_def lock_events_def comp_def)
qed

lemma shutdown_errors_eq:
  "shutdown_errors E w = concat (map (shut_errors E) (rev (servers w))) @ concat (map (remove_errors E) (rev (servers w)))
     @ (case ro_lock w of None \<Rightarrow> [] | Some l \<Rightarrow> lock_errors E l)"
proof -
  have "concat (map (shut_errors E) ms) = map ShutdownFailed (filter (shutdown_fails E) (map ms_server ms))" for ms
    unfolding shut_errors_def by (rule concat_map_filter)
  moreover have "concat (map (remove_errors E) ms)
      = map RemoveFailed (filter (\<lambda>e. e \<noteq> '''' \<and> remove_fails E e) (map ms_endpoint ms))" for ms
    unfolding remove_errors_def by (rule concat_map_filter [where P = "\<lambda>e. e \<noteq> '''' \<and> remove_fails E e"])
  ultimately show ?thesis by (simp add: shutdown_errors_def lock_errors_def split: option.split)
qed

text \<open>The events of the elements from an index on, in the reverse order of the loops.\<close>

definition from_end :: "('a \<Rightarrow> 'b list) \<Rightarrow> nat \<Rightarrow> 'a list \<Rightarrow> 'b list" where
  "from_end f k xs = concat (map f (rev (drop k xs)))"

lemma from_end_0: "from_end f 0 xs = concat (map f (rev xs))"
  by (simp add: from_end_def)

lemma from_end_all [simp]: "from_end f (length xs) xs = []"
  by (simp add: from_end_def)

lemma from_end_step: "i < length xs \<Longrightarrow> from_end f i xs = from_end f (Suc i) xs @ f (xs ! i)"
  by (simp add: from_end_def flip: Cons_nth_drop_Suc)

lemma from_end_prefix: "\<exists>zs. from_end f 0 xs = from_end f k xs @ zs"
  by (rule exI [of _ "concat (map f (rev (take k xs)))"])
    (simp add: from_end_def flip: concat_append map_append rev_append)

definition expected :: "close_env \<Rightarrow> Owner \<Rightarrow> close_pc \<Rightarrow> release list" where
  "expected E w pc =
    (let stop = [StopAdmissionHook]; shut = (\<lambda>k. stop @ from_end (shut_events E) k (servers w));
         joined = shut 0 @ [ServersJoined, RequestsJoined, BackgroundJoined];
         recv = (\<lambda>k. joined @ from_end recv_events k (receivers w));
         rem = (\<lambda>k. recv 0 @ from_end remove_events k (servers w))
     in case pc of
       CloseIdle \<Rightarrow> []
     | ShutServers k \<Rightarrow> shut k
     | WaitServers \<Rightarrow> shut 0
     | WaitRequests \<Rightarrow> shut 0 @ [ServersJoined]
     | WaitBackground \<Rightarrow> shut 0 @ [ServersJoined, RequestsJoined]
     | CloseReceivers k \<Rightarrow> recv k
     | NilReceiver k \<Rightarrow> recv k
     | RemoveEndpoints k \<Rightarrow> rem k
     | ReleaseLock \<Rightarrow> rem 0
     | Publish \<Rightarrow> rem 0 @ lock_events (ro_lock w)
     | CloseDone \<Rightarrow> rem 0 @ lock_events (ro_lock w))"

definition expected_errors :: "close_env \<Rightarrow> Owner \<Rightarrow> close_pc \<Rightarrow> close_error list" where
  "expected_errors E w pc =
    (let shut = (\<lambda>k. from_end (shut_errors E) k (servers w));
         rem = (\<lambda>k. shut 0 @ from_end (remove_errors E) k (servers w))
     in case pc of
       CloseIdle \<Rightarrow> []
     | ShutServers k \<Rightarrow> shut k
     | RemoveEndpoints k \<Rightarrow> rem k
     | ReleaseLock \<Rightarrow> rem 0
     | Publish \<Rightarrow> shutdown_errors E w
     | CloseDone \<Rightarrow> shutdown_errors E w
     | _ \<Rightarrow> shut 0)"

lemma expected_done: "expected E w CloseDone = shutdown_plan E w"
  by (simp add: expected_def shutdown_plan_eq from_end_0 Let_def)

lemma expected_prefix: "prefix (expected E w pc) (shutdown_plan E w)"
proof -
  have p: "prefix (from_end f k xs @ ys) (from_end f 0 xs @ zs)" if "ys = []" for f :: "'a \<Rightarrow> release list" and k xs ys zs
    using from_end_prefix [of f xs k] that by auto
  show ?thesis
    unfolding expected_done [symmetric]
    by (cases pc) (simp_all add: expected_def Let_def p [of "[]", simplified])
qed

section \<open>The invariant of a shutdown\<close>

definition pc_rank :: "close_pc \<Rightarrow> nat" where
  "pc_rank pc = (case pc of CloseIdle \<Rightarrow> 0 | ShutServers _ \<Rightarrow> 1 | WaitServers \<Rightarrow> 1 | WaitRequests \<Rightarrow> 2 | WaitBackground \<Rightarrow> 3
     | _ \<Rightarrow> 4)"

definition pc_fits :: "Owner \<Rightarrow> close_pc \<Rightarrow> bool" where
  "pc_fits w pc \<longleftrightarrow> (case pc of CloseIdle \<Rightarrow> False | ShutServers k \<Rightarrow> k \<le> length (servers w)
     | CloseReceivers k \<Rightarrow> k \<le> length (receivers w) | NilReceiver k \<Rightarrow> k \<noteq> 0 \<and> k \<le> length (receivers w) \<and> receivers w ! (k - 1) = None
     | RemoveEndpoints k \<Rightarrow> k \<le> length (servers w) | _ \<Rightarrow> True)"

definition joined :: "close_pc \<Rightarrow> Owner \<Rightarrow> managerRuntime \<Rightarrow> bool" where
  "joined pc w r \<longleftrightarrow> tg_stopped (requests r) \<and> tg_stopped (background r) \<and> (2 \<le> pc_rank pc \<longrightarrow> serving w = [])
     \<and> (3 \<le> pc_rank pc \<longrightarrow> tg_workers (requests r) = 0) \<and> (4 \<le> pc_rank pc \<longrightarrow> tg_workers (background r) = 0)"

text \<open>\<open>w0\<close> is the owner when \<open>Close\<close> was called.\<close>

definition closing :: "close_env \<Rightarrow> Owner \<Rightarrow> Owner \<times> managerRuntime \<Rightarrow> bool" where
  "closing E w0 = (\<lambda>(w, r). servers w = servers w0 \<and> receivers w = receivers w0 \<and> hooks w = manager_hooks
     \<and> pc_fits w0 (closePc w) \<and> released w = expected E w0 (closePc w) \<and> closeErr w = expected_errors E w0 (closePc w)
     \<and> ro_lock w = (if closePc w \<in> {Publish, CloseDone} then None else ro_lock w0)
     \<and> ro_phase w = (if closePc w = CloseDone then (if closeErr w = [] then Stopped else Failed) else Stopping)
     \<and> joined (closePc w) w r)"

definition chan_fits :: "Owner \<Rightarrow> bool" where
  "chan_fits w \<longleftrightarrow> length (serveErrors w) + length (serving w) \<le> serveCap w"

lemma emit_sel [simp]:
  "servers (emit a b pc w) = servers w" "receivers (emit a b pc w) = receivers w" "hooks (emit a b pc w) = hooks w"
  "closePc (emit a b pc w) = pc" "released (emit a b pc w) = released w @ a" "closeErr (emit a b pc w) = closeErr w @ b"
  "ro_lock (emit a b pc w) = ro_lock w" "ro_phase (emit a b pc w) = ro_phase w" "serving (emit a b pc w) = serving w"
  "serveErrors (emit a b pc w) = serveErrors w" "serveCap (emit a b pc w) = serveCap w"
  by (simp_all add: emit_def)

lemma close_step_closing:
  assumes "closing E w0 (w, r)"
  shows "closing E w0 (close_step E r w, r)"
proof (cases "closePc w")
  case (ShutServers k)
  then show ?thesis using assms
    by (cases k) (auto simp: closing_def close_step_def expected_def expected_errors_def pc_fits_def joined_def pc_rank_def
        from_end_step Let_def)
next
  case (CloseReceivers k)
  then show ?thesis using assms
    by (cases k) (auto simp: closing_def close_step_def expected_def expected_errors_def pc_fits_def joined_def pc_rank_def
        from_end_step recv_events_def Let_def split: option.splits)
next
  case (RemoveEndpoints k)
  then show ?thesis using assms
    by (cases k) (auto simp: closing_def close_step_def expected_def expected_errors_def pc_fits_def joined_def pc_rank_def
        from_end_step Let_def)
qed (use assms in \<open>auto simp: closing_def close_step_def expected_def expected_errors_def pc_fits_def joined_def pc_rank_def
    join_hook_def manager_hooks_def JoinRequests_def JoinBackground_def tg_Wait_def lock_events_def shutdown_errors_eq from_end_0
    ro_transition_def Let_def split: option.splits\<close>)

text \<open>Once the phase is past serving, every admission call is refused and changes nothing.\<close>

definition refuses :: "Owner \<Rightarrow> bool" where
  "refuses w \<longleftrightarrow> (\<forall>l. \<exists>e. SetLock l w = (w, Some e)) \<and> (\<forall>sv ln ep. \<exists>e. AddServer sv ln ep w = (w, Some e))
     \<and> (\<forall>rs. \<exists>e. FeedsReady rs w = (w, Some e)) \<and> (\<forall>rc. \<exists>e. AttachReceiver rc w = (w, Some e))
     \<and> (\<exists>e. StartServers w = (w, Some e))"

lemma ended_refuses: "ro_phase w \<in> {Stopping, Stopped, Failed} \<Longrightarrow> refuses w"
  by (auto simp: refuses_def SetLock_def AddServer_def FeedsReady_def AttachReceiver_def StartServers_def ro_transition_def
      split: option.split)

lemma refusesD:
  assumes "refuses w"
  shows "fst (SetLock l w) = w" "fst (AddServer sv ln ep w) = w" "fst (FeedsReady rs w) = w" "fst (AttachReceiver rc w) = w"
    "fst (StartServers w) = w"
  using assms unfolding refuses_def by (metis fst_conv)+

lemma closing_refuses: "closing E w0 (w, r) \<Longrightarrow> refuses w"
  by (rule ended_refuses) (auto simp: closing_def)

lemma serve_return_some:
  assumes "chan_fits w" "sv \<in> set (serving w)"
  obtains w' where "serve_return sv closed w = Some w'" "chan_fits w'"
    "w' = w \<lparr> serveErrors := serveErrors w', serving := remove1 sv (serving w) \<rparr>"
proof -
  obtain n where l: "length (serving w) = Suc n" using assms(2) by (cases "serving w") auto
  show thesis
  proof (cases closed)
    case True
    then show thesis using assms that by (simp add: serve_return_def chan_fits_def length_remove1)
  next
    case False
    then show thesis using assms l that [of "w \<lparr> serveErrors := serveErrors w @ [sv], serving := remove1 sv (serving w) \<rparr>"]
      by (simp add: serve_return_def chan_fits_def length_remove1)
  qed
qed

lemma close_step_chan: "chan_fits (close_step E r w) = chan_fits w"
  by (auto simp: close_step_def chan_fits_def join_hook_def Let_def
      split: close_pc.split nat.split option.split sum.split)

lemma task_steps:
  assumes "tg_stopped (requests r)" "tg_stopped (background r)"
  shows "OwnedHandler_enter r = (r, False)" "StartBackground r = (r, False)"
  using assms by (simp_all add: OwnedHandler_enter_def StartBackground_def tg_Acquire_def tg_Start_def)

lemma owner_step_closing:
  assumes "closing E w0 (w, r)" "chan_fits w"
  shows "\<exists>w' r'. owner_step E e (w, r) = Some (w', r') \<and> closing E w0 (w', r') \<and> chan_fits w'"
proof -
  have st: "tg_stopped (requests r)" "tg_stopped (background r)" using assms(1) by (simp_all add: closing_def joined_def)
  note call = refusesD [OF closing_refuses [OF assms(1)]] task_steps [OF st]
  show ?thesis
  proof (cases e)
    case (ServeReturns sv closed)
    show ?thesis
    proof (cases "sv \<in> set (serving w)")
      case True
      obtain w' where w': "serve_return sv closed w = Some w'" "chan_fits w'"
        "w' = w \<lparr> serveErrors := serveErrors w', serving := remove1 sv (serving w) \<rparr>"
        using serve_return_some [OF assms(2) True] .
      have "closing E w0 (w \<lparr> serveErrors := x, serving := remove1 sv (serving w) \<rparr>, r)" for x
        using assms(1) by (auto simp: closing_def joined_def)
      then have "closing E w0 (w', r)" using w'(3) by metis
      then show ?thesis using ServeReturns True w' by (simp add: owner_step_def)
    qed (use ServeReturns assms in \<open>simp add: owner_step_def\<close>)
  next
    case CallClose
    have "closePc w \<noteq> CloseIdle" using assms(1) by (auto simp: closing_def pc_fits_def)
    then show ?thesis using CallClose assms by (simp add: owner_step_def Close_begin_def)
  next
    case CloseContinues
    then show ?thesis using assms close_step_closing close_step_chan by (simp add: owner_step_def)
  qed (use assms call in \<open>auto simp: owner_step_def closing_def joined_def chan_fits_def mr_Cancel_def
      OwnedHandler_leave_def background_done_def tg_Done_def\<close>)
qed

lemma owner_run_closing:
  "closing E w0 (w, r) \<Longrightarrow> chan_fits w \<Longrightarrow>
     \<exists>w' r'. owner_run E es (w, r) = Some (w', r') \<and> closing E w0 (w', r') \<and> chan_fits w'"
proof (induct es arbitrary: w r)
  case (Cons e es)
  obtain w1 r1 where "owner_step E e (w, r) = Some (w1, r1)" "closing E w0 (w1, r1)" "chan_fits w1"
    using owner_step_closing [OF Cons.prems] by blast
  then show ?case using Cons.hyps [of w1 r1] by simp
qed simp

section \<open>Before a shutdown\<close>

definition owner_open :: "Owner \<Rightarrow> bool" where
  "owner_open w \<longleftrightarrow> hooks w = manager_hooks \<and> closePc w = CloseIdle \<and> released w = [] \<and> closeErr w = []
     \<and> ro_phase w \<notin> {Stopping, Stopped, Failed} \<and> (ro_phase w \<noteq> Serving \<longrightarrow> serving w = []) \<and> chan_fits w"

lemma owner_open_new: "ro_New manager_hooks grace = Some w \<Longrightarrow> owner_open w"
  by (auto simp: ro_New_def owner_open_def chan_fits_def split: if_splits)

lemma owner_open_admission:
  assumes "owner_open w"
  shows "owner_open (fst (SetLock l w))" "owner_open (fst (AddServer sv ln ep w))" "owner_open (fst (FeedsReady rs w))"
    "owner_open (fst (AttachReceiver rc w))" "owner_open (fst (StartServers w))"
  using assms by (cases "ro_phase w"; auto simp: owner_open_def chan_fits_def SetLock_def AddServer_def FeedsReady_def
      AttachReceiver_def StartServers_def ro_transition_def Let_def split: option.split)+

lemma owner_step_open:
  assumes "owner_open w" "e \<noteq> CallClose"
  shows "\<exists>w' r'. owner_step E e (w, r) = Some (w', r') \<and> owner_open w'"
proof (cases e)
  case (ServeReturns sv closed)
  show ?thesis
  proof (cases "sv \<in> set (serving w)")
    case True
    have "chan_fits w" using assms(1) by (simp add: owner_open_def)
    then obtain w' where w': "serve_return sv closed w = Some w'" "chan_fits w'"
      "w' = w \<lparr> serveErrors := serveErrors w', serving := remove1 sv (serving w) \<rparr>"
      using serve_return_some [OF _ True] by blast
    have "chan_fits v \<Longrightarrow> v = w \<lparr> serveErrors := x, serving := remove1 sv (serving w) \<rparr> \<Longrightarrow> owner_open v" for v x
      using assms(1) by (auto simp: owner_open_def)
    then have "owner_open w'" using w'(2,3) by blast
    then show ?thesis using ServeReturns True w' by (simp add: owner_step_def)
  qed (use ServeReturns assms in \<open>simp add: owner_step_def\<close>)
next
  case CloseContinues
  then show ?thesis using assms by (simp add: owner_step_def close_step_def owner_open_def)
qed (use assms owner_open_admission in \<open>auto simp: owner_step_def owner_open_def chan_fits_def
    OwnedHandler_leave_def background_done_def tg_Done_def\<close>)

lemma owner_run_open:
  "owner_open w \<Longrightarrow> CallClose \<notin> set es \<Longrightarrow> \<exists>w' r'. owner_run E es (w, r) = Some (w', r') \<and> owner_open w'"
proof (induct es arbitrary: w r)
  case (Cons e es)
  have "e \<noteq> CallClose" using Cons.prems(2) by auto
  then obtain w1 r1 where "owner_step E e (w, r) = Some (w1, r1)" "owner_open w1"
    using owner_step_open [OF Cons.prems(1)] by blast
  then show ?case using Cons.hyps [of w1 r1] Cons.prems(2) by simp
qed simp

lemma Close_begin_closing:
  assumes "owner_open w"
  obtains w' r' where "Close_begin (w, r) = (w', r')" "closing E w (w', r')" "chan_fits w'"
proof -
  define s where "s = Close_begin (w, r)"
  have "closing E w s \<and> chan_fits (fst s)" using assms
    by (auto simp: s_def Close_begin_def owner_open_def closing_def joined_def pc_fits_def pc_rank_def expected_def
        expected_errors_def manager_hooks_def beginStop_def mr_StopAdmission_def mr_Cancel_def tg_StopAdmission_def
        chan_fits_def Let_def)
  then show thesis using that s_def by (metis prod.collapse)
qed

lemma shutdown_run:
  assumes "ro_New manager_hooks grace = Some w" "CallClose \<notin> set es"
  shows "\<exists>w0 r0 w1 r1. owner_run E es (w, r) = Some (w0, r0) \<and> owner_run E (CallClose # fs) (w0, r0) = Some (w1, r1)
    \<and> closing E w0 (w1, r1) \<and> chan_fits w1"
proof -
  obtain w0 r0 where a: "owner_run E es (w, r) = Some (w0, r0)" "owner_open w0"
    using owner_run_open [OF owner_open_new [OF assms(1)] assms(2)] by blast
  obtain w2 r2 where b: "Close_begin (w0, r0) = (w2, r2)" "closing E w0 (w2, r2)" "chan_fits w2"
    using Close_begin_closing [OF a(2)] .
  from owner_run_closing [OF b(2,3), of fs] a(1) b(1) show ?thesis by (simp add: owner_step_def)
qed

section \<open>Order and end of a shutdown\<close>

lemma background_joined: "BackgroundJoined \<in> set (expected E w pc) \<Longrightarrow> 4 \<le> pc_rank pc"
  by (cases pc) (auto simp: expected_def pc_rank_def from_end_def shut_events_def Let_def split: if_splits)

text \<open>C25.  The manager shuts down in order.  Whatever calls come before \<open>Close\<close> and whatever calls, server returns, requests
  and background tasks run beside it, no wait group goes negative and no serve goroutine blocks on its error.  What
  \<open>Close\<close> has released is always an initial part of the plan for the resources held when it was called: admission is stopped,
  servers and listeners are closed in reverse order, servers, requests and background tasks are joined, receivers are
  closed in reverse order, endpoints are removed, and the state lock is released last.  Meanwhile no resource, request or task
  is admitted, and after the joins none is running.  When \<open>Close\<close> ends, the whole plan has been carried out, its
  error is exactly the failures met, and the phase is stopped or, with a failure, failed.\<close>

theorem manager_shutdown_order:
  assumes "ro_New manager_hooks grace = Some w" "CallClose \<notin> set es"
  shows "\<exists>w0 r0 w1 r1. owner_run E es (w, newManagerRuntime) = Some (w0, r0)
    \<and> owner_run E (CallClose # fs) (w0, r0) = Some (w1, r1)
    \<and> prefix (released w1) (shutdown_plan E w0) \<and> refuses w1
    \<and> OwnedHandler_enter r1 = (r1, False) \<and> StartBackground r1 = (r1, False)
    \<and> (BackgroundJoined \<in> set (released w1) \<longrightarrow>
         serving w1 = [] \<and> tg_workers (requests r1) = 0 \<and> tg_workers (background r1) = 0)
    \<and> (closePc w1 = CloseDone \<longrightarrow> released w1 = shutdown_plan E w0 \<and> closeErr w1 = shutdown_errors E w0
         \<and> ro_lock w1 = None \<and> ro_phase w1 = (if shutdown_errors E w0 = [] then Stopped else Failed))"
proof -
  obtain w0 r0 w1 r1 where s: "owner_run E es (w, newManagerRuntime) = Some (w0, r0)"
    "owner_run E (CallClose # fs) (w0, r0) = Some (w1, r1)" "closing E w0 (w1, r1)"
    using shutdown_run [OF assms] by blast
  have j: "joined (closePc w1) w1 r1" "released w1 = expected E w0 (closePc w1)" using s(3) by (simp_all add: closing_def)
  have "closePc w1 = CloseDone \<longrightarrow> released w1 = shutdown_plan E w0 \<and> closeErr w1 = shutdown_errors E w0
      \<and> ro_lock w1 = None \<and> ro_phase w1 = (if shutdown_errors E w0 = [] then Stopped else Failed)"
    using s(3) expected_done by (simp add: closing_def expected_errors_def)
  moreover have "BackgroundJoined \<in> set (released w1) \<longrightarrow>
      serving w1 = [] \<and> tg_workers (requests r1) = 0 \<and> tg_workers (background r1) = 0"
    using j background_joined [of E w0 "closePc w1"] by (fastforce simp: joined_def)
  moreover have "OwnedHandler_enter r1 = (r1, False)" "StartBackground r1 = (r1, False)"
    using j(1) task_steps by (simp_all add: joined_def)
  ultimately show ?thesis using s j(2) expected_prefix closing_refuses by (metis (no_types, lifting))
qed

definition pc_left :: "Owner \<Rightarrow> nat" where
  "pc_left w = (let R = length (receivers w); S = length (servers w) in case closePc w of
     CloseIdle \<Rightarrow> 0 | ShutServers k \<Rightarrow> 8 + k + R + S | WaitServers \<Rightarrow> 7 + R + S | WaitRequests \<Rightarrow> 6 + R + S
   | WaitBackground \<Rightarrow> 5 + R + S | CloseReceivers k \<Rightarrow> 4 + k + S | NilReceiver _ \<Rightarrow> 0 | RemoveEndpoints k \<Rightarrow> 3 + k
   | ReleaseLock \<Rightarrow> 2 | Publish \<Rightarrow> 1 | CloseDone \<Rightarrow> 0)"

definition quiet :: "Owner \<times> managerRuntime \<Rightarrow> bool" where
  "quiet = (\<lambda>(w, r). serving w = [] \<and> tg_workers (requests r) = 0 \<and> tg_workers (background r) = 0 \<and> None \<notin> set (receivers w))"

lemma close_step_left:
  assumes "closing E w0 (w, r)" "quiet (w, r)"
  shows "pc_left (close_step E r w) = pc_left w - 1" "quiet (close_step E r w, r)"
proof -
  have h: "hooks w = manager_hooks" "pc_fits w0 (closePc w)" "receivers w = receivers w0" using assms(1) by (simp_all add: closing_def)
  have n: "i < length (receivers w) \<Longrightarrow> receivers w ! i \<noteq> None" for i
    using assms(2) by (metis (mono_tags, lifting) quiet_def case_prod_conv nth_mem)
  show "quiet (close_step E r w, r)" using assms(2)
    by (auto simp: quiet_def close_step_def join_hook_def Let_def
        split: close_pc.split nat.split option.split sum.split)
  show "pc_left (close_step E r w) = pc_left w - 1"
  proof (cases "closePc w")
    case (CloseReceivers k)
    then show ?thesis using h n by (cases k) (auto simp: pc_left_def close_step_def pc_fits_def Let_def split: option.split)
  qed (use assms(2) h in \<open>auto simp: pc_left_def close_step_def join_hook_def manager_hooks_def quiet_def JoinRequests_def
      JoinBackground_def tg_Wait_def Let_def split: nat.split option.split sum.split\<close>)
qed

lemma close_runs_out:
  "closing E w0 (w, r) \<Longrightarrow> quiet (w, r) \<Longrightarrow> \<exists>w'. owner_run E (replicate n CloseContinues) (w, r) = Some (w', r)
     \<and> closing E w0 (w', r) \<and> quiet (w', r) \<and> pc_left w' = pc_left w - n"
proof (induct n arbitrary: w)
  case (Suc n)
  have "closing E w0 (close_step E r w, r)" using close_step_closing [OF Suc.prems(1)] .
  then show ?case using Suc.hyps [of "close_step E r w"] close_step_left [OF Suc.prems] by (auto simp: owner_step_def)
qed auto

lemma left_done:
  assumes "closing E w0 (w, r)" "quiet (w, r)" "pc_left w = 0"
  shows "closePc w = CloseDone"
proof (cases "closePc w")
  case (NilReceiver k)
  then have "k \<noteq> 0" "k \<le> length (receivers w)" "receivers w ! (k - 1) = None"
    using assms(1) by (simp_all add: closing_def pc_fits_def)
  then have "None \<in> set (receivers w)" by (metis One_nat_def diff_less le_less_trans less_le_trans nth_mem zero_less_Suc neq0_conv)
  then show ?thesis using assms(2) by (simp add: quiet_def)
qed (use assms in \<open>auto simp: pc_left_def closing_def pc_fits_def Let_def\<close>)

lemma left_bound: "closing E w0 (w, r) \<Longrightarrow> pc_left w \<le> 8 + length (receivers w) + 2 * length (servers w)"
  by (cases "closePc w") (auto simp: closing_def pc_fits_def pc_left_def Let_def)

text \<open>C27.  The shutdown of the manager ends.  After any calls before and beside \<open>Close\<close>, once the servers have returned and
  the admitted requests and tasks have ended, \<open>Close\<close> finishes within eight actions plus one for each receiver and two for
  each server, with the whole plan carried out, provided no receiver handed over was nil.\<close>

theorem manager_shutdown_ends:
  assumes "ro_New manager_hooks grace = Some w" "CallClose \<notin> set es"
    and "owner_run E es (w, newManagerRuntime) = Some (w0, r0)" "owner_run E (CallClose # fs) (w0, r0) = Some (w1, r1)"
    and "serving w1 = []" "tg_workers (requests r1) = 0" "tg_workers (background r1) = 0" "None \<notin> set (receivers w0)"
    and "8 + length (receivers w0) + 2 * length (servers w0) \<le> n"
  shows "\<exists>w2. owner_run E (replicate n CloseContinues) (w1, r1) = Some (w2, r1) \<and> closePc w2 = CloseDone
    \<and> released w2 = shutdown_plan E w0 \<and> ro_phase w2 = (if shutdown_errors E w0 = [] then Stopped else Failed)"
proof -
  have c: "closing E w0 (w1, r1)"
    using shutdown_run [OF assms(1,2), of E newManagerRuntime fs] assms(3,4) by auto
  then have k: "receivers w1 = receivers w0" "servers w1 = servers w0" by (simp_all add: closing_def)
  have "quiet (w1, r1)" using assms(5-8) k by (simp add: quiet_def)
  from close_runs_out [OF c this, of n] left_bound [OF c] assms(9) k
  obtain w2 where w2: "owner_run E (replicate n CloseContinues) (w1, r1) = Some (w2, r1)" "closing E w0 (w2, r1)"
    "quiet (w2, r1)" "pc_left w2 = 0" by auto
  have "closePc w2 = CloseDone" using left_done [OF w2(2,3,4)] .
  then show ?thesis using w2(1,2) expected_done by (simp add: closing_def expected_errors_def)
qed

section \<open>A shutdown evaluated\<close>

definition demo_env :: close_env where
  "demo_env = \<lparr> shutdown_fails = (\<lambda>sv. sv = 2), remove_fails = (\<lambda>_. False), lock_fails = (\<lambda>_. False) \<rparr>"

definition demo_start :: "owner_call list" where
  "demo_start = [CallSetLock (Some 9), CallAddServer (Some 1) (Some 11) ''s'', CallAddServer (Some 2) (Some 12) [],
     CallFeedsReady [Some 5], CallStartServers, RequestEnters]"

definition demo_beside :: "owner_call list" where
  "demo_beside = [CallAttach (Some 6), CloseContinues, ServeReturns 2 False, RequestEnters, CloseContinues, ServeReturns 1 True,
     CloseContinues, RequestLeaves]"

definition demo_new :: Owner where
  "demo_new = \<lparr> ro_phase = NewPhase, hooks = manager_hooks, ro_lock = None, servers = [], receivers = [], serving = [],
     serveErrors = [], serveCap = 0, closePc = CloseIdle, closeErr = [], released = [] \<rparr>"

definition demo_before :: "Owner \<times> managerRuntime" where
  "demo_before = the (owner_run demo_env demo_start (demo_new, newManagerRuntime))"

definition demo_during :: "Owner \<times> managerRuntime" where
  "demo_during = the (owner_run demo_env (CallClose # demo_beside) demo_before)"

lemma demo_ro_New: "ro_New manager_hooks 1 = Some demo_new"
  by (simp add: ro_New_def demo_new_def)

lemmas owner_eval = owner_step_def SetLock_def AddServer_def FeedsReady_def AttachReceiver_def StartServers_def serve_return_def
  Close_begin_def close_step_def ro_transition_def beginStop_def join_hook_def emit_def OwnedHandler_enter_def
  OwnedHandler_leave_def tg_Acquire_def tg_Done_def mr_StopAdmission_def mr_Cancel_def tg_StopAdmission_def
  shut_events_def shut_errors_def manager_hooks_def newManagerRuntime_def demo_new_def demo_env_def Let_def

lemma demo_before_eq:
  "owner_run demo_env demo_start (demo_new, newManagerRuntime) = Some demo_before"
  "ro_phase (fst demo_before) = Serving" "length (servers (fst demo_before)) = 2" "receivers (fst demo_before) = [Some 5]"
  "shutdown_plan demo_env (fst demo_before) = [StopAdmissionHook, ShutdownServer 2, CloseServer 2, CloseListener 12,
     ShutdownServer 1, CloseListener 11, ServersJoined, RequestsJoined, BackgroundJoined, CloseReceiver 5, RemoveEndpoint ''s'', CloseLock 9]"
  "shutdown_errors demo_env (fst demo_before) = [ShutdownFailed 2]"
  by (simp_all add: demo_before_def demo_start_def owner_eval shutdown_plan_eq shutdown_errors_eq recv_events_def
      lock_events_def lock_errors_def remove_events_def remove_errors_def)

lemma demo_during_eq:
  "owner_run demo_env (CallClose # demo_beside) demo_before = Some demo_during"
  "serving (fst demo_during) = []" "tg_workers (requests (snd demo_during)) = 0" "tg_workers (background (snd demo_during)) = 0"
  "length (released (fst demo_during)) = 6"
  by (simp_all add: demo_during_def demo_beside_def demo_before_def demo_start_def owner_eval)

definition demo_after :: "Owner \<times> managerRuntime" where
  "demo_after = the (owner_run demo_env (CallClose # demo_beside @ replicate 13 CloseContinues) demo_before)"

lemma demo_after_eq:
  "owner_run demo_env (CallClose # demo_beside @ replicate 13 CloseContinues) demo_before = Some demo_after"
  "closePc (fst demo_after) = CloseDone"
  by (simp_all add: demo_after_def demo_beside_def demo_before_def demo_start_def owner_eval numeral_eq_Suc
      JoinRequests_def JoinBackground_def tg_Wait_def remove_events_def remove_errors_def lock_errors_def)

theorem manager_shutdown_order_witness:
  "released (fst demo_after) = [StopAdmissionHook, ShutdownServer 2, CloseServer 2, CloseListener 12, ShutdownServer 1,
      CloseListener 11, ServersJoined, RequestsJoined, BackgroundJoined, CloseReceiver 5, RemoveEndpoint ''s'', CloseLock 9]
   \<and> closeErr (fst demo_after) = [ShutdownFailed 2] \<and> ro_phase (fst demo_after) = Failed \<and> serving (fst demo_after) = []
   \<and> refuses (fst demo_after)"
proof -
  have "CallClose \<notin> set demo_start" by (simp add: demo_start_def)
  from manager_shutdown_order [OF demo_ro_New this, of demo_env "demo_beside @ replicate 13 CloseContinues"]
  obtain w0 r0 w1 r1 where w: "demo_before = (w0, r0)" "demo_after = (w1, r1)"
    "closePc w1 = CloseDone \<longrightarrow> released w1 = shutdown_plan demo_env w0 \<and> closeErr w1 = shutdown_errors demo_env w0
      \<and> ro_lock w1 = None \<and> ro_phase w1 = (if shutdown_errors demo_env w0 = [] then Stopped else Failed)"
    "BackgroundJoined \<in> set (released w1) \<longrightarrow> serving w1 = [] \<and> tg_workers (requests r1) = 0 \<and> tg_workers (background r1) = 0"
    "refuses w1"
    unfolding demo_before_eq(1) by (metis demo_after_eq(1) option.inject)
  have f: "fst demo_before = w0" "fst demo_after = w1" unfolding w(1,2) by simp_all
  then have "closePc w1 = CloseDone" using demo_after_eq(2) by simp
  then show ?thesis using w(3-5) demo_before_eq(5,6) by (simp add: f)
qed

theorem manager_shutdown_ends_witness:
  "\<exists>w2. owner_run demo_env (replicate 13 CloseContinues) demo_during = Some (w2, snd demo_during) \<and> closePc w2 = CloseDone
    \<and> released w2 = [StopAdmissionHook, ShutdownServer 2, CloseServer 2, CloseListener 12, ShutdownServer 1, CloseListener 11,
        ServersJoined, RequestsJoined, BackgroundJoined, CloseReceiver 5, RemoveEndpoint ''s'', CloseLock 9] \<and> ro_phase w2 = Failed"
proof -
  have "CallClose \<notin> set demo_start" by (simp add: demo_start_def)
  from manager_shutdown_ends [OF demo_ro_New this, of demo_env "fst demo_before" "snd demo_before" demo_beside
      "fst demo_during" "snd demo_during" 13]
  show ?thesis using demo_before_eq demo_during_eq by simp
qed

end
